(* ===== verification/Prelude.thy ===== *)
theory Prelude
  imports Main "HOL-Library.Word" "HOL-Library.Monad_Syntax" "HOL-Library.Multiset"
begin

text \<open>
  Shared vocabulary of the development: C's \<open>int\<close>, pointers, the reading of undefined
  behaviour, and the generic list and arithmetic lemmas the components have in common.

  Undefined behaviour (a NULL or dangling pointer that is read, a conversion out of range) and a
  loop that never ends are the value \<open>None\<close> of an \<open>option\<close>; \<open>Some r\<close> is a run that returns \<open>r\<close>.
  What the code itself reports as a failure (a NULL result, -1) stays a value of the result.
\<close>

named_theorems c_int \<open>arithmetic on C integers that stay in range\<close>
named_theorems heap_op \<open>heap operations on addresses whose node is known\<close>

section \<open>Pointers\<close>

type_synonym ptr = nat

abbreviation (input) NULL :: ptr where "NULL \<equiv> 0"

section \<open>C's \<open>int\<close>\<close>

text \<open>
  A C \<open>int\<close> is an \<open>int\<close> in the range of 32-bit two's complement; every arithmetic operation of the
  source goes through \<open>wrap32\<close>, which is the value gcc computes without optimisation (the Makefile
  passes none). Lemmas about values carry the bounds under which no operation wraps.
\<close>

definition wrap32 :: "int \<Rightarrow> int" where
  "wrap32 x = (x + 2147483648) mod 4294967296 - 2147483648"

definition in_int :: "int \<Rightarrow> bool" where
  "in_int x \<longleftrightarrow> - 2147483648 \<le> x \<and> x < 2147483648"

lemma wrap32_id [c_int]: "- 2147483648 \<le> x \<Longrightarrow> x < 2147483648 \<Longrightarrow> wrap32 x = x"
  by (simp add: wrap32_def)

lemma wrap32_in_int [simp]: "in_int (wrap32 x)"
  by (auto simp: wrap32_def in_int_def)

lemma in_intI [intro]: "- 2147483648 \<le> x \<Longrightarrow> x < 2147483648 \<Longrightarrow> in_int x"
  by (simp add: in_int_def)

text \<open>\<open>wrap32\<close> is what a 32-bit register holds, read as a signed number.\<close>

lemma wrap32_sint: "wrap32 x = sint (word_of_int x :: 32 word)"
  by (simp add: wrap32_def sint_uint uint_word_of_int signed_take_bit_eq_take_bit_shift take_bit_eq_mod
      mod_simps)

text \<open>
  The objects on C's heap that a structure with an array of node pointers consists of: the structure,
  its array and the node of each entry. The functions that release such a structure return the
  sequence of objects they pass to \<open>free\<close>.
\<close>

datatype part = Whole | Array | Slot nat

lemma inj_Slot [simp]: "inj_on Slot A"
  by (simp add: inj_on_def)

section \<open>Lists\<close>

lemma distinct_appendD [dest]:
  "distinct (xs @ ys) \<Longrightarrow> distinct xs \<and> distinct ys \<and> set xs \<inter> set ys = {}"
  by simp

lemma mset_swap_nth:
  "i < length xs \<Longrightarrow> j < length xs \<Longrightarrow> mset (xs[i := xs ! j, j := xs ! i]) = mset xs"
  by (rule mset_swap)

lemma mset_butlast_last:
  "xs \<noteq> [] \<Longrightarrow> mset (butlast xs) = mset xs - {# last xs #}"
  by (induct xs rule: rev_induct) auto

lemma filter_comm: "filter P (filter Q xs) = filter Q (filter P xs)"
  by (induct xs) auto

lemma map_nth_update_same:
  "i < length xs \<Longrightarrow> f (xs ! i) = f y \<Longrightarrow> map f (xs[i := y]) = map f xs"
  by (metis list_update_id map_update)

end
