(* ===== verification/Dnode_Heap.thy ===== *)
theory Dnode_Heap
  imports Prelude
begin

text \<open>
  The heap of doubly linked nodes. Three structs of the source have the same shape, a \<open>next\<close> and a
  \<open>prev\<close> pointer around some payload: \<open>Node\<close> (DS/linked_list.h), \<open>QueueNode\<close>
  (DS/circular_queue.h) and \<open>Block\<close> (buddy_memory.h). Each component has a heap of its own node type.
  \<open>seg\<close> says that a list of addresses and payloads is chained in both directions; the lists, the
  ring and the buddy memory are stated with it.
\<close>

record 'a dnode =
  nxt :: ptr
  prv :: ptr
  cell :: 'a

record 'a heap =
  mem :: "ptr \<rightharpoonup> 'a dnode"
  brk :: ptr

definition empty_heap :: "'a heap" where
  "empty_heap = \<lparr>mem = Map.empty, brk = 1\<rparr>"

text \<open>
  \<open>malloc\<close> returns an address that was never used before (its failure is not modelled: the source
  does not check it); \<open>free(NULL)\<close> does nothing and a second free is undefined.
\<close>

definition malloc_node :: "'a dnode \<Rightarrow> 'a heap \<Rightarrow> ptr \<times> 'a heap" where
  "malloc_node n h = (brk h, h\<lparr>mem := (mem h)(brk h \<mapsto> n), brk := Suc (brk h)\<rparr>)"

definition free_node :: "'a heap \<Rightarrow> ptr \<Rightarrow> 'a heap option" where
  "free_node h p =
     (if p = NULL then Some h
      else case mem h p of None \<Rightarrow> None | Some _ \<Rightarrow> Some (h\<lparr>mem := (mem h)(p := None)\<rparr>))"

definition get_node :: "'a heap \<Rightarrow> ptr \<Rightarrow> 'a dnode option" where
  "get_node h p = (if p = NULL then None else mem h p)"

definition put_node :: "'a heap \<Rightarrow> ptr \<Rightarrow> 'a dnode \<Rightarrow> 'a heap" where
  "put_node h p n = h\<lparr>mem := (mem h)(p \<mapsto> n)\<rparr>"

text \<open>Assignments \<open>p->next = q\<close>, \<open>p->prev = q\<close> and to the payload.\<close>

definition set_nxt :: "'a heap \<Rightarrow> ptr \<Rightarrow> ptr \<Rightarrow> 'a heap option" where
  "set_nxt h p q = do { n \<leftarrow> get_node h p; Some (put_node h p (n\<lparr>nxt := q\<rparr>)) }"

definition set_prv :: "'a heap \<Rightarrow> ptr \<Rightarrow> ptr \<Rightarrow> 'a heap option" where
  "set_prv h p q = do { n \<leftarrow> get_node h p; Some (put_node h p (n\<lparr>prv := q\<rparr>)) }"

definition set_cell :: "'a heap \<Rightarrow> ptr \<Rightarrow> 'a \<Rightarrow> 'a heap option" where
  "set_cell h p v = do { n \<leftarrow> get_node h p; Some (put_node h p (n\<lparr>cell := v\<rparr>)) }"

definition wf_heap :: "'a heap \<Rightarrow> bool" where
  "wf_heap h \<longleftrightarrow> 0 < brk h \<and> (\<forall>a \<in> dom (mem h). 0 < a \<and> a < brk h)"

lemma get_node_Some [heap_op]: "p \<noteq> NULL \<Longrightarrow> mem h p = Some n \<Longrightarrow> get_node h p = Some n"
  by (simp add: get_node_def)

lemma mem_put_node [simp]: "mem (put_node h p n) = (mem h)(p \<mapsto> n)"
  by (simp add: put_node_def)

lemma brk_put_node [simp]: "brk (put_node h p n) = brk h"
  by (simp add: put_node_def)

lemma set_nxt_Some [heap_op]:
  "p \<noteq> NULL \<Longrightarrow> mem h p = Some n \<Longrightarrow> set_nxt h p q = Some (put_node h p (n\<lparr>nxt := q\<rparr>))"
  by (simp add: set_nxt_def heap_op)

lemma set_prv_Some [heap_op]:
  "p \<noteq> NULL \<Longrightarrow> mem h p = Some n \<Longrightarrow> set_prv h p q = Some (put_node h p (n\<lparr>prv := q\<rparr>))"
  by (simp add: set_prv_def heap_op)

lemma set_cell_Some [heap_op]:
  "p \<noteq> NULL \<Longrightarrow> mem h p = Some n \<Longrightarrow> set_cell h p v = Some (put_node h p (n\<lparr>cell := v\<rparr>))"
  by (simp add: set_cell_def heap_op)

lemma free_node_Some [heap_op]:
  "p \<noteq> NULL \<Longrightarrow> mem h p = Some n \<Longrightarrow> free_node h p = Some (h\<lparr>mem := (mem h)(p := None)\<rparr>)"
  by (simp add: free_node_def)

lemma NULL_undefined [simp]:
  "get_node h NULL = None" "set_nxt h NULL q = None" "set_prv h NULL q = None"
  by (simp_all add: get_node_def set_nxt_def set_prv_def)

subsection \<open>Well-formed heaps\<close>

lemma wf_empty_heap [simp]: "wf_heap empty_heap"
  by (simp add: wf_heap_def empty_heap_def)

lemma wf_heap_put [intro]: "wf_heap h \<Longrightarrow> mem h p = Some m \<Longrightarrow> wf_heap (put_node h p n)"
  by (auto simp: wf_heap_def)

lemma wf_heap_free [intro]: "wf_heap h \<Longrightarrow> wf_heap (h\<lparr>mem := (mem h)(p := None)\<rparr>)"
  by (auto simp: wf_heap_def)

lemma wf_heap_malloc:
  "wf_heap h \<Longrightarrow> wf_heap (h\<lparr>mem := (mem h)(brk h \<mapsto> n), brk := Suc (brk h)\<rparr>)"
  by (auto simp: wf_heap_def less_Suc_eq)

lemma wf_heap_brk [simp]: "wf_heap h \<Longrightarrow> mem h (brk h) = None"
  by (auto simp: wf_heap_def domIff)

lemma wf_heap_brk_pos: "wf_heap h \<Longrightarrow> brk h \<noteq> NULL"
  by (simp add: wf_heap_def)

section \<open>Segments\<close>

text \<open>
  \<open>seg m pv p xs e\<close>: from address \<open>p\<close> the nodes \<open>xs\<close> follow each other along \<open>next\<close> up to the
  address \<open>e\<close>, the \<open>prev\<close> of the first is \<open>pv\<close>, and that of every other is the node before it.
\<close>

primrec seg :: "(ptr \<rightharpoonup> 'a dnode) \<Rightarrow> ptr \<Rightarrow> ptr \<Rightarrow> (ptr \<times> 'a) list \<Rightarrow> ptr \<Rightarrow> bool" where
  "seg m pv p [] e \<longleftrightarrow> p = e"
| "seg m pv p (x # xs) e \<longleftrightarrow> p = fst x \<and> p \<noteq> NULL \<and>
     (\<exists>q. m p = Some \<lparr>nxt = q, prv = pv, cell = snd x\<rparr> \<and> seg m p q xs e)"

abbreviation addrs :: "(ptr \<times> 'a) list \<Rightarrow> ptr set" where
  "addrs xs \<equiv> fst ` set xs"

definition last_addr :: "ptr \<Rightarrow> (ptr \<times> 'a) list \<Rightarrow> ptr" where
  "last_addr pv xs = (if xs = [] then pv else fst (last xs))"

lemma last_addr_simps [simp]:
  "last_addr pv [] = pv" "last_addr pv (x # xs) = last_addr (fst x) xs"
  "last_addr pv (xs @ [x]) = fst x"
  by (simp_all add: last_addr_def)

lemma last_addr_append [simp]: "last_addr pv (xs @ ys) = last_addr (last_addr pv xs) ys"
  by (simp add: last_addr_def)

lemma seg_append [simp]:
  "seg m pv p (xs @ ys) e \<longleftrightarrow> (\<exists>q. seg m pv p xs q \<and> seg m (last_addr pv xs) q ys e)"
  by (induct xs arbitrary: pv p) auto

lemma seg_frame:
  "\<forall>a \<in> addrs xs. m' a = m a \<Longrightarrow> seg m' pv p xs e = seg m pv p xs e"
  by (induct xs arbitrary: pv p) auto

lemma seg_upd [simp]: "a \<notin> addrs xs \<Longrightarrow> seg (m(a := v)) pv p xs e = seg m pv p xs e"
  by (rule seg_frame) auto

lemma seg_in_heap: "seg m pv p xs e \<Longrightarrow> x \<in> set xs \<Longrightarrow> fst x \<noteq> NULL \<and> m (fst x) \<noteq> None"
  by (induct xs arbitrary: pv p) auto

lemma seg_addrs_dom: "seg m pv p xs e \<Longrightarrow> addrs xs \<subseteq> dom m - {NULL}"
  using seg_in_heap by fastforce

lemma seg_cell:
  "seg m pv p xs e \<Longrightarrow> x \<in> set xs \<Longrightarrow> \<exists>n. m (fst x) = Some n \<and> cell n = snd x"
  by (induct xs arbitrary: pv p) auto

lemma seg_fresh: "seg (mem h) pv p xs e \<Longrightarrow> wf_heap h \<Longrightarrow> brk h \<notin> addrs xs"
  using seg_addrs_dom by fastforce

lemma seg_first: "seg m pv p xs e \<Longrightarrow> xs \<noteq> [] \<Longrightarrow> p = fst (hd xs)"
  by (cases xs) auto

text \<open>A segment that ends in NULL is determined by its first address and repeats no node.\<close>

lemma seg_unique: "seg m pv p xs NULL \<Longrightarrow> seg m pv' p ys NULL \<Longrightarrow> xs = ys"
proof (induct xs arbitrary: pv pv' p ys)
  case Nil
  then show ?case by (cases ys) auto
next
  case (Cons x xs)
  from Cons.prems obtain y zs where ys: "ys = y # zs" by (cases ys) auto
  with Cons.prems have "fst x = fst y" "snd x = snd y" by auto
  with Cons ys show ?case by (auto intro: prod_eqI)
qed

lemma seg_distinct: "seg m pv p xs NULL \<Longrightarrow> distinct (map fst xs)"
proof (induct xs arbitrary: pv p)
  case Nil
  then show ?case by simp
next
  case (Cons x xs)
  then obtain q where q: "m (fst x) = Some \<lparr>nxt = q, prv = pv, cell = snd x\<rparr>"
    "seg m (fst x) q xs NULL" by auto
  have "fst x \<notin> addrs xs"
  proof
    assume "fst x \<in> addrs xs"
    then obtain ys z zs where xs: "xs = ys @ z # zs" "fst z = fst x"
      by (metis (no_types, lifting) imageE split_list)
    with q have "seg m (last_addr (fst x) ys) (fst x) (z # zs) NULL" by auto
    moreover have "seg m pv (fst x) (x # xs) NULL" using Cons.prems by auto
    ultimately have "z # zs = x # xs" by (rule seg_unique)
    then have "length (z # zs) = length (x # xs)" by simp
    with xs show False by simp
  qed
  with Cons q show ?case by auto
qed

subsection \<open>Relinking the ends of a segment\<close>

lemma seg_last_node:
  "seg m pv p xs e \<Longrightarrow> xs \<noteq> [] \<Longrightarrow>
   \<exists>b. m (last_addr NULL xs) = Some \<lparr>nxt = e, prv = b, cell = snd (last xs)\<rparr>"
  by (induct xs arbitrary: pv p) (auto simp: last_addr_def)

lemma seg_set_nxt_last:
  assumes "seg m pv p xs e" "distinct (map fst xs)" "xs \<noteq> []" "m (last_addr NULL xs) = Some n"
  shows "seg (m(last_addr NULL xs \<mapsto> n\<lparr>nxt := e'\<rparr>)) pv p xs e'"
proof -
  obtain ys y where xs: "xs = ys @ [y]" using assms(3) by (cases xs rule: rev_cases) auto
  with assms show ?thesis by (auto simp: last_addr_def)
qed

lemma seg_set_prv_first:
  assumes "seg m pv p xs e" "distinct (map fst xs)" "xs \<noteq> []" "m p = Some n"
  shows "seg (m(p \<mapsto> n\<lparr>prv := pv'\<rparr>)) pv' p xs e"
  using assms by (cases xs) auto

lemma last_addr_in: "xs \<noteq> [] \<Longrightarrow> last_addr pv xs \<in> addrs xs"
  by (simp add: last_addr_def)

lemma last_addr_nonempty: "xs \<noteq> [] \<Longrightarrow> last_addr pv xs = last_addr NULL xs"
  by (simp add: last_addr_def)

lemma seg_node:
  "seg m pv p (xs @ (a, v) # ys) e \<Longrightarrow> a \<noteq> NULL \<and>
   m a = Some \<lparr>nxt = (if ys = [] then e else fst (hd ys)), prv = last_addr pv xs, cell = v\<rparr>"
  by (cases ys) auto

text \<open>
  Unlinking the node \<open>a\<close>: \<open>a->prev->next = a->next; a->next->prev = a->prev\<close>. Inside a segment the
  neighbours meet; in a ring (\<open>seg_close\<close>) what is left of it closes on itself.
\<close>

lemma seg_unlink:
  assumes s: "seg m pv p (xs @ (a, v) # ys) e" and d: "distinct (map fst (xs @ (a, v) # ys))"
    and ne: "xs \<noteq> []" "ys \<noteq> []" and b: "m (last_addr NULL xs) = Some nb"
    and m1: "m1 = m(last_addr NULL xs \<mapsto> nb\<lparr>nxt := fst (hd ys)\<rparr>)"
    and c: "m1 (fst (hd ys)) = Some nc"
  shows "seg (m1(fst (hd ys) \<mapsto> nc\<lparr>prv := last_addr NULL xs\<rparr>)) pv p (xs @ ys) e"
proof -
  let ?b = "last_addr NULL xs" and ?c = "fst (hd ys)"
  have dx: "distinct (map fst xs)" and dy: "distinct (map fst ys)" and dis: "addrs xs \<inter> addrs ys = {}"
    using d by auto
  have b_in: "?b \<in> addrs xs" and c_in: "?c \<in> addrs ys" using ne by (auto intro: last_addr_in)
  from s ne have s1: "seg m pv p xs a" and s2: "seg m a ?c ys e"
    by (auto dest: seg_first)
  have "seg m1 pv p xs ?c" using seg_set_nxt_last [OF s1 dx ne(1) b] m1 by simp
  then have "seg (m1(?c \<mapsto> nc\<lparr>prv := ?b\<rparr>)) pv p xs ?c" using c_in dis by (subst seg_upd) auto
  moreover have "seg m1 a ?c ys e" using s2 b_in dis by (subst m1, subst seg_upd) auto
  then have "seg (m1(?c \<mapsto> nc\<lparr>prv := ?b\<rparr>)) ?b ?c ys e"
    using c by (rule seg_set_prv_first [OF _ dy ne(2)])
  ultimately show ?thesis using last_addr_nonempty [OF ne(1), of pv] by auto
qed

lemma seg_close:
  assumes s: "seg m a f xs a" and d: "distinct (map fst xs)" and ne: "xs \<noteq> []"
    and b: "m (last_addr NULL xs) = Some nb" and m1: "m1 = m(last_addr NULL xs \<mapsto> nb\<lparr>nxt := f\<rparr>)"
    and c: "m1 f = Some nc"
  shows "seg (m1(f \<mapsto> nc\<lparr>prv := last_addr NULL xs\<rparr>)) (last_addr NULL xs) f xs f"
proof -
  have "seg m1 a f xs f" using seg_set_nxt_last [OF s d ne b] m1 by simp
  then show ?thesis using c by (rule seg_set_prv_first [OF _ d ne])
qed

section \<open>Freeing a chain\<close>

text \<open>
  The loop \<open>while (current != NULL) { temp = current; current = current->next; free(temp); }\<close>
  of \<open>cq_free\<close>, \<open>free_linked_list\<close> and \<open>destroy_memory\<close>.
\<close>

partial_function (option) free_chain :: "'a heap \<Rightarrow> ptr \<Rightarrow> 'a heap option" where
  "free_chain h p =
     (if p = NULL then Some h
      else do { n \<leftarrow> get_node h p; h \<leftarrow> free_node h p; free_chain h (nxt n) })"

lemma free_chain_seg:
  assumes "seg (mem h) pv p xs NULL"
  shows "free_chain h p = Some (h\<lparr>mem := mem h |` (- addrs xs)\<rparr>)"
  using assms
proof (induct xs arbitrary: h pv p)
  case Nil
  then show ?case by (simp add: free_chain.simps)
next
  case (Cons x xs)
  then obtain q where q: "p = fst x" "p \<noteq> NULL"
    "mem h p = Some \<lparr>nxt = q, prv = pv, cell = snd x\<rparr>" "seg (mem h) p q xs NULL" by auto
  let ?h = "h\<lparr>mem := (mem h)(p := None)\<rparr>"
  have "p \<notin> addrs xs" using seg_distinct [OF Cons.prems] q(1) by auto
  then have "seg (mem ?h) p q xs NULL" using q(4) seg_upd [of p xs "mem h" None] by simp
  then have "free_chain ?h q = Some (?h\<lparr>mem := mem ?h |` (- addrs xs)\<rparr>)"
    by (rule Cons.hyps)
  moreover have "(mem h)(p := None) |` (- addrs xs) = mem h |` (- addrs (x # xs))"
    using q(1) by (auto simp: restrict_map_def)
  ultimately show ?case using q by (subst free_chain.simps) (simp add: heap_op)
qed

end
