(* ===== verification/Memory_Interface.thy ===== *)
theory Memory_Interface
  imports Prelude
begin

text \<open>
  What the memory manager relies on: a map of bounded capacity from process ids to blocks, which may
  refuse a key, and an allocator of blocks of a memory. The hash map and the buddy allocator are
  interpretations of the two locales.
\<close>

section \<open>A map that may refuse a key\<close>

text \<open>\<open>put\<close> returns -1 when it refuses, 0 when the key had a value and 1 when not.\<close>

locale bounded_map =
  fixes ok :: "'m \<Rightarrow> bool"
    and look :: "'m \<Rightarrow> 'k \<Rightarrow> 'v option"
    and put :: "'m \<Rightarrow> 'k \<Rightarrow> 'v \<Rightarrow> (int \<times> 'm) option"
    and get :: "'m \<Rightarrow> 'k \<Rightarrow> 'v option option"
    and cap :: "'m \<Rightarrow> nat"
  assumes get_look: "ok m \<Longrightarrow> get m k = Some (look m k)"
    and put_look: "ok m \<Longrightarrow> \<exists>r m'. put m k v = Some (r, m') \<and> ok m' \<and> cap m' = cap m \<and>
      (r = - 1 \<and> m' = m \<or>
       r = (if look m k = None then 1 else 0) \<and> look m' = (look m)(k \<mapsto> v))"
    and keys_cap: "ok m \<Longrightarrow> finite (dom (look m)) \<and> card (dom (look m)) \<le> cap m"
begin

text \<open>A key the map does not hold is put or refused; -1 and 1 tell which.\<close>

lemma put_new:
  assumes "ok m" "look m k = None"
  obtains "put m k v = Some (- 1, m)"
  | m' where "put m k v = Some (1, m')" "ok m'" "cap m' = cap m" "look m' = (look m)(k \<mapsto> v)"
  using put_look [OF assms(1), of k v] assms(2) by auto

lemma put_cases:
  assumes "ok m"
  obtains "put m k v = Some (- 1, m)"
  | r m' where "put m k v = Some (r, m')" "r = 0 \<or> r = 1" "ok m'" "cap m' = cap m"
      "look m' = (look m)(k \<mapsto> v)"
  using put_look [OF assms, of k v] by (auto split: if_splits)

text \<open>What a successful \<open>put\<close> stores is what \<open>get\<close> returns, and the other keys keep their values.\<close>

lemma get_put:
  assumes "ok m" "put m k v = Some (r, m')" "r \<noteq> - 1"
  shows "get m' k' = (if k' = k then Some (Some v) else get m k')"
  using put_look [OF assms(1), of k v] assms(2,3) get_look [of m'] get_look [OF assms(1)] by auto

text \<open>A map that holds as many keys as it has room for refuses every new one.\<close>

lemma put_full:
  assumes m: "ok m" "card (dom (look m)) = cap m" and k: "look m k = None"
  shows "put m k v = Some (- 1, m)"
proof (rule put_new [OF m(1) k, of v])
  fix m' assume m': "ok m'" "cap m' = cap m" "look m' = (look m)(k \<mapsto> v)"
  have "card (dom (look m')) = Suc (card (dom (look m)))"
    using keys_cap [OF m(1)] k m'(3) by (simp add: domIff)
  then show ?thesis using keys_cap [OF m'(1)] m'(2) m(2) by simp
qed

text \<open>The values of any part of the keys are bounded by the capacity, too.\<close>

lemma owners_bound:
  assumes "ok m" "\<And>k. k \<in> A \<Longrightarrow> look m k \<noteq> None"
  shows "finite A \<and> card A \<le> cap m"
proof -
  have "A \<subseteq> dom (look m)" using assms(2) by auto
  then show ?thesis
    using keys_cap [OF assms(1)] card_mono [of "dom (look m)" A] finite_subset [of A "dom (look m)"] by auto
qed

end

section \<open>An allocator\<close>

text \<open>Releasing a list of blocks in order.\<close>

primrec release_all :: "('h \<Rightarrow> 'p \<Rightarrow> 'h option) \<Rightarrow> 'h \<Rightarrow> 'p list \<Rightarrow> 'h option" where
  "release_all dealloc h [] = Some h"
| "release_all dealloc h (p # ps) = do { h \<leftarrow> dealloc h p; release_all dealloc h ps }"

text \<open>
  \<open>ok h m xs\<close>: the heap \<open>h\<close> holds the memory \<open>m\<close>, whose blocks are \<open>xs\<close>. \<open>granted xs\<close> are the blocks
  handed out with the number of units asked for, \<open>room xs n\<close> says that \<open>n\<close> units can be had.
\<close>

locale allocator =
  fixes ok :: "'h \<Rightarrow> 'm \<Rightarrow> 'x \<Rightarrow> bool"
    and granted :: "'x \<Rightarrow> (ptr \<times> int) set"
    and room :: "'x \<Rightarrow> int \<Rightarrow> bool"
    and alloc :: "'h \<Rightarrow> 'm \<Rightarrow> int \<Rightarrow> (ptr \<times> 'h) option"
    and dealloc :: "'h \<Rightarrow> ptr \<Rightarrow> 'h option"
  assumes alloc_room: "ok h m xs \<Longrightarrow> 0 < n \<Longrightarrow> room xs n \<Longrightarrow>
      \<exists>p h' ys. alloc h m n = Some (p, h') \<and> p \<noteq> NULL \<and> ok h' m ys \<and>
        p \<notin> fst ` granted xs \<and> granted ys = insert (p, n) (granted xs)"
    and alloc_full: "ok h m xs \<Longrightarrow> \<not> room xs n \<Longrightarrow> alloc h m n = Some (NULL, h)"
    and dealloc_granted: "ok h m xs \<Longrightarrow> (p, n) \<in> granted xs \<Longrightarrow>
      \<exists>h' ys. dealloc h p = Some h' \<and> ok h' m ys \<and> granted ys = granted xs - {(p, n)}"
    and granted_NULL: "ok h m xs \<Longrightarrow> (p, n) \<in> granted xs \<Longrightarrow> p \<noteq> NULL"
    and granted_once: "ok h m xs \<Longrightarrow> inj_on fst (granted xs)"
begin

lemma alloc_returns:
  assumes "ok h m xs" "0 < n"
  shows "\<exists>p h'. alloc h m n = Some (p, h') \<and> (p \<noteq> NULL \<longleftrightarrow> room xs n)"
  using alloc_room [OF assms] alloc_full [OF assms(1), of n] by (cases "room xs n") auto

text \<open>Allocating and releasing gives back what was granted before.\<close>

lemma alloc_dealloc:
  assumes "ok h m xs" "0 < n" "alloc h m n = Some (p, h1)" "p \<noteq> NULL"
  shows "\<exists>h2 ys. dealloc h1 p = Some h2 \<and> ok h2 m ys \<and> granted ys = granted xs"
proof -
  have "room xs n" using alloc_full [OF assms(1), of n] assms(3,4) by auto
  from alloc_room [OF assms(1,2) this] assms(3) obtain ys where
    ys: "ok h1 m ys" "p \<notin> fst ` granted xs" "granted ys = insert (p, n) (granted xs)" by auto
  from dealloc_granted [OF ys(1), of p n] ys(3) obtain h2 zs where
    "dealloc h1 p = Some h2" "ok h2 m zs" "granted zs = granted ys - {(p, n)}" by auto
  moreover have "(p, n) \<notin> granted xs" using ys(2) by force
  ultimately show ?thesis using ys(3) by auto
qed

text \<open>The order in which granted blocks are released does not matter.\<close>

lemma release_all_ok:
  "ok h m xs \<Longrightarrow> distinct ps \<Longrightarrow> set ps \<subseteq> fst ` granted xs \<Longrightarrow>
   \<exists>h' ys. release_all dealloc h ps = Some h' \<and> ok h' m ys \<and>
     granted ys = {x \<in> granted xs. fst x \<notin> set ps}"
proof (induct ps arbitrary: h xs)
  case Nil
  then show ?case by auto
next
  case (Cons p ps)
  then obtain n where n: "(p, n) \<in> granted xs" by auto
  from dealloc_granted [OF Cons.prems(1) n] obtain h1 ys where
    d: "dealloc h p = Some h1" "ok h1 m ys" "granted ys = granted xs - {(p, n)}" by blast
  have once: "x = (p, n)" if "x \<in> granted xs" "fst x = p" for x
    using inj_onD [OF granted_once [OF Cons.prems(1)] _ that(1) n] that(2) by simp
  have "p \<notin> set ps" "set ps \<subseteq> fst ` granted xs" using Cons.prems(2,3) by simp_all
  then have sub: "set ps \<subseteq> fst ` granted ys" unfolding d(3) by force
  have "distinct ps" using Cons.prems(2) by simp
  from Cons.hyps [OF d(2) this sub] obtain h' zs where
    "release_all dealloc h1 ps = Some h'" "ok h' m zs" "granted zs = {x \<in> granted ys. fst x \<notin> set ps}"
    by (elim exE conjE) (rule that; assumption)
  moreover have "x \<in> granted ys \<and> fst x \<notin> set ps \<longleftrightarrow> x \<in> granted xs \<and> fst x \<notin> set (p # ps)" for x
    unfolding d(3) using once [of x] by (cases "x = (p, n)") (simp_all, blast)
  ultimately show ?case using d(1) by (intro exI [of _ h'] exI [of _ zs]) (simp del: set_simps)
qed

end

end
