(* ===== verification/Buddy_Memory.thy ===== *)
theory Buddy_Memory
  imports Dnode_Heap Memory_Interface "HOL-Library.Log_Nat"
begin

unbundle bit_operations_syntax

text \<open>
  buddy_memory.c: the simulated memory of 1024 units, a doubly linked list of \<open>Block\<close>s in address
  order. The heap of \<open>Block\<close> structs is explicit, because the memory manager keeps pointers to the
  structs of allocated blocks while others are split and merged. \<open>print_memo\<close>, a debugging trace,
  is left out.
\<close>

definition MAX_SIZE :: int where "MAX_SIZE = 1024"

record block =
  bsize :: int
  bstart :: int
  ballocated :: int

type_synonym bheap = "block heap"

definition init_memory :: "bheap \<Rightarrow> ptr \<times> bheap" where
  "init_memory h =
     malloc_node \<lparr>nxt = NULL, prv = NULL,
       cell = \<lparr>bsize = MAX_SIZE, bstart = 0, ballocated = 0\<rparr>\<rparr> h"

text \<open>The loop of \<open>get_smallest_block_available\<close>, with its variables \<open>current\<close> and \<open>smallest\<close>.\<close>

partial_function (option) smallest_from :: "bheap \<Rightarrow> int \<Rightarrow> ptr \<Rightarrow> ptr \<Rightarrow> ptr option" where
  "smallest_from h sz current smallest =
     (if current = NULL then Some smallest
      else do {
        n \<leftarrow> get_node h current;
        better \<leftarrow>
          (if ballocated (cell n) = 0 \<and> bsize (cell n) \<ge> sz then
             (if smallest = NULL then Some True
              else do { s \<leftarrow> get_node h smallest; Some (bsize (cell n) < bsize (cell s)) })
           else Some False);
        smallest_from h sz (nxt n) (if better then current else smallest)
      })"

definition get_smallest_block_available :: "bheap \<Rightarrow> ptr \<Rightarrow> int \<Rightarrow> ptr option" where
  "get_smallest_block_available h memory sz = smallest_from h sz memory NULL"

text \<open>\<open>x / 2\<close> of C, rounded towards zero.\<close>

definition half :: "int \<Rightarrow> int" where
  "half x = sgn x * (\<bar>x\<bar> div 2)"

definition split_block :: "bheap \<Rightarrow> ptr \<Rightarrow> bheap option" where
  "split_block h block = do {
     n \<leftarrow> get_node h block;
     h \<leftarrow> set_cell h block ((cell n)\<lparr>bsize := half (bsize (cell n))\<rparr>);
     n \<leftarrow> get_node h block;
     let (new_block, h) = malloc_node
       \<lparr>nxt = nxt n, prv = block,
        cell = \<lparr>bsize = bsize (cell n), bstart = wrap32 (bstart (cell n) + bsize (cell n)),
                ballocated = 0\<rparr>\<rparr> h;
     h \<leftarrow> set_nxt h block new_block;
     if nxt n \<noteq> NULL then set_prv h (nxt n) new_block else Some h
   }"

text \<open>
  \<open>(int)ceil(log2(size))\<close> and \<open>(int)(log2(size))\<close>. The logarithm of 0 is minus infinity and that of a
  negative number is not a number; converting either to \<open>int\<close> is undefined.
\<close>

definition ceil_log2 :: "int \<Rightarrow> int option" where
  "ceil_log2 sz = (if sz \<le> 0 then None else Some (int (ceillog2 (nat sz))))"

definition floor_log2 :: "int \<Rightarrow> int option" where
  "floor_log2 sz = (if sz \<le> 0 then None else Some (int (floorlog 2 (nat sz)) - 1))"

text \<open>The two logarithms by halving, for evaluation.\<close>

lemma floor_log2_rec [code]:
  "floor_log2 x = (if x \<le> 0 then None else if x = 1 then Some 0 else map_option (\<lambda>k. k + 1) (floor_log2 (x div 2)))"
proof (cases "2 \<le> x")
  case True
  have "floorlog 2 (nat x) = floorlog 2 (nat x div 2) + 1" using True compute_floorlog [of 2 "nat x"] by simp
  moreover have "nat x div 2 = nat (x div 2)" by (simp add: nat_div_distrib)
  ultimately show ?thesis using True by (simp add: floor_log2_def)
next
  case False
  then have "x \<le> 0 \<or> x = 1" by auto
  then show ?thesis using compute_floorlog [of 2 1] by (auto simp: floor_log2_def floorlog_eq_zero_iff)
qed

lemma ceil_log2_rec [code]:
  "ceil_log2 x = (if x \<le> 0 then None else if x = 1 then Some 0 else map_option (\<lambda>k. k + 1) (ceil_log2 ((x + 1) div 2)))"
proof (cases "2 \<le> x")
  case True
  define n where "n = nat ((x + 1) div 2)"
  have n: "0 < n" "nat x = 2 * n \<or> nat x = 2 * n - 1" using True by (auto simp: n_def)
  have "ceillog2 (nat x) = ceillog2 n + 1"
  proof (rule ceillog2_eqI)
    show "nat x \<le> 2 ^ (ceillog2 n + 1)" using le_two_power_ceillog2 [of n] n(2) by auto
    define m y where "m = nat x" and "y = (2 ^ ceillog2 n :: nat)"
    have "y < 2 * n" unfolding y_def by (rule two_power_ceillog2_gt [OF n(1)])
    moreover have "2 \<le> m" "m = 2 * n \<or> m = 2 * n - 1" using True n by (auto simp: m_def)
    moreover have "even y \<or> y = 1" by (cases "ceillog2 n = 0") (simp_all add: y_def)
    ultimately have "y < m" by presburger
    then show "2 ^ (ceillog2 n + 1) < 2 * nat x" by (simp add: m_def y_def del: zless_nat_eq_int_zless)
  qed
  then show ?thesis using True by (simp add: ceil_log2_def n_def)
next
  case False
  then have "x \<le> 0 \<or> x = 1" by auto
  then show ?thesis by (auto simp: ceil_log2_def)
qed

text \<open>The splitting loop of \<open>allocate_memory\<close>.\<close>

partial_function (option) split_to :: "bheap \<Rightarrow> ptr \<Rightarrow> int \<Rightarrow> bheap option" where
  "split_to h block required_order = do {
     n \<leftarrow> get_node h block;
     order \<leftarrow> floor_log2 (bsize (cell n));
     if order \<noteq> required_order then do {
       h \<leftarrow> split_block h block;
       split_to h block required_order
     } else Some h
   }"

definition allocate_memory :: "bheap \<Rightarrow> ptr \<Rightarrow> int \<Rightarrow> (ptr \<times> bheap) option" where
  "allocate_memory h memory sz = do {
     block \<leftarrow> get_smallest_block_available h memory sz;
     if block = NULL then Some (NULL, h)
     else do {
       required_order \<leftarrow> ceil_log2 sz;
       h \<leftarrow> split_to h block required_order;
       n \<leftarrow> get_node h block;
       h \<leftarrow> set_cell h block ((cell n)\<lparr>ballocated := sz\<rparr>);
       Some (block, h)
     }
   }"

partial_function (option) merge_block :: "bheap \<Rightarrow> ptr \<Rightarrow> bheap option" where
  "merge_block h block = do {
     n \<leftarrow> get_node h block;
     let b = cell n;
     let buddy_start = bstart b XOR bsize b;
     if buddy_start > bstart b then
       (if nxt n = NULL then Some h
        else do {
          m \<leftarrow> get_node h (nxt n);
          if bsize (cell m) = bsize b \<and> ballocated (cell m) = 0 then do {
            h \<leftarrow> set_cell h block (b\<lparr>bsize := wrap32 (bsize b * 2)\<rparr>);
            h \<leftarrow> set_nxt h block (nxt m);
            h \<leftarrow> (if nxt m \<noteq> NULL then set_prv h (nxt m) block else Some h);
            h \<leftarrow> free_node h (nxt n);
            merge_block h block
          } else Some h
        })
     else
       (if prv n = NULL then Some h
        else do {
          m \<leftarrow> get_node h (prv n);
          if bsize (cell m) = bsize b \<and> ballocated (cell m) = 0 then do {
            h \<leftarrow> set_cell h (prv n) ((cell m)\<lparr>bsize := wrap32 (bsize (cell m) * 2)\<rparr>);
            h \<leftarrow> set_nxt h (prv n) (nxt n);
            h \<leftarrow> (if nxt n \<noteq> NULL then set_prv h (nxt n) (prv n) else Some h);
            h \<leftarrow> free_node h block;
            merge_block h (prv n)
          } else Some h
        })
   }"

text \<open>\<open>deallocate_memory(NULL)\<close> prints a message and returns.\<close>

definition deallocate_memory :: "bheap \<Rightarrow> ptr \<Rightarrow> bheap option" where
  "deallocate_memory h block =
     (if block = NULL then Some h
      else do {
        n \<leftarrow> get_node h block;
        h \<leftarrow> set_cell h block ((cell n)\<lparr>ballocated := 0\<rparr>);
        merge_block h block
      })"

definition destroy_memory :: "bheap \<Rightarrow> ptr \<Rightarrow> bheap option" where
  "destroy_memory h memory = free_chain h memory"

declare smallest_from.simps [code] split_to.simps [code] merge_block.simps [code]

section \<open>The list of blocks\<close>

definition blocks :: "bheap \<Rightarrow> ptr \<Rightarrow> (ptr \<times> block) list \<Rightarrow> bool" where
  "blocks h memory xs \<longleftrightarrow> wf_heap h \<and> xs \<noteq> [] \<and> seg (mem h) NULL memory xs NULL"

lemma blocks_node:
  assumes "blocks h m (xs @ (p, b) # ys)"
  shows "p \<noteq> NULL" "mem h p = Some \<lparr>nxt = (if ys = [] then NULL else fst (hd ys)),
    prv = last_addr NULL xs, cell = b\<rparr>"
  using assms seg_node unfolding blocks_def by fastforce+

lemma blocks_distinct: "blocks h m xs \<Longrightarrow> distinct (map fst xs)"
  unfolding blocks_def using seg_distinct by blast

lemma destroy_memory_blocks:
  "blocks h m xs \<Longrightarrow> destroy_memory h m = Some (h\<lparr>mem := mem h |` (- addrs xs)\<rparr>)"
  unfolding blocks_def destroy_memory_def using free_chain_seg by blast

lemma blocks_set_cell:
  assumes "blocks h m (xs @ (p, b) # ys)"
  shows "\<exists>h'. set_cell h p b' = Some h' \<and> blocks h' m (xs @ (p, b') # ys)"
proof -
  have d: "p \<notin> addrs xs" "p \<notin> addrs ys" using blocks_distinct [OF assms] by auto
  then show ?thesis using assms blocks_node [OF assms]
    by (cases xs) (auto simp: blocks_def heap_op)
qed

text \<open>Which block the search returns: the first of the smallest that are free and large enough.\<close>

definition fits :: "int \<Rightarrow> block \<Rightarrow> bool" where
  "fits sz b \<longleftrightarrow> ballocated b = 0 \<and> bsize b \<ge> sz"

fun pick :: "int \<Rightarrow> (ptr \<times> block) list \<Rightarrow> (ptr \<times> block) option \<Rightarrow> (ptr \<times> block) option" where
  "pick sz [] best = best"
| "pick sz (x # xs) best =
     pick sz xs
       (if fits sz (snd x) \<and> (case best of None \<Rightarrow> True | Some y \<Rightarrow> bsize (snd x) < bsize (snd y))
        then Some x else best)"

abbreviation opt_addr :: "(ptr \<times> block) option \<Rightarrow> ptr" where
  "opt_addr best \<equiv> (case best of None \<Rightarrow> NULL | Some y \<Rightarrow> fst y)"

lemma smallest_from_pick:
  assumes "seg (mem h) pv cur xs NULL"
    and "\<forall>y. best = Some y \<longrightarrow> fst y \<noteq> NULL \<and> (\<exists>n. mem h (fst y) = Some n \<and> cell n = snd y)"
  shows "smallest_from h sz cur (opt_addr best) = Some (opt_addr (pick sz xs best))"
  using assms
proof (induct xs arbitrary: pv cur best)
  case Nil
  then show ?case by (simp add: smallest_from.simps)
next
  case (Cons x xs)
  then obtain q where x: "cur = fst x" "cur \<noteq> NULL"
    "mem h cur = Some \<lparr>nxt = q, prv = pv, cell = snd x\<rparr>" "seg (mem h) cur q xs NULL" by auto
  let ?best = "if fits sz (snd x) \<and>
      (case best of None \<Rightarrow> True | Some y \<Rightarrow> bsize (snd x) < bsize (snd y)) then Some x else best"
  have "smallest_from h sz q (opt_addr ?best) = Some (opt_addr (pick sz xs ?best))"
    using x Cons.prems(2) by (intro Cons.hyps) auto
  then show ?case using x Cons.prems(2)
    by (subst smallest_from.simps)
      (cases best; auto simp: heap_op fits_def split: if_splits)
qed

lemma get_smallest_pick:
  "blocks h m xs \<Longrightarrow>
   get_smallest_block_available h m sz = Some (opt_addr (pick sz xs None))"
  using smallest_from_pick [of h NULL m xs None sz]
  by (simp add: blocks_def get_smallest_block_available_def)

lemma pick_Some:
  "pick sz xs best = Some z \<Longrightarrow>
   (best = Some z \<or> z \<in> set xs \<and> fits sz (snd z)) \<and>
   (\<forall>y. best = Some y \<longrightarrow> bsize (snd z) \<le> bsize (snd y)) \<and>
   (\<forall>x \<in> set xs. fits sz (snd x) \<longrightarrow> bsize (snd z) \<le> bsize (snd x))"
  by (induct xs arbitrary: best) (fastforce split: if_splits option.splits)+

lemma pick_None: "pick sz xs best = None \<Longrightarrow> best = None \<and> (\<forall>x \<in> set xs. \<not> fits sz (snd x))"
proof (induct xs arbitrary: best)
  case Nil
  then show ?case by simp
next
  case (Cons a xs)
  let ?best = "if fits sz (snd a) \<and>
      (case best of None \<Rightarrow> True | Some y \<Rightarrow> bsize (snd a) < bsize (snd y)) then Some a else best"
  have "?best = None \<and> (\<forall>x \<in> set xs. \<not> fits sz (snd x))"
    using Cons.prems by (intro Cons.hyps) simp
  then show ?case by (cases best) (auto split: if_splits)
qed

text \<open>Splitting and merging, on the list of blocks.\<close>

lemma split_block_blocks:
  assumes bl: "blocks h m (xs @ (p, b) # ys)"
  shows "\<exists>h'. split_block h p = Some h' \<and>
    blocks h' m (xs @ (p, b\<lparr>bsize := half (bsize b)\<rparr>) #
      (brk h, \<lparr>bsize = half (bsize b), bstart = wrap32 (bstart b + half (bsize b)),
               ballocated = 0\<rparr>) # ys)"
proof -
  let ?b = "b\<lparr>bsize := half (bsize b)\<rparr>" and ?a = "brk h"
  let ?c = "\<lparr>bsize = half (bsize b), bstart = wrap32 (bstart b + half (bsize b)), ballocated = 0\<rparr>"
  note n = blocks_node [OF bl]
  have wf: "wf_heap h" and s: "seg (mem h) NULL m (xs @ (p, b) # ys) NULL"
    using bl by (simp_all add: blocks_def)
  have d: "p \<notin> addrs xs" "p \<notin> addrs ys" "addrs xs \<inter> addrs ys = {}" "distinct (map fst ys)"
    using blocks_distinct [OF bl] by auto
  have a: "?a \<notin> addrs xs" "?a \<noteq> p" "?a \<notin> addrs ys" "?a \<noteq> NULL"
    using seg_fresh [OF s wf] wf_heap_brk_pos [OF wf] by auto
  show ?thesis
  proof (cases ys)
    case Nil
    let ?h = "h\<lparr>mem := (mem h)(p \<mapsto> \<lparr>nxt = NULL, prv = last_addr NULL xs, cell = ?b\<rparr>,
                              ?a \<mapsto> \<lparr>nxt = NULL, prv = p, cell = ?c\<rparr>,
                              p \<mapsto> \<lparr>nxt = ?a, prv = last_addr NULL xs, cell = ?b\<rparr>), brk := Suc ?a\<rparr>"
    have "split_block h p = Some ?h" using n a Nil
      by (simp add: split_block_def heap_op malloc_node_def put_node_def)
    moreover have "seg (mem ?h) NULL m xs p" using s d a by simp
    then have "seg (mem ?h) NULL m (xs @ (p, ?b) # (?a, ?c) # ys) NULL" using n(1) a Nil by simp
    moreover have "wf_heap ?h" using wf n by (auto simp: wf_heap_def less_Suc_eq)
    ultimately show ?thesis unfolding blocks_def by blast
  next
    case (Cons y zs)
    have y: "fst y \<noteq> NULL" "fst y \<noteq> p" "fst y \<noteq> ?a" "fst y \<notin> addrs xs" "fst y \<notin> addrs zs"
      using bl d a Cons by (auto simp: blocks_def)
    obtain q where q: "mem h (fst y) = Some \<lparr>nxt = q, prv = p, cell = snd y\<rparr>"
      "seg (mem h) (fst y) q zs NULL" using s Cons by auto
    let ?h = "h\<lparr>mem := (mem h)(p \<mapsto> \<lparr>nxt = fst y, prv = last_addr NULL xs, cell = ?b\<rparr>,
                              ?a \<mapsto> \<lparr>nxt = fst y, prv = p, cell = ?c\<rparr>,
                              p \<mapsto> \<lparr>nxt = ?a, prv = last_addr NULL xs, cell = ?b\<rparr>,
                              fst y \<mapsto> \<lparr>nxt = q, prv = ?a, cell = snd y\<rparr>), brk := Suc ?a\<rparr>"
    have "split_block h p = Some ?h" using n a Cons y q
      by (simp add: split_block_def heap_op malloc_node_def put_node_def)
    moreover have "seg (mem ?h) NULL m xs p" "seg (mem ?h) (fst y) q zs NULL"
      using s q d a y Cons by simp_all
    then have "seg (mem ?h) NULL m (xs @ (p, ?b) # (?a, ?c) # ys) NULL"
      using n(1) a y Cons by simp
    moreover have "wf_heap ?h" using wf n q by (auto simp: wf_heap_def less_Suc_eq)
    ultimately show ?thesis unfolding blocks_def by blast
  qed
qed

text \<open>The pointer operations both branches of \<open>merge_block\<close> perform on a left and a right block.\<close>

lemma blocks_join:
  assumes bl: "blocks h m (xs @ (l, lc) # (r, rc) # ys)"
  defines "nx \<equiv> if ys = [] then NULL else fst (hd ys)"
  shows "\<exists>h1 h2 h3 h4. set_cell h l lc' = Some h1 \<and> set_nxt h1 l nx = Some h2 \<and>
    (if nx \<noteq> NULL then set_prv h2 nx l else Some h2) = Some h3 \<and> free_node h3 r = Some h4 \<and>
    blocks h4 m (xs @ (l, lc') # ys)"
proof -
  have wf: "wf_heap h" and s: "seg (mem h) NULL m (xs @ (l, lc) # (r, rc) # ys) NULL"
    using bl by (simp_all add: blocks_def)
  have nl: "l \<noteq> NULL" "mem h l = Some \<lparr>nxt = r, prv = last_addr NULL xs, cell = lc\<rparr>"
    using blocks_node [OF bl] by simp_all
  have nr: "r \<noteq> NULL" "mem h r = Some \<lparr>nxt = nx, prv = l, cell = rc\<rparr>"
    using blocks_node [of h m "xs @ [(l, lc)]" r rc ys] bl by (simp_all add: nx_def)
  have d: "l \<notin> addrs xs" "r \<notin> addrs xs" "l \<noteq> r" "l \<notin> addrs ys" "r \<notin> addrs ys"
    "addrs xs \<inter> addrs ys = {}" "distinct (map fst ys)"
    using blocks_distinct [OF bl] by auto
  have sx: "seg (mem h) NULL m xs l" using s by auto
  let ?l = "\<lparr>nxt = nx, prv = last_addr NULL xs, cell = lc'\<rparr>"
  let ?m2 = "(mem h)(l \<mapsto> \<lparr>nxt = r, prv = last_addr NULL xs, cell = lc'\<rparr>, l \<mapsto> ?l)"
  show ?thesis
  proof (cases ys)
    case Nil
    let ?h4 = "h\<lparr>mem := ?m2(r := None)\<rparr>"
    have "seg (mem ?h4) NULL m (xs @ (l, lc') # ys) NULL" "wf_heap ?h4"
      using sx d nl wf Nil by (auto simp: nx_def wf_heap_def)
    then have "blocks ?h4 m (xs @ (l, lc') # ys)" by (simp add: blocks_def)
    then show ?thesis using nl nr d Nil by (simp add: heap_op put_node_def nx_def)
  next
    case (Cons y zs)
    then have y: "nx = fst y" "fst y \<noteq> NULL" "fst y \<noteq> l" "fst y \<noteq> r" "fst y \<notin> addrs xs"
      "fst y \<notin> addrs zs" using s d by (auto simp: nx_def)
    obtain q where q: "mem h (fst y) = Some \<lparr>nxt = q, prv = r, cell = snd y\<rparr>"
      "seg (mem h) (fst y) q zs NULL" using s Cons by auto
    let ?h4 = "h\<lparr>mem := ?m2(fst y \<mapsto> \<lparr>nxt = q, prv = l, cell = snd y\<rparr>, r := None)\<rparr>"
    have "seg (mem ?h4) NULL m xs l" "seg (mem ?h4) (fst y) q zs NULL"
      using sx q(2) d y Cons by simp_all
    then have "seg (mem ?h4) NULL m (xs @ (l, lc') # ys) NULL"
      using nl(1) d y Cons by simp
    moreover have "wf_heap ?h4" using wf nl q by (auto simp: wf_heap_def)
    ultimately have "blocks ?h4 m (xs @ (l, lc') # ys)" by (simp add: blocks_def)
    then show ?thesis using nl nr d q y by (simp add: heap_op put_node_def)
  qed
qed

definition buddy_right :: "block \<Rightarrow> bool" where
  "buddy_right b \<longleftrightarrow> bstart b XOR bsize b > bstart b"

text \<open>Whether \<open>merge_block\<close> merges the block \<open>b\<close> that stands between \<open>xs\<close> and \<open>ys\<close>.\<close>

definition mergeable :: "(ptr \<times> block) list \<Rightarrow> block \<Rightarrow> (ptr \<times> block) list \<Rightarrow> bool" where
  "mergeable xs b ys \<longleftrightarrow>
     (if buddy_right b
      then ys \<noteq> [] \<and> bsize (snd (hd ys)) = bsize b \<and> ballocated (snd (hd ys)) = 0
      else xs \<noteq> [] \<and> bsize (snd (last xs)) = bsize b \<and> ballocated (snd (last xs)) = 0)"

lemma merge_block_right:
  assumes bl: "blocks h m (xs @ (p, b) # (r, c) # ys)" and br: "buddy_right b"
    and c: "bsize c = bsize b" "ballocated c = 0"
  shows "\<exists>h'. merge_block h p = merge_block h' p \<and>
    blocks h' m (xs @ (p, b\<lparr>bsize := wrap32 (bsize b * 2)\<rparr>) # ys)"
proof -
  define nx where "nx = (if ys = [] then NULL else fst (hd ys))"
  from blocks_join [OF bl, of "b\<lparr>bsize := wrap32 (bsize b * 2)\<rparr>"] obtain h1 h2 h3 h4 where
    j: "set_cell h p (b\<lparr>bsize := wrap32 (bsize b * 2)\<rparr>) = Some h1"
    "set_nxt h1 p nx = Some h2"
    "(if nx \<noteq> NULL then set_prv h2 nx p else Some h2) = Some h3"
    "free_node h3 r = Some h4" "blocks h4 m (xs @ (p, b\<lparr>bsize := wrap32 (bsize b * 2)\<rparr>) # ys)"
    unfolding nx_def
    by blast
  have "r \<noteq> NULL" "mem h r =
      Some \<lparr>nxt = nx, prv = p, cell = c\<rparr>"
    using blocks_node [of h m "xs @ [(p, b)]" r c ys] bl by (simp_all add: nx_def)
  moreover note blocks_node [OF bl]
  ultimately have "merge_block h p = merge_block h4 p"
    using br c j by (subst merge_block.simps)
      (cases "nx = NULL"; simp add: heap_op buddy_right_def Let_def)
  with j(5) show ?thesis by blast
qed

lemma merge_block_left:
  assumes bl: "blocks h m (xs @ (q, c) # (p, b) # ys)" and br: "\<not> buddy_right b"
    and c: "bsize c = bsize b" "ballocated c = 0"
  shows "\<exists>h'. merge_block h p = merge_block h' q \<and>
    blocks h' m (xs @ (q, c\<lparr>bsize := wrap32 (bsize c * 2)\<rparr>) # ys)"
proof -
  define nx where "nx = (if ys = [] then NULL else fst (hd ys))"
  from blocks_join [OF bl, of "c\<lparr>bsize := wrap32 (bsize c * 2)\<rparr>"] obtain h1 h2 h3 h4 where
    j: "set_cell h q (c\<lparr>bsize := wrap32 (bsize c * 2)\<rparr>) = Some h1"
    "set_nxt h1 q nx = Some h2"
    "(if nx \<noteq> NULL then set_prv h2 nx q else Some h2) = Some h3"
    "free_node h3 p = Some h4" "blocks h4 m (xs @ (q, c\<lparr>bsize := wrap32 (bsize c * 2)\<rparr>) # ys)"
    unfolding nx_def
    by blast
  have "p \<noteq> NULL" "mem h p =
      Some \<lparr>nxt = nx, prv = q, cell = b\<rparr>"
    using blocks_node [of h m "xs @ [(q, c)]" p b ys] bl by (simp_all add: nx_def)
  moreover note blocks_node [OF bl]
  ultimately have "merge_block h p = merge_block h4 q"
    using br c j by (subst merge_block.simps)
      (cases "nx = NULL"; simp add: heap_op buddy_right_def Let_def)
  with j(5) show ?thesis by blast
qed

lemma merge_block_stop:
  assumes bl: "blocks h m (xs @ (p, b) # ys)" and nm: "\<not> mergeable xs b ys"
  shows "merge_block h p = Some h"
proof -
  have y: "mem h (fst (hd ys)) = Some n \<longrightarrow> cell n = snd (hd ys)" "fst (hd ys) \<noteq> NULL"
    if "ys \<noteq> []" for n
    using bl that unfolding blocks_def by (cases ys; auto)+
  have yn: "\<exists>n. mem h (fst (hd ys)) = Some n" if "ys \<noteq> []"
    using bl that unfolding blocks_def by (cases ys) auto
  have x: "last_addr NULL xs \<noteq> NULL"
    "\<exists>n. mem h (last_addr NULL xs) = Some n \<and> cell n = snd (last xs)" if "xs \<noteq> []"
    using bl that seg_last_node [of "mem h" NULL m xs p] last_addr_in [OF that, of NULL]
      seg_in_heap [of "mem h" NULL m xs p] unfolding blocks_def by fastforce+
  show ?thesis
  proof (cases "buddy_right b")
    case True
    then show ?thesis using nm y yn blocks_node [OF bl]
      by (subst merge_block.simps)
        (cases "ys = []"; fastforce simp: heap_op buddy_right_def mergeable_def Let_def)
  next
    case False
    then show ?thesis using nm x blocks_node [OF bl]
      by (subst merge_block.simps)
        (cases "xs = []"; fastforce simp: heap_op buddy_right_def mergeable_def Let_def)
  qed
qed

section \<open>The buddy invariant\<close>

text \<open>
  The blocks tile the memory in address order; each has a power of two for its size, starts at a
  multiple of it, and holds no more than its size. \<open>coalesced\<close>: no two free buddies stand side by
  side.
\<close>

primrec tiles :: "int \<Rightarrow> block list \<Rightarrow> int \<Rightarrow> bool" where
  "tiles s [] e \<longleftrightarrow> s = e"
| "tiles s (b # bs) e \<longleftrightarrow> bstart b = s \<and> tiles (s + bsize b) bs e"

definition blk_ok :: "block \<Rightarrow> bool" where
  "blk_ok b \<longleftrightarrow> (\<exists>k. bsize b = 2 ^ k) \<and> bsize b dvd bstart b \<and>
     0 \<le> ballocated b \<and> ballocated b \<le> bsize b"

definition buddy_pair :: "block \<Rightarrow> block \<Rightarrow> bool" where
  "buddy_pair b c \<longleftrightarrow>
     buddy_right b \<and> bsize b = bsize c \<and> ballocated b = 0 \<and> ballocated c = 0"

abbreviation coalesced :: "block list \<Rightarrow> bool" where
  "coalesced bs \<equiv> successively (\<lambda>b c. \<not> buddy_pair b c) bs"

definition layout :: "int \<Rightarrow> block list \<Rightarrow> int \<Rightarrow> bool" where
  "layout s bs e \<longleftrightarrow> tiles s bs e \<and> (\<forall>b \<in> set bs. blk_ok b)"

definition memory_inv :: "bheap \<Rightarrow> ptr \<Rightarrow> (ptr \<times> block) list \<Rightarrow> bool" where
  "memory_inv h m xs \<longleftrightarrow> blocks h m xs \<and> layout 0 (map snd xs) MAX_SIZE"

definition taken :: "(ptr \<times> block) list \<Rightarrow> (ptr \<times> block) list" where
  "taken xs = filter (\<lambda>x. ballocated (snd x) \<noteq> 0) xs"

lemma taken_simps [simp]:
  "taken [] = []" "taken (xs @ ys) = taken xs @ taken ys"
  "taken (x # xs) = (if ballocated (snd x) \<noteq> 0 then x # taken xs else taken xs)"
  by (simp_all add: taken_def)

lemma blk_ok_pos: "blk_ok b \<Longrightarrow> 0 < bsize b"
  by (auto simp: blk_ok_def)

lemma layout_Nil [simp]: "layout s [] e \<longleftrightarrow> s = e"
  by (simp add: layout_def)

lemma layout_Cons [simp]:
  "layout s (b # bs) e \<longleftrightarrow> bstart b = s \<and> blk_ok b \<and> layout (s + bsize b) bs e"
  by (auto simp: layout_def)

lemma layout_append [simp]: "layout s (xs @ ys) e \<longleftrightarrow> (\<exists>q. layout s xs q \<and> layout q ys e)"
  by (induct xs arbitrary: s) auto

lemma layout_le: "layout s bs e \<Longrightarrow> s \<le> e"
  by (induct bs arbitrary: s) (force dest: blk_ok_pos)+

lemma layout_bounds:
  "layout s bs e \<Longrightarrow> b \<in> set bs \<Longrightarrow> s \<le> bstart b \<and> bstart b + bsize b \<le> e \<and> 0 < bsize b"
  by (induct bs arbitrary: s) (force dest: layout_le blk_ok_pos)+

text \<open>Two blocks of a layout do not overlap.\<close>

lemma layout_disjoint:
  "layout s bs e \<Longrightarrow> i < j \<Longrightarrow> j < length bs \<Longrightarrow>
   bstart (bs ! i) + bsize (bs ! i) \<le> bstart (bs ! j)"
proof (induct bs arbitrary: s i j)
  case Nil
  then show ?case by simp
next
  case (Cons b bs)
  then obtain j' where j: "j = Suc j'" "j' < length bs" by (cases j) auto
  show ?case
  proof (cases i)
    case 0
    have "bs ! j' \<in> set bs" using j(2) by simp
    with Cons.prems(1) layout_bounds [of "s + bsize b" bs e "bs ! j'"] show ?thesis
      using j 0 by auto
  next
    case (Suc i')
    with Cons j show ?thesis by auto
  qed
qed

subsection \<open>Buddies\<close>

lemma buddy_right_even:
  assumes "bsize b = 2 ^ k" "bstart b = j * 2 ^ k"
  shows "buddy_right b \<longleftrightarrow> even j"
proof -
  have "(j XOR 1) * 2 ^ k = j * 2 ^ k XOR 1 * 2 ^ k"
    using push_bit_xor [of k j 1] unfolding push_bit_eq_mult .
  then have "bstart b XOR bsize b = (j XOR 1) * 2 ^ k" using assms by simp
  then show ?thesis using assms by (simp add: buddy_right_def xor_one_eq)
qed

lemma blk_okE:
  assumes "blk_ok b"
  obtains k j where "bsize b = 2 ^ k" "bstart b = j * 2 ^ k" "buddy_right b \<longleftrightarrow> even j"
  using assms buddy_right_even unfolding blk_ok_def by (metis dvd_div_mult_self)

text \<open>The right neighbour of a block and its left neighbour of the same size take turns.\<close>

lemma buddy_alternate:
  assumes "blk_ok b" "blk_ok c" "bsize b = bsize c" "bstart c = bstart b + bsize b"
  shows "buddy_right c \<longleftrightarrow> \<not> buddy_right b"
proof -
  from assms(1) obtain k j where b: "bsize b = 2 ^ k" "bstart b = j * 2 ^ k" "buddy_right b \<longleftrightarrow> even j"
    by (rule blk_okE)
  have "bstart c = (j + 1) * 2 ^ k" using assms b by (simp add: algebra_simps)
  with assms(3) b have "buddy_right c \<longleftrightarrow> even (j + 1)" by (intro buddy_right_even [of c k]) auto
  with b(3) show ?thesis by simp
qed

text \<open>A block on the left of its free buddy of the same size grows into a block twice as large.\<close>

lemma blk_ok_double:
  assumes "blk_ok b" "buddy_right b" "ballocated b = 0"
  shows "blk_ok (b\<lparr>bsize := 2 * bsize b\<rparr>)"
proof -
  from assms(1) obtain k j where b: "bsize b = 2 ^ k" "bstart b = j * 2 ^ k" "buddy_right b \<longleftrightarrow> even j"
    by (rule blk_okE)
  with assms(2) obtain i where "j = 2 * i" by auto
  with b have "bstart b = i * (2 * 2 ^ k)" by simp
  then have "2 * bsize b dvd bstart b" using b(1) by simp
  moreover have "2 * bsize b = 2 ^ Suc k" using b by simp
  then have "\<exists>n. 2 * bsize b = 2 ^ n" by blast
  ultimately show ?thesis using b(1) assms(3) by (simp add: blk_ok_def)
qed

lemma wrap32_double: "x \<le> 512 \<Longrightarrow> 0 < x \<Longrightarrow> wrap32 (x * 2) = 2 * x"
  by (simp add: c_int)

lemma memory_inv_blocks: "memory_inv h m xs \<Longrightarrow> blocks h m xs"
  by (simp add: memory_inv_def)

lemma memory_inv_size:
  assumes "memory_inv h m xs" "x \<in> set xs"
  shows "0 < bsize (snd x) \<and> 0 \<le> bstart (snd x) \<and> bstart (snd x) + bsize (snd x) \<le> 1024"
  using assms layout_bounds [of 0 "map snd xs" MAX_SIZE "snd x"]
  by (auto simp: memory_inv_def MAX_SIZE_def)

section \<open>Merging\<close>

lemma merge_block_ok:
  assumes "memory_inv h m (xs @ (p, b) # ys)" "ballocated b = 0"
    "coalesced (map snd xs)" "coalesced (map snd ys)"
  shows "\<exists>h' zs. merge_block h p = Some h' \<and> memory_inv h' m zs \<and> coalesced (map snd zs) \<and>
    taken zs = taken xs @ taken ys"
  using assms
proof (induct "length xs + length ys" arbitrary: h xs p b ys rule: less_induct)
  case less
  note inv = less.prems(1) and free = less.prems(2)
  have bl: "blocks h m (xs @ (p, b) # ys)" using inv by (simp add: memory_inv_def)
  obtain q where lx: "layout 0 (map snd xs) q" and lb: "bstart b = q" "blk_ok b"
    and ly: "layout (q + bsize b) (map snd ys) MAX_SIZE"
    using inv by (auto simp: memory_inv_def)
  show ?case
  proof (cases "mergeable xs b ys")
    case False
    then have "merge_block h p = Some h" using merge_block_stop [OF bl] by simp
    moreover have "ys \<noteq> [] \<Longrightarrow> \<not> buddy_pair b (snd (hd ys))"
      using False by (auto simp: mergeable_def buddy_pair_def)
    moreover have "xs \<noteq> [] \<Longrightarrow> \<not> buddy_pair (snd (last xs)) b"
    proof
      assume xs: "xs \<noteq> []" and bp: "buddy_pair (snd (last xs)) b"
      then obtain us u where u: "xs = us @ [u]" by (cases xs rule: rev_cases) auto
      with lx lb have "blk_ok (snd u)" "bstart b = bstart (snd u) + bsize (snd u)" by auto
      with bp u lb(2) have "\<not> buddy_right b"
        using buddy_alternate [of "snd u" b] by (auto simp: buddy_pair_def)
      with bp xs False show False by (auto simp: mergeable_def buddy_pair_def)
    qed
    ultimately show ?thesis using inv free less.prems(3,4)
      by (intro exI [of _ h] exI [of _ "xs @ (p, b) # ys"])
        (auto simp: successively_append_iff successively_Cons last_map hd_map)
  next
    case True
    show ?thesis
    proof (cases "buddy_right b")
      case br: True
      with True obtain r c zs where ys: "ys = (r, c) # zs" "bsize c = bsize b" "ballocated c = 0"
        by (cases ys) (auto simp: mergeable_def)
      let ?b = "b\<lparr>bsize := 2 * bsize b\<rparr>"
      have "2 * bsize b \<le> 1024" using ly ys layout_le lb lx layout_le [OF lx]
        by (fastforce simp: MAX_SIZE_def)
      then have w: "wrap32 (bsize b * 2) = 2 * bsize b"
        using blk_ok_pos [OF lb(2)] by (intro wrap32_double) auto
      from merge_block_right [of h m xs p b r c zs] bl br ys w obtain h' where
        h': "merge_block h p = merge_block h' p" "blocks h' m (xs @ (p, ?b) # zs)" by auto
      have "memory_inv h' m (xs @ (p, ?b) # zs)"
        using h'(2) lx lb ly ys blk_ok_double [OF lb(2) br free]
        by (auto simp: memory_inv_def add.assoc)
      then show ?thesis
        using less.hyps [of xs zs h' p ?b] less.prems ys free h'(1)
        by (auto simp: successively_Cons)
    next
      case bl': False
      with True obtain us q' c where xs: "xs = us @ [(q', c)]" "bsize c = bsize b" "ballocated c = 0"
        by (cases xs rule: rev_cases) (auto simp: mergeable_def)
      let ?c = "c\<lparr>bsize := 2 * bsize c\<rparr>"
      have cs: "blk_ok c" "bstart b = bstart c + bsize c" and lu: "layout 0 (map snd us) (bstart c)"
        using lx lb xs by auto
      then have cr: "buddy_right c" using buddy_alternate [of c b] lb(2) xs(2) bl' by auto
      have "2 * bsize c \<le> 1024" using ly cs layout_le [OF ly] layout_le [OF lu] lb xs(2)
        by (auto simp: MAX_SIZE_def)
      then have w: "wrap32 (bsize c * 2) = 2 * bsize c"
        using blk_ok_pos [OF cs(1)] by (intro wrap32_double) auto
      from merge_block_left [of h m us q' c p b ys] bl bl' xs w obtain h' where
        h': "merge_block h p = merge_block h' q'" "blocks h' m (us @ (q', ?c) # ys)" by auto
      have "memory_inv h' m (us @ (q', ?c) # ys)"
        using h'(2) lu lb ly cs xs blk_ok_double [OF cs(1) cr xs(3)]
        by (auto simp: memory_inv_def add.assoc)
      then show ?thesis
        using less.hyps [of us ys h' q' ?c] less.prems xs free h'(1)
        by (auto simp: successively_append_iff)
    qed
  qed
qed

section \<open>Splitting\<close>

lemma half_pow2: "half (2 ^ Suc k) = 2 ^ k"
  by (simp add: half_def)

lemma floor_log2_pow2 [simp]: "floor_log2 (2 ^ k) = Some (int k)"
proof -
  have "nat (2 ^ k) = (1::nat) * 2 ^ k" by (simp add: nat_power_eq)
  then have "floorlog 2 (nat (2 ^ k)) = k + 1"
    using floorlog_power [of 1 2 k] floorlog_bounds [of 1 2] by (simp add: floorlog_def)
  then show ?thesis by (simp add: floor_log2_def)
qed

text \<open>Both halves of a block are well formed, and the right one is a right-hand buddy.\<close>

lemma split_ok:
  assumes b: "blk_ok b" "bsize b = 2 ^ Suc j" "ballocated b = 0"
    and c: "c = \<lparr>bsize = 2 ^ j, bstart = bstart b + 2 ^ j, ballocated = 0\<rparr>"
  shows "blk_ok (b\<lparr>bsize := 2 ^ j\<rparr>)" "blk_ok c" "\<not> buddy_right c"
proof -
  have "2 ^ Suc j dvd bstart b" using b by (simp add: blk_ok_def)
  then have d: "2 ^ j dvd bstart b" by (metis dvd_trans le_imp_power_dvd lessI less_imp_le)
  then show l: "blk_ok (b\<lparr>bsize := 2 ^ j\<rparr>)" using b by (auto simp: blk_ok_def)
  from d show "blk_ok c" unfolding blk_ok_def c by auto
  obtain i where "bstart b = 2 ^ Suc j * i" using \<open>2 ^ Suc j dvd bstart b\<close> by (elim dvdE)
  then have "bstart c = (2 * i + 1) * 2 ^ j" unfolding c by (simp add: algebra_simps)
  then show "\<not> buddy_right c" using buddy_right_even [of c j "2 * i + 1"] c by simp
qed

lemma split_to_ok:
  assumes "memory_inv h m (xs @ (p, b) # ys)" "bsize b = 2 ^ j" "r \<le> j" "ballocated b = 0"
    "coalesced (map snd ys)"
  shows "\<exists>h' ys'. split_to h p (int r) = Some h' \<and>
    memory_inv h' m (xs @ (p, b\<lparr>bsize := 2 ^ r\<rparr>) # ys') \<and> coalesced (map snd ys') \<and>
    taken ys' = taken ys"
  using assms
proof (induct j arbitrary: h b ys)
  case 0
  then have s: "split_to h p (int r) = Some h" and eq: "b\<lparr>bsize := 2 ^ r\<rparr> = b"
    using blocks_node [OF memory_inv_blocks [OF 0(1)]] floor_log2_pow2 [of 0]
    by (subst split_to.simps, auto simp: heap_op)
  show ?case unfolding eq using s 0(1,5) by blast
next
  case (Suc j)
  note n = blocks_node [OF memory_inv_blocks [OF Suc.prems(1)]]
  show ?case
  proof (cases "r = Suc j")
    case True
    then have "split_to h p (int r) = Some h" and "b\<lparr>bsize := 2 ^ r\<rparr> = b"
      using n Suc.prems(2) floor_log2_pow2 [of "Suc j"]
      by (subst split_to.simps, auto simp: heap_op simp del: power_Suc)
    with Suc.prems show ?thesis by auto
  next
    case False
    let ?b = "b\<lparr>bsize := 2 ^ j\<rparr>"
    let ?c = "\<lparr>bsize = 2 ^ j, bstart = bstart b + 2 ^ j, ballocated = 0\<rparr>"
    obtain q where l: "layout 0 (map snd xs) q" "bstart b = q" "blk_ok b"
      "layout (q + bsize b) (map snd ys) MAX_SIZE"
      using Suc.prems(1) by (auto simp: memory_inv_def)
    note sp = split_ok [OF l(3) Suc.prems(2,4) refl]
    have le: "0 \<le> bstart b" "bstart b + 2 * 2 ^ j \<le> 1024"
      using memory_inv_size [OF Suc.prems(1), of "(p, b)"] Suc.prems(2) by auto
    have "(2::int) ^ j > 0" by simp
    with le have w: "wrap32 (bstart b + 2 ^ j) = bstart b + 2 ^ j" by (intro wrap32_id) linarith+
    from split_block_blocks [OF memory_inv_blocks [OF Suc.prems(1)]] obtain h' where
      h': "split_block h p = Some h'" "blocks h' m (xs @ (p, ?b) # (brk h, ?c) # ys)"
      using Suc.prems(2) w half_pow2 [of j] by (auto simp del: power_Suc)
    have "split_to h p (int r) = split_to h' p (int r)"
      using n h'(1) Suc.prems(2) False floor_log2_pow2 [of "Suc j"]
      by (subst split_to.simps) (auto simp: heap_op simp del: power_Suc)
    moreover have "memory_inv h' m (xs @ (p, ?b) # (brk h, ?c) # ys)"
      using h'(2) l sp Suc.prems(2) by (auto simp: memory_inv_def algebra_simps)
    moreover have "coalesced (map snd ((brk h, ?c) # ys))"
      using Suc.prems(5) sp(3) by (auto simp: successively_Cons buddy_pair_def)
    ultimately show ?thesis
      using Suc.hyps [of h' ?b "(brk h, ?c) # ys"] Suc.prems(3,4) False by auto
  qed
qed

section \<open>Allocation and deallocation\<close>

definition buddy_ok :: "bheap \<Rightarrow> ptr \<Rightarrow> (ptr \<times> block) list \<Rightarrow> bool" where
  "buddy_ok h m xs \<longleftrightarrow> memory_inv h m xs \<and> coalesced (map snd xs)"

text \<open>The block size that serves a request: the least power of two that holds it.\<close>

definition rounded :: "int \<Rightarrow> int" where
  "rounded sz = 2 ^ ceillog2 (nat sz)"

lemma rounded_ge: "0 < sz \<Longrightarrow> sz \<le> rounded sz"
  using ceillog2_le_iff [of "nat sz" "ceillog2 (nat sz)"] by (simp add: rounded_def)

lemma rounded_less: "0 < sz \<Longrightarrow> rounded sz < 2 * sz"
proof -
  assume "0 < sz"
  then have "2 ^ ceillog2 (nat sz) < 2 * nat sz" 
    using ceillog2_ge_iff [of "nat sz" "ceillog2 (nat sz)"] by simp
  then have "int (2 ^ ceillog2 (nat sz)) < int (2 * nat sz)" by (simp only: of_nat_less_iff)
  then show ?thesis using \<open>0 < sz\<close> by (simp add: rounded_def)
qed

lemma rounded_order: "0 < sz \<Longrightarrow> sz \<le> 2 ^ k \<Longrightarrow> ceillog2 (nat sz) \<le> k"
  using ceillog2_le_iff [of "nat sz" k] by (simp add: nat_le_iff)

lemma init_memory_ok:
  "wf_heap h \<Longrightarrow> \<exists>m h'. init_memory h = (m, h') \<and>
     buddy_ok h' m [(m, \<lparr>bsize = MAX_SIZE, bstart = 0, ballocated = 0\<rparr>)]"
  unfolding buddy_ok_def memory_inv_def blocks_def init_memory_def malloc_node_def
  by (auto simp: wf_heap_malloc wf_heap_brk_pos blk_ok_def MAX_SIZE_def intro: exI [of _ 10])
     (auto simp: wf_heap_def less_Suc_eq intro: exI [of _ 10])

lemma allocate_memory_None:
  assumes "blocks h m xs" "\<forall>x \<in> set xs. \<not> fits sz (snd x)"
  shows "allocate_memory h m sz = Some (NULL, h)"
proof -
  have "pick sz xs None = None"
    using pick_Some [of sz xs None] assms(2) by (cases "pick sz xs None") auto
  then show ?thesis using get_smallest_pick [OF assms(1), of sz] by (simp add: allocate_memory_def)
qed

lemma allocate_memory_ok:
  assumes ok: "buddy_ok h m xs" and sz: "0 < sz" and fit: "\<exists>x \<in> set xs. fits sz (snd x)"
  shows "\<exists>p b us vs h' vs'. allocate_memory h m sz = Some (p, h') \<and> xs = us @ (p, b) # vs \<and>
    fits sz b \<and> (\<forall>x \<in> set xs. fits sz (snd x) \<longrightarrow> bsize b \<le> bsize (snd x)) \<and>
    buddy_ok h' m (us @ (p, b\<lparr>bsize := rounded sz, ballocated := sz\<rparr>) # vs') \<and>
    taken vs' = taken vs"
proof -
  have inv: "memory_inv h m xs" and co: "coalesced (map snd xs)" using ok by (simp_all add: buddy_ok_def)
  obtain z where z: "pick sz xs None = Some z"
    using pick_None [of sz xs None] fit by (cases "pick sz xs None") auto
  obtain p b where pb: "z = (p, b)" by (cases z)
  from pick_Some [OF z] pb have mem: "(p, b) \<in> set xs" and f: "fits sz b"
    and least: "\<forall>x \<in> set xs. fits sz (snd x) \<longrightarrow> bsize b \<le> bsize (snd x)" by auto
  from split_list [OF mem] obtain us vs where xs: "xs = us @ (p, b) # vs" by blast
  have inv': "memory_inv h m (us @ (p, b) # vs)" using inv xs by simp
  have bok: "blk_ok b" using inv' by (auto simp: memory_inv_def)
  then obtain k where k: "bsize b = 2 ^ k" by (auto simp: blk_ok_def)
  let ?r = "ceillog2 (nat sz)"
  have r: "?r \<le> k" using rounded_order [OF sz, of k] f k by (simp add: fits_def)
  have cv: "coalesced (map snd vs)" "coalesced (map snd us)"
    using co xs by (auto simp: successively_append_iff successively_Cons)
  from split_to_ok [OF inv' k r _ cv(1)] f obtain h1 vs' where
    h1: "split_to h p (int ?r) = Some h1" "memory_inv h1 m (us @ (p, b\<lparr>bsize := 2 ^ ?r\<rparr>) # vs')"
    "coalesced (map snd vs')" "taken vs' = taken vs" by (auto simp: fits_def)
  let ?b = "b\<lparr>bsize := rounded sz, ballocated := sz\<rparr>"
  note n1 = blocks_node [OF memory_inv_blocks [OF h1(2)]]
  from blocks_set_cell [OF memory_inv_blocks [OF h1(2)], of ?b] obtain h' where
    h': "set_cell h1 p ?b = Some h'" "blocks h' m (us @ (p, ?b) # vs')" by blast
  have "allocate_memory h m sz = Some (p, h')"
    using get_smallest_pick [OF memory_inv_blocks [OF inv], of sz] z pb h1(1) n1 h'(1) sz
      blocks_node [OF memory_inv_blocks [OF inv']]
    by (simp add: allocate_memory_def ceil_log2_def heap_op rounded_def)
  moreover have "memory_inv h' m (us @ (p, ?b) # vs')"
    using h'(2) h1(2) rounded_ge [OF sz] sz
    by (auto simp: memory_inv_def blk_ok_def rounded_def)
  moreover have "coalesced (map snd (us @ (p, ?b) # vs'))"
    using h1(3) cv(2) sz by (auto simp: successively_append_iff successively_Cons buddy_pair_def)
  ultimately show ?thesis using xs f least h1(4) unfolding buddy_ok_def by blast
qed

lemma deallocate_memory_ok:
  assumes "buddy_ok h m (xs @ (p, b) # ys)"
  shows "\<exists>h' zs. deallocate_memory h p = Some h' \<and> buddy_ok h' m zs \<and> taken zs = taken xs @ taken ys"
proof -
  let ?b = "b\<lparr>ballocated := 0\<rparr>"
  have inv: "memory_inv h m (xs @ (p, b) # ys)"
    and co: "coalesced (map snd xs)" "coalesced (map snd ys)"
    using assms by (auto simp: buddy_ok_def successively_append_iff successively_Cons)
  note n = blocks_node [OF memory_inv_blocks [OF inv]]
  from blocks_set_cell [OF memory_inv_blocks [OF inv], of ?b] obtain h1 where
    h1: "set_cell h p ?b = Some h1" "blocks h1 m (xs @ (p, ?b) # ys)" by blast
  have "memory_inv h1 m (xs @ (p, ?b) # ys)"
    using h1(2) inv by (auto simp: memory_inv_def blk_ok_def)
  from merge_block_ok [OF this _ co] obtain h' zs where
    "merge_block h1 p = Some h'" "memory_inv h' m zs" "coalesced (map snd zs)"
    "taken zs = taken xs @ taken ys" by auto
  moreover have "deallocate_memory h p = merge_block h1 p"
    using n h1(1) by (simp add: deallocate_memory_def heap_op)
  ultimately show ?thesis unfolding buddy_ok_def by metis
qed

section \<open>The layout is determined by what is allocated\<close>

lemma layout_single:
  assumes "layout s bs (s + 2 ^ k)" "b \<in> set bs" "bsize b = 2 ^ k"
  shows "bs = [b]"
proof -
  from split_list [OF assms(2)] obtain us vs where bs: "bs = us @ b # vs" by blast
  with assms obtain q where q: "layout s us q" "bstart b = q" "layout (q + 2 ^ k) vs (s + 2 ^ k)"
    by auto
  with layout_le [OF q(1)] layout_le [OF q(3)] have "q = s" by auto
  moreover have "us = []"
    using q(1) \<open>q = s\<close> layout_bounds [of s us s "hd us"] by (cases us) auto
  moreover have "vs = []"
    using q(3) \<open>q = s\<close> layout_bounds [of "s + 2 ^ k" vs "s + 2 ^ k" "hd vs"] by (cases vs) auto
  ultimately show ?thesis using bs by simp
qed

text \<open>An aligned interval of twice the size is one block, or its two halves are laid out apart.\<close>

lemma layout_halves:
  assumes "layout s bs (s + 2 ^ Suc k)" "2 ^ Suc k dvd s" "\<nexists>b. bs = [b]"
  shows "\<exists>us vs. bs = us @ vs \<and> layout s us (s + 2 ^ k) \<and> layout (s + 2 ^ k) vs (s + 2 ^ Suc k)"
proof -
  have small: "bsize b \<le> 2 ^ k" if "b \<in> set bs" for b
  proof -
    have ne: "bsize b \<noteq> 2 ^ Suc k" using layout_single [OF assms(1) that] assms(3) by blast
    have "blk_ok b" using that assms(1) by (simp add: layout_def)
    then obtain j where j: "bsize b = 2 ^ j" by (rule blk_okE)
    have "bsize b \<le> 2 ^ Suc k"
      using layout_bounds [OF assms(1) that] by linarith
    with ne have "bsize b < 2 ^ Suc k" by linarith
    then have "(2::int) ^ j < 2 ^ Suc k" unfolding j .
    then have "j \<le> k" by (simp del: power_Suc)
    then show ?thesis using j by simp
  qed
  have "layout t bs (t + d + 2 ^ k) \<Longrightarrow> 0 \<le> d \<Longrightarrow> 2 ^ k dvd t + d \<Longrightarrow> \<forall>b \<in> set bs. bsize b \<le> 2 ^ k \<Longrightarrow>
    \<exists>us vs. bs = us @ vs \<and> layout t us (t + d) \<and> layout (t + d) vs (t + d + 2 ^ k)" for t d
  proof (induct bs arbitrary: t d)
    case Nil
    moreover have "(0::int) < 2 ^ k" by simp
    ultimately show ?case unfolding layout_Nil by linarith
  next
    case (Cons b bs)
    show ?case
    proof (cases "d = 0")
      case True
      with Cons.prems show ?thesis by (intro exI [of _ "[]"] exI [of _ "b # bs"]) auto
    next
      case False
      obtain j where j: "bsize b = 2 ^ j" "bsize b dvd t"
        using Cons.prems(1) by (auto simp: blk_ok_def)
      have "(2::int) ^ j \<le> 2 ^ k" using Cons.prems(4) j by auto
      then have "j \<le> k" by simp
      then have "bsize b dvd t + d" using Cons.prems(3) j by (metis dvd_trans le_imp_power_dvd)
      then have "bsize b dvd d" using j(2) by (simp add: dvd_add_right_iff)
      then have "bsize b \<le> d" using False Cons.prems(2) by (simp add: zdvd_imp_le)
      then obtain us vs where "bs = us @ vs" "layout (t + bsize b) us (t + d)"
        "layout (t + d) vs (t + d + 2 ^ k)"
        using Cons.hyps [of "t + bsize b" "d - bsize b"] Cons.prems by auto
      with Cons.prems(1) show ?thesis by (intro exI [of _ "b # us"] exI [of _ vs]) auto
    qed
  qed
  from this [of s "2 ^ k"] assms(1,2) small show ?thesis
    by (auto simp: algebra_simps dest: dvd_mult_left)
qed

lemma free_layout_single:
  "layout s bs (s + 2 ^ k) \<Longrightarrow> 2 ^ k dvd s \<Longrightarrow> coalesced bs \<Longrightarrow> \<forall>b \<in> set bs. ballocated b = 0 \<Longrightarrow>
   \<exists>b. bs = [b]"
proof (induct k arbitrary: s bs)
  case 0
  then obtain b cs where bs: "bs = b # cs" by (cases bs) auto
  with 0 have "0 < bsize b" "layout (s + bsize b) cs (s + 1)" by (auto dest: blk_ok_pos)
  then have "cs = []" using layout_bounds [of "s + bsize b" cs "s + 1" "hd cs"] by (cases cs) auto
  with bs show ?case by simp
next
  case (Suc k)
  show ?case
  proof (rule ccontr)
    assume "\<nexists>b. bs = [b]"
    with layout_halves [OF Suc.prems(1,2)] obtain us vs where
      h: "bs = us @ vs" "layout s us (s + 2 ^ k)" "layout (s + 2 ^ k) vs (s + 2 ^ Suc k)" by blast
    have dv: "2 ^ k dvd s" using Suc.prems(2) by (auto dest: dvd_mult_left)
    have "\<exists>u. us = [u]" using Suc.hyps [OF h(2) dv] Suc.prems(3,4) h(1)
      by (auto simp: successively_append_iff)
    moreover have "layout (s + 2 ^ k) vs (s + 2 ^ k + 2 ^ k)" using h(3) by (simp add: algebra_simps)
    then have "\<exists>v. vs = [v]" using Suc.hyps [of "s + 2 ^ k" vs] dv Suc.prems(3,4) h(1)
      by (auto simp: successively_append_iff)
    ultimately obtain u v where uv: "bs = [u, v]" "us = [u]" "vs = [v]" using h(1) by auto
    have sz: "bsize u = 2 ^ k" "bsize v = 2 ^ k" "bstart u = s" using h uv by auto
    obtain i where "s = 2 ^ Suc k * i" using Suc.prems(2) by (elim dvdE)
    then have "bstart u = (2 * i) * 2 ^ k" using sz(3) by simp
    then have "buddy_right u" using buddy_right_even [of u k "2 * i"] sz by simp
    then show False using Suc.prems(3,4) uv sz by (auto simp: buddy_pair_def)
  qed
qed

abbreviation in_use :: "block list \<Rightarrow> block list" where
  "in_use bs \<equiv> filter (\<lambda>b. ballocated b \<noteq> 0) bs"

lemma layout_filter:
  assumes "layout s us t" "layout t vs e"
  shows "filter (\<lambda>b. bstart b < t) (us @ vs) = us"
proof -
  have "filter (\<lambda>b. bstart b < t) us = us"
    using layout_bounds [OF assms(1)] by (intro filter_True) force
  moreover have "filter (\<lambda>b. bstart b < t) vs = []"
    using layout_bounds [OF assms(2)] by (intro filter_False) force
  ultimately show ?thesis by simp
qed

lemma layout_eq_single:
  assumes "layout s [b] (s + 2 ^ k)" "layout s ys (s + 2 ^ k)" "2 ^ k dvd s" "coalesced ys"
    "in_use [b] = in_use ys"
  shows "[b] = ys"
proof (cases "ballocated b = 0")
  case True
  then have "in_use ys = []" using assms(5) by simp
  then have "\<forall>c \<in> set ys. ballocated c = 0" by (auto simp: filter_empty_conv)
  with free_layout_single [OF assms(2-4)] obtain c where "ys = [c]" "ballocated c = 0" by auto
  with assms(1,2) True show ?thesis by (cases b, cases c) auto
next
  case False
  then have "b \<in> set (in_use [b])" by simp
  then have "b \<in> set ys" unfolding assms(5) by simp
  moreover have "bsize b = 2 ^ k" using assms(1) by simp
  ultimately show ?thesis using layout_single [OF assms(2)] by simp
qed

text \<open>Two coalesced layouts with the same blocks in use are the same.\<close>

lemma layout_unique:
  "layout s xs (s + 2 ^ k) \<Longrightarrow> layout s ys (s + 2 ^ k) \<Longrightarrow> 2 ^ k dvd s \<Longrightarrow> coalesced xs \<Longrightarrow>
   coalesced ys \<Longrightarrow> in_use xs = in_use ys \<Longrightarrow> xs = ys"
proof (induct k arbitrary: s xs ys)
  case 0
  have single: "\<exists>b. bs = [b]" if l: "layout s bs (s + 2 ^ 0)" for bs
  proof -
    obtain b cs where bs: "bs = b # cs" using l by (cases bs) auto
    with l have "0 < bsize b" "layout (s + bsize b) cs (s + 1)" by (auto dest: blk_ok_pos)
    then have "cs = []" using layout_bounds [of "s + bsize b" cs "s + 1" "hd cs"] by (cases cs) auto
    with bs show ?thesis by simp
  qed
  from single [OF 0(1)] obtain b where b: "xs = [b]" by blast
  show ?case unfolding b by (rule layout_eq_single [OF 0(1) [unfolded b] 0(2,3,5) 0(6) [unfolded b]])
next
  case (Suc k)
  show ?case
  proof (cases "(\<exists>b. xs = [b]) \<or> (\<exists>b. ys = [b])")
    case True
    then show ?thesis
    proof
      assume "\<exists>b. xs = [b]"
      then obtain b where "xs = [b]" ..
      with layout_eq_single [of s b "Suc k" ys] Suc.prems show ?thesis by blast
    next
      assume "\<exists>b. ys = [b]"
      then obtain b where b: "ys = [b]" ..
      with Suc.prems(6) have "in_use [b] = in_use xs" by (simp only:)
      with layout_eq_single [of s b "Suc k" xs] Suc.prems b show ?thesis by blast
    qed
  next
    case False
    with layout_halves [OF Suc.prems(1,3)] layout_halves [OF Suc.prems(2,3)]
    obtain us vs us' vs' where x: "xs = us @ vs" "layout s us (s + 2 ^ k)"
      "layout (s + 2 ^ k) vs (s + 2 ^ Suc k)" and y: "ys = us' @ vs'" "layout s us' (s + 2 ^ k)"
      "layout (s + 2 ^ k) vs' (s + 2 ^ Suc k)" by blast
    have dv: "2 ^ k dvd s" using Suc.prems(3) by (auto dest: dvd_mult_left)
    have fu: "filter (\<lambda>b. bstart b < s + 2 ^ k) (in_use (as @ bs)) = in_use as"
      if "layout s as (s + 2 ^ k)" "layout (s + 2 ^ k) bs (s + 2 ^ Suc k)" for as bs
      by (subst filter_comm) (simp only: layout_filter [OF that])
    have iu: "in_use us = in_use us'" using fu [OF x(2,3)] fu [OF y(2,3)] Suc.prems(6) x(1) y(1)
      by metis
    then have iv: "in_use vs = in_use vs'" using Suc.prems(6) x(1) y(1) by simp
    have co: "coalesced us" "coalesced vs" "coalesced us'" "coalesced vs'"
      using Suc.prems(4,5) x(1) y(1) by (auto simp: successively_append_iff)
    have e: "s + 2 ^ Suc k = s + 2 ^ k + 2 ^ k" and dv': "2 ^ k dvd s + 2 ^ k" using dv by simp_all
    have "us = us'" by (rule Suc.hyps [OF x(2) y(2) dv co(1) co(3) iu])
    moreover have "vs = vs'"
      by (rule Suc.hyps [OF x(3) [unfolded e] y(3) [unfolded e] dv' co(2) co(4) iv])
    ultimately have "us = us'" "vs = vs'" by simp_all
    with x(1) y(1) show ?thesis by simp
  qed
qed

lemma map_snd_taken: "map snd (taken xs) = in_use (map snd xs)"
  by (induct xs) auto

lemma buddy_ok_unique:
  assumes "buddy_ok h m xs" "buddy_ok h' m' ys" "map snd (taken xs) = map snd (taken ys)"
  shows "map snd xs = map snd ys"
  using layout_unique [of 0 "map snd xs" 10 "map snd ys"] assms
  by (simp add: buddy_ok_def memory_inv_def MAX_SIZE_def map_snd_taken)

section \<open>The allocator's contract\<close>

text \<open>The blocks in use with the units asked for, and whether some free block holds a request.\<close>

definition grants :: "(ptr \<times> block) list \<Rightarrow> (ptr \<times> int) set" where
  "grants xs = (\<lambda>x. (fst x, ballocated (snd x))) ` set (taken xs)"

abbreviation room :: "(ptr \<times> block) list \<Rightarrow> int \<Rightarrow> bool" where
  "room xs sz \<equiv> \<exists>x \<in> set xs. fits sz (snd x)"

lemma grants_simps [simp]:
  "grants [] = {}" "grants (xs @ ys) = grants xs \<union> grants ys"
  "grants (x # xs) = (if ballocated (snd x) \<noteq> 0 then insert (fst x, ballocated (snd x)) (grants xs) else grants xs)"
  by (auto simp: grants_def)

lemma grants_taken: "taken ys = taken xs \<Longrightarrow> grants ys = grants xs"
  by (simp add: grants_def)

lemma grants_addrs: "(p, n) \<in> grants xs \<Longrightarrow> p \<in> addrs xs"
  by (force simp: grants_def taken_def)

lemma buddy_ok_blocks: "buddy_ok h m xs \<Longrightarrow> blocks h m xs"
  by (simp add: buddy_ok_def memory_inv_def)

lemma grants_split:
  assumes "buddy_ok h m xs" "(p, n) \<in> grants xs"
  shows "\<exists>us b vs. xs = us @ (p, b) # vs \<and> ballocated b = n \<and> n \<noteq> 0 \<and> p \<noteq> NULL \<and>
    (\<exists>m. get_node h p = Some m \<and> cell m = b) \<and> grants us \<union> grants vs = grants xs - {(p, n)}"
proof -
  obtain b where b: "(p, b) \<in> set xs" "ballocated b = n" "n \<noteq> 0"
    using assms(2) by (auto simp: grants_def taken_def)
  then obtain us vs where xs: "xs = us @ (p, b) # vs" by (auto simp: in_set_conv_decomp)
  have bl: "blocks h m (us @ (p, b) # vs)" using assms(1) xs buddy_ok_blocks by blast
  have "p \<notin> addrs us" "p \<notin> addrs vs" using blocks_distinct [OF bl] by auto
  then have "(p, n) \<notin> grants us" "(p, n) \<notin> grants vs" using grants_addrs by blast+
  then have "grants us \<union> grants vs = grants xs - {(p, n)}" using b xs by auto
  then show ?thesis using xs b blocks_node [OF bl] by (auto simp: heap_op)
qed

interpretation buddy: allocator buddy_ok grants room allocate_memory deallocate_memory
proof unfold_locales
  fix h m and xs :: "(ptr \<times> block) list" and n
  assume ok: "buddy_ok h m xs" and n: "0 < n" and r: "room xs n"
  obtain p b us vs h' vs' where a: "allocate_memory h m n = Some (p, h')"
    "xs = us @ (p, b) # vs" "fits n b"
    "buddy_ok h' m (us @ (p, b\<lparr>bsize := rounded n, ballocated := n\<rparr>) # vs')" "taken vs' = taken vs"
    using allocate_memory_ok [OF ok n r] by (elim exE conjE) (rule that; assumption)
  have bl: "blocks h m (us @ (p, b) # vs)" using ok a(2) buddy_ok_blocks by blast
  have g: "grants (us @ (p, b\<lparr>bsize := rounded n, ballocated := n\<rparr>) # vs') = insert (p, n) (grants xs)"
    using a(2,3) grants_taken [OF a(5)] n by (auto simp: fits_def)
  have "p \<notin> addrs us" "p \<notin> addrs vs" "p \<noteq> NULL" using blocks_distinct [OF bl] blocks_node(1) [OF bl] by auto
  moreover from this have "p \<notin> fst ` grants xs" using a(2,3) grants_addrs by (auto simp: fits_def)
  ultimately show "\<exists>p h' ys. allocate_memory h m n = Some (p, h') \<and> p \<noteq> NULL \<and> buddy_ok h' m ys \<and>
      p \<notin> fst ` grants xs \<and> grants ys = insert (p, n) (grants xs)"
    using a(1,4) g by blast
next
  fix h m and xs :: "(ptr \<times> block) list" and p n
  assume ok: "buddy_ok h m xs" and g: "(p, n) \<in> grants xs"
  obtain us b vs where x: "xs = us @ (p, b) # vs" "p \<noteq> NULL" "grants us \<union> grants vs = grants xs - {(p, n)}"
    using grants_split [OF ok g] by blast
  from deallocate_memory_ok [OF ok [unfolded x(1)]] obtain h' ys where
    d: "deallocate_memory h p = Some h'" "buddy_ok h' m ys" "taken ys = taken us @ taken vs" by blast
  have "grants ys = grants us \<union> grants vs" using d(3) by (auto simp: grants_def)
  then show "\<exists>h' ys. deallocate_memory h p = Some h' \<and> buddy_ok h' m ys \<and> grants ys = grants xs - {(p, n)}"
    using d(1,2) x(3) by blast
  show "p \<noteq> NULL" by (rule x(2))
next
  fix h m and xs :: "(ptr \<times> block) list" and n
  assume "buddy_ok h m xs" "\<not> room xs n"
  then show "allocate_memory h m n = Some (NULL, h)"
    using allocate_memory_None [OF buddy_ok_blocks] by blast
next
  fix h m and xs :: "(ptr \<times> block) list"
  assume "buddy_ok h m xs"
  from blocks_distinct [OF buddy_ok_blocks [OF this]]
  have "inj_on fst (set (taken xs))" by (auto simp: taken_def distinct_map intro: inj_on_subset)
  then show "inj_on fst (grants xs)" by (auto simp: grants_def inj_on_def)
qed

section \<open>Properties\<close>

text \<open>The memory as \<open>init_memory\<close> leaves it in an empty heap.\<close>

definition fresh_heap :: bheap where
  "fresh_heap = snd (init_memory empty_heap)"

lemma fresh_heap_ok: "buddy_ok fresh_heap 1 [(1, \<lparr>bsize = 1024, bstart = 0, ballocated = 0\<rparr>)]"
  using init_memory_ok [OF wf_empty_heap]
  by (auto simp: fresh_heap_def init_memory_def malloc_node_def empty_heap_def MAX_SIZE_def)

text \<open>
  C18: on a well-formed memory, \<open>allocate_memory\<close> returns. If some free block is large enough, it
  returns one of the smallest such blocks, cut down to the least power of two that holds the
  request (less than twice the request), marks it with the requested size, leaves every allocated
  block as it is and the memory well formed. Otherwise it returns NULL and changes nothing.
\<close>

theorem allocate_memory_correct:
  assumes "buddy_ok h memory xs" "0 < sz"
  shows "\<exists>p h'. allocate_memory h memory sz = Some (p, h') \<and>
    (if \<exists>x \<in> set xs. fits sz (snd x) then
       \<exists>b us vs vs'. xs = us @ (p, b) # vs \<and> fits sz b \<and>
         (\<forall>x \<in> set xs. fits sz (snd x) \<longrightarrow> bsize b \<le> bsize (snd x)) \<and>
         buddy_ok h' memory (us @ (p, b\<lparr>bsize := rounded sz, ballocated := sz\<rparr>) # vs') \<and>
         taken vs' = taken vs \<and> sz \<le> rounded sz \<and> rounded sz < 2 * sz
     else p = NULL \<and> h' = h)"
proof (cases "\<exists>x \<in> set xs. fits sz (snd x)")
  case True
  obtain p b us vs h' vs' where
    a: "allocate_memory h memory sz = Some (p, h')" "xs = us @ (p, b) # vs" "fits sz b"
    "\<forall>x \<in> set xs. fits sz (snd x) \<longrightarrow> bsize b \<le> bsize (snd x)"
    "buddy_ok h' memory (us @ (p, b\<lparr>bsize := rounded sz, ballocated := sz\<rparr>) # vs')"
    "taken vs' = taken vs"
    using allocate_memory_ok [OF assms True] by (elim exE conjE) (rule that; assumption)
  show ?thesis unfolding if_P [OF True]
    by (rule exI [of _ p], rule exI [of _ h'], rule conjI, rule a(1),
        rule exI [of _ b], rule exI [of _ us], rule exI [of _ vs], rule exI [of _ vs'])
      (intro conjI a rounded_ge rounded_less assms(2))
next
  case False
  have "blocks h memory xs" using assms(1) by (simp add: buddy_ok_def memory_inv_def)
  with False allocate_memory_None [of h memory xs sz] show ?thesis by auto
qed

theorem allocate_memory_correct_witness:
  "\<exists>p h' b vs'. allocate_memory fresh_heap 1 100 = Some (p, h') \<and> p = 1 \<and>
     buddy_ok h' 1 ((1, b) # vs') \<and> bsize b = rounded 100 \<and> ballocated b = 100 \<and> taken vs' = []"
  using allocate_memory_correct [OF fresh_heap_ok, of 100]
  by (fastforce simp: fits_def Cons_eq_append_conv)

text \<open>
  C19: freeing a block of a well-formed memory returns, merges buddies until no two free buddies
  stand side by side, and leaves exactly the other allocated blocks allocated, in place.
\<close>

theorem deallocate_memory_correct:
  assumes "buddy_ok h memory (xs @ (p, b) # ys)"
  shows "\<exists>h' zs. deallocate_memory h p = Some h' \<and> buddy_ok h' memory zs \<and>
    taken zs = taken xs @ taken ys"
  by (rule deallocate_memory_ok [OF assms])

theorem deallocate_memory_correct_witness:
  "\<exists>h' zs. deallocate_memory fresh_heap 1 = Some h' \<and> buddy_ok h' 1 zs \<and> taken zs = []"
  using deallocate_memory_correct [of fresh_heap 1 "[]" 1 "\<lparr>bsize = 1024, bstart = 0, ballocated = 0\<rparr>" "[]"]
    fresh_heap_ok by simp

text \<open>
  C20: allocating a block and freeing it restores the memory: the same blocks with the same sizes,
  starts and marks in the same order.
\<close>

theorem allocate_deallocate:
  assumes "buddy_ok h memory xs" "0 < sz" "allocate_memory h memory sz = Some (p, h1)" "p \<noteq> NULL"
  shows "\<exists>h2 ys. deallocate_memory h1 p = Some h2 \<and> buddy_ok h2 memory ys \<and> map snd ys = map snd xs"
proof -
  have "\<exists>x \<in> set xs. fits sz (snd x)"
    using allocate_memory_None [of h memory xs sz] assms by (auto simp: buddy_ok_def memory_inv_def)
  from allocate_memory_ok [OF assms(1,2) this] assms(3) obtain b us vs vs' where
    a: "xs = us @ (p, b) # vs" "fits sz b" "taken vs' = taken vs"
    "buddy_ok h1 memory (us @ (p, b\<lparr>bsize := rounded sz, ballocated := sz\<rparr>) # vs')" by auto
  from deallocate_memory_ok [OF a(4)] obtain h2 ys where
    d: "deallocate_memory h1 p = Some h2" "buddy_ok h2 memory ys" "taken ys = taken us @ taken vs'" by blast
  have "taken ys = taken xs" using a d(3) by (simp add: fits_def)
  then show ?thesis using d buddy_ok_unique [OF d(2) assms(1)] by auto
qed

theorem allocate_deallocate_witness:
  "\<exists>p h1 h2 ys. allocate_memory fresh_heap 1 100 = Some (p, h1) \<and> deallocate_memory h1 p = Some h2 \<and>
     buddy_ok h2 1 ys \<and> map snd ys = [\<lparr>bsize = 1024, bstart = 0, ballocated = 0\<rparr>]"
proof -
  have "\<exists>p h1. allocate_memory fresh_heap 1 100 = Some (p, h1) \<and> p \<noteq> NULL"
    using allocate_memory_ok [OF fresh_heap_ok, of 100] by (auto simp: fits_def Cons_eq_append_conv)
  then show ?thesis using allocate_deallocate [OF fresh_heap_ok, of 100] by fastforce
qed

text \<open>
  The blocks of a well-formed memory cover addresses 0 to 1023, each inside it, and of two blocks
  the one later in the list starts at or after the end of the earlier: no two processes are ever
  given overlapping memory.
\<close>

theorem blocks_disjoint:
  assumes "buddy_ok h memory xs" "i < j" "j < length xs"
  shows "bstart (snd (xs ! i)) + bsize (snd (xs ! i)) \<le> bstart (snd (xs ! j)) \<and>
    0 \<le> bstart (snd (xs ! i)) \<and> bstart (snd (xs ! j)) + bsize (snd (xs ! j)) \<le> MAX_SIZE \<and>
    ballocated (snd (xs ! j)) \<le> bsize (snd (xs ! j))"
proof -
  have l: "layout 0 (map snd xs) MAX_SIZE" using assms(1) by (simp add: buddy_ok_def memory_inv_def)
  have "blk_ok (snd (xs ! j))" using l assms(3) by (auto simp: layout_def)
  then show ?thesis using layout_disjoint [OF l, of i j] assms(2,3)
      layout_bounds [OF l, of "snd (xs ! i)"] layout_bounds [OF l, of "snd (xs ! j)"]
    by (auto simp: blk_ok_def)
qed

theorem blocks_disjoint_witness:
  "\<exists>p h' b c ys. allocate_memory fresh_heap 1 100 = Some (p, h') \<and> buddy_ok h' 1 ((p, b) # c # ys) \<and>
     ballocated b = 100 \<and> bstart b + bsize b \<le> bstart (snd c)"
proof -
  obtain p h' vs' where a: "allocate_memory fresh_heap 1 100 = Some (p, h')"
    "buddy_ok h' 1 ((p, \<lparr>bsize = rounded 100, bstart = 0, ballocated = 100\<rparr>) # vs')"
    using allocate_memory_ok [OF fresh_heap_ok, of 100] by (fastforce simp: fits_def Cons_eq_append_conv)
  have "rounded 100 \<noteq> 1024" using rounded_less [of 100] by simp
  then have "vs' \<noteq> []" using a(2) by (auto simp: buddy_ok_def memory_inv_def MAX_SIZE_def)
  then obtain c ys where "vs' = c # ys" by (cases vs') auto
  then show ?thesis using a blocks_disjoint [of h' 1 _ 0 1] by fastforce
qed

text \<open>
  A well-formed memory in which nothing is allocated is the single free block of 1024 units.
\<close>

theorem all_free_single:
  assumes "buddy_ok h memory xs" "taken xs = []"
  shows "map snd xs = [\<lparr>bsize = MAX_SIZE, bstart = 0, ballocated = 0\<rparr>]"
  using buddy_ok_unique [OF assms(1) fresh_heap_ok] assms(2) by (simp add: MAX_SIZE_def)

theorem all_free_single_witness:
  "map snd [(1 :: ptr, \<lparr>bsize = 1024, bstart = 0, ballocated = 0\<rparr>)] =
     [\<lparr>bsize = MAX_SIZE, bstart = 0, ballocated = 0\<rparr>]"
  by (rule all_free_single [OF fresh_heap_ok]) simp

text \<open>Two allocations, freed in the order in which they were made.\<close>

definition two_blocks :: "(ptr \<times> ptr \<times> bheap) option" where
  "two_blocks = do {
     (p, h) \<leftarrow> allocate_memory fresh_heap 1 100;
     (q, h) \<leftarrow> allocate_memory h 1 200;
     Some (p, q, h)
   }"

lemma two_blocks_fit: "map_option (\<lambda>(p, q, h). (p, q)) two_blocks = Some (1, 3)"
  by code_simp

lemma two_blocks_ok:
  "\<exists>h xs. two_blocks = Some (1, 3, h) \<and> buddy_ok h 1 xs \<and> grants xs = {(1, 100), (3, 200)}"
proof -
  obtain h1 h2 where a: "allocate_memory fresh_heap 1 100 = Some (1, h1)"
    "allocate_memory h1 1 200 = Some (3, h2)" "two_blocks = Some (1, 3, h2)"
    using two_blocks_fit by (auto simp: two_blocks_def bind_eq_Some_conv)
  have "room [(1, \<lparr>bsize = 1024, bstart = 0, ballocated = 0\<rparr>)] 100" by (simp add: fits_def)
  from buddy.alloc_room [OF fresh_heap_ok _ this] a(1) obtain xs where
    x: "buddy_ok h1 1 xs" "grants xs = {(1, 100)}" by auto
  have "room xs 200" using buddy.alloc_full [OF x(1), of 200] a(2) by auto
  from buddy.alloc_room [OF x(1) _ this] a(2) obtain ys where
    "buddy_ok h2 1 ys" "grants ys = {(3, 200), (1, 100)}" using x(2) by auto
  then show ?thesis using a(3) by (metis insert_commute)
qed

text \<open>
  C21: the blocks in use can be freed in any order: every call returns, and in the end all buddies have
  merged back into the one free block of 1024 units that \<open>init_memory\<close> made.
\<close>

theorem release_in_any_order:
  assumes "buddy_ok h memory xs" "mset ps = mset (map fst (taken xs))"
  shows "\<exists>h'. release_all deallocate_memory h ps = Some h' \<and>
    buddy_ok h' memory [(memory, \<lparr>bsize = 1024, bstart = 0, ballocated = 0\<rparr>)]"
proof -
  have s: "set ps = fst ` grants xs" using arg_cong [OF assms(2), of set_mset]
    by (simp add: grants_def image_image)
  have "distinct (map fst (taken xs))"
    using blocks_distinct [OF buddy_ok_blocks [OF assms(1)]] by (simp add: taken_def distinct_map_filter)
  then have "distinct ps" using assms(2) by (metis mset_eq_imp_distinct_iff)
  with buddy.release_all_ok [OF assms(1) this] s obtain h' ys where
    r: "release_all deallocate_memory h ps = Some h'" "buddy_ok h' memory ys" "grants ys = {}" by auto
  have "taken ys = []" using r(3) by (simp add: grants_def)
  then have "map snd ys = [\<lparr>bsize = 1024, bstart = 0, ballocated = 0\<rparr>]"
    using buddy_ok_unique [OF r(2) fresh_heap_ok] by simp
  then obtain p where ys: "ys = [(p, \<lparr>bsize = 1024, bstart = 0, ballocated = 0\<rparr>)]" by (auto simp: map_eq_Cons_conv)
  then have "p = memory" using buddy_ok_blocks [OF r(2)] by (simp add: blocks_def)
  then show ?thesis using r ys by blast
qed

theorem release_in_any_order_witness:
  "\<exists>h h'. two_blocks = Some (1, 3, h) \<and> release_all deallocate_memory h [1, 3] = Some h' \<and>
     buddy_ok h' 1 [(1, \<lparr>bsize = 1024, bstart = 0, ballocated = 0\<rparr>)]"
proof -
  obtain h xs where h: "two_blocks = Some (1, 3, h)" "buddy_ok h 1 xs" "grants xs = {(1, 100), (3, 200)}"
    using two_blocks_ok by blast
  have "set (map fst (taken xs)) = set [1, 3]" using arg_cong [OF h(3), of "image fst"]
    by (simp add: grants_def image_image)
  moreover have "distinct (map fst (taken xs))"
    using blocks_distinct [OF buddy_ok_blocks [OF h(2)]] by (simp add: taken_def distinct_map_filter)
  ultimately have "mset [1, 3] = mset (map fst (taken xs))" 
    using set_eq_iff_mset_eq_distinct [of "[1, 3]" "map fst (taken xs)"] by simp
  from release_in_any_order [OF h(2) this] h(1) show ?thesis by blast
qed

end
