(* ===== verification/Hash_Map.thy ===== *)
theory Hash_Map
  imports Memory_Interface
begin

text \<open>
  DS/hash_map.c: a hash table of \<open>int\<close> keys with open addressing and quadratic probing, which maps a
  process id to its memory block. \<open>size_t\<close> and \<open>unsigned long\<close> are 64 bits wide; the index
  arithmetic is on \<open>64 word\<close>, so it wraps as the code's does. The array of node pointers is a list
  of optional nodes: each node belongs to one bucket.
\<close>

record 'v HashNode =
  hkey :: int
  hvalue :: 'v

record 'v HashMap =
  buckets :: "'v HashNode option list"
  capacity :: "64 word"
  msize :: "64 word"

text \<open>An \<open>int\<close> times an \<open>unsigned long\<close>: the key is converted modulo \<open>2^64\<close> first.\<close>

definition hashmap_int_hash :: "int \<Rightarrow> 64 word" where
  "hashmap_int_hash key = drop_bit 16 (word_of_int key * 2654435761)"

definition hashmap_create :: "64 word \<Rightarrow> 'v HashMap" where
  "hashmap_create cap = \<lparr>buckets = replicate (unat cap) None, capacity = cap, msize = 0\<rparr>"

text \<open>
  The probing loop, the same in \<open>hashmap_put\<close>, \<open>hashmap_get\<close> and \<open>hashmap_remove\<close>: it stops at a
  bucket with the key, at an empty bucket, or when the index is back at \<open>original_index\<close>. Reading
  a bucket outside the array is undefined.
\<close>

datatype probe_result = Found "64 word" | Vacant "64 word" | Full_circle

definition bucket :: "'v HashMap \<Rightarrow> 64 word \<Rightarrow> 'v HashNode option option" where
  "bucket m i = (if unat i < length (buckets m) then Some (buckets m ! unat i) else None)"

partial_function (option) probe ::
  "'v HashMap \<Rightarrow> int \<Rightarrow> 64 word \<Rightarrow> 64 word \<Rightarrow> 64 word \<Rightarrow> probe_result option" where
  "probe m key index original_index step = do {
     current \<leftarrow> bucket m index;
     case current of
       None \<Rightarrow> Some (Vacant index)
     | Some n \<Rightarrow>
         if hkey n = key then Some (Found index)
         else
           (let index' = (original_index + step * step) mod capacity m in
            if index' = original_index then Some Full_circle
            else probe m key index' original_index (step + 1))
   }"

text \<open>A capacity of 0 makes the remainder of the first index undefined.\<close>

definition locate :: "'v HashMap \<Rightarrow> int \<Rightarrow> probe_result option" where
  "locate m key =
     (if capacity m = 0 then None
      else (let index = hashmap_int_hash key mod capacity m in probe m key index index 1))"

definition hashmap_put :: "'v HashMap \<Rightarrow> int \<Rightarrow> 'v \<Rightarrow> (int \<times> 'v HashMap) option" where
  "hashmap_put m key v =
     (if msize m \<ge> capacity m then Some (- 1, m)
      else do {
        r \<leftarrow> locate m key;
        Some (case r of
          Found i \<Rightarrow> (0, m\<lparr>buckets := (buckets m)[unat i := Some \<lparr>hkey = key, hvalue = v\<rparr>]\<rparr>)
        | Full_circle \<Rightarrow> (- 1, m)
        | Vacant i \<Rightarrow> (1, m\<lparr>buckets := (buckets m)[unat i := Some \<lparr>hkey = key, hvalue = v\<rparr>],
                            msize := msize m + 1\<rparr>))
      })"

definition hashmap_get :: "'v HashMap \<Rightarrow> int \<Rightarrow> 'v option option" where
  "hashmap_get m key = do {
     r \<leftarrow> locate m key;
     case r of
       Found i \<Rightarrow> do { b \<leftarrow> bucket m i; n \<leftarrow> b; Some (Some (hvalue n)) }
     | Full_circle \<Rightarrow> Some None
     | Vacant i \<Rightarrow> Some None
   }"

definition hashmap_remove :: "'v HashMap \<Rightarrow> int \<Rightarrow> (int \<times> 'v HashMap) option" where
  "hashmap_remove m key = do {
     r \<leftarrow> locate m key;
     Some (case r of
       Found i \<Rightarrow> (0, m\<lparr>buckets := (buckets m)[unat i := None], msize := msize m - 1\<rparr>)
     | Full_circle \<Rightarrow> (- 1, m)
     | Vacant i \<Rightarrow> (- 1, m))
   }"

text \<open>\<open>hashmap_free\<close>: what it passes to \<open>free\<close>; reading a bucket outside the array is undefined.\<close>

definition hashmap_free :: "'v HashMap \<Rightarrow> part list option" where
  "hashmap_free m =
     (if length (buckets m) < unat (capacity m) then None
      else Some (map Slot (filter (\<lambda>i. buckets m ! i \<noteq> None) [0..<unat (capacity m)]) @ [Array, Whole]))"

section \<open>The probing loop ends\<close>

definition hm_wf :: "'v HashMap \<Rightarrow> bool" where
  "hm_wf m \<longleftrightarrow> capacity m \<noteq> 0 \<and> length (buckets m) = unat (capacity m) \<and>
     unat (msize m) = length (filter (\<lambda>b. b \<noteq> None) (buckets m))"

lemma word_mod_mod [simp]: "(x :: 64 word) mod c mod c = x mod c"
  by (simp add: word_unat_eq_iff unat_mod)

lemma bucket_mod:
  assumes "hm_wf m"
  shows "bucket m (i mod capacity m) = Some (buckets m ! unat (i mod capacity m))"
proof -
  have "unat (i mod capacity m) < unat (capacity m)"
    using assms by (simp add: hm_wf_def unat_mod unat_gt_0)
  then show ?thesis using assms by (simp add: bucket_def hm_wf_def)
qed

text \<open>
  The square of \<open>2^32\<close> is 0 in 64 bits, so at that step at the latest the index is back at the
  start, whatever the capacity and the contents are.
\<close>

lemma probe_ends:
  assumes wf: "hm_wf m" and o: "orig mod capacity m = orig"
  shows "unat step \<le> 4294967296 \<Longrightarrow> i mod capacity m = i \<Longrightarrow>
    \<exists>r. probe m key i orig step = Some r"
proof (induct "4294967296 - unat step" arbitrary: step i)
  case 0
  then have "unat step = 4294967296" by simp
  then have "step = 4294967296" by (simp add: word_unat_eq_iff)
  then have "step * step = 0" by simp
  then have "(orig + step * step) mod capacity m = orig" using o by simp
  then show ?case using bucket_mod [OF wf, of i] 0
    by (subst probe.simps) (auto simp: Let_def split: option.splits)
next
  case (Suc n)
  let ?i = "(orig + step * step) mod capacity m"
  have "unat (step + 1) = Suc (unat step)"
    using Suc.hyps(2) Suc.prems(1) by (simp add: unat_word_ariths)
  then have "\<exists>r. probe m key ?i orig (step + 1) = Some r"
    using Suc by (intro Suc.hyps(1)) auto
  then show ?case using bucket_mod [OF wf, of i] Suc.prems
    by (subst probe.simps) (auto simp: Let_def split: option.splits)
qed

lemma locate_ends: "hm_wf m \<Longrightarrow> \<exists>r. locate m key = Some r"
  using probe_ends [of m "hashmap_int_hash key mod capacity m" 1]
  by (auto simp: locate_def hm_wf_def Let_def)

section \<open>What a map holds\<close>

text \<open>
  \<open>hm_ok\<close>: every stored key is found where it stands. It holds of the empty map and of every map
  \<open>hashmap_put\<close> makes of one it holds for; \<open>hashmap_remove\<close> does not keep it.
\<close>

definition stored :: "'v HashMap \<Rightarrow> nat \<Rightarrow> 'v HashNode \<Rightarrow> bool" where
  "stored m i n \<longleftrightarrow> i < length (buckets m) \<and> buckets m ! i = Some n"

definition hm_ok :: "'v HashMap \<Rightarrow> bool" where
  "hm_ok m \<longleftrightarrow> hm_wf m \<and> (\<forall>i n. stored m i n \<longrightarrow> locate m (hkey n) = Some (Found (word_of_nat i)))"

definition lookup :: "'v HashMap \<Rightarrow> int \<Rightarrow> 'v option" where
  "lookup m key = (case hashmap_get m key of Some r \<Rightarrow> r | None \<Rightarrow> None)"

text \<open>Induction along a run of the loop: how it ends, and one round.\<close>

lemma probe_induct [consumes 1, case_names vacant found full round]:
  assumes run: "probe m key i orig step = Some r"
    and vacant: "\<And>i step. bucket m i = Some None \<Longrightarrow> P i step (Vacant i)"
    and found: "\<And>i step n. bucket m i = Some (Some n) \<Longrightarrow> hkey n = key \<Longrightarrow> P i step (Found i)"
    and full: "\<And>i step n. bucket m i = Some (Some n) \<Longrightarrow> hkey n \<noteq> key \<Longrightarrow>
      (orig + step * step) mod capacity m = orig \<Longrightarrow> P i step Full_circle"
    and round: "\<And>i step n r. bucket m i = Some (Some n) \<Longrightarrow> hkey n \<noteq> key \<Longrightarrow>
      (orig + step * step) mod capacity m \<noteq> orig \<Longrightarrow>
      P ((orig + step * step) mod capacity m) (step + 1) r \<Longrightarrow> P i step r"
  shows "P i step r"
proof -
  have "m = m \<longrightarrow> key = key \<longrightarrow> orig = orig \<longrightarrow> P i step r"
  proof (rule probe.raw_induct [where P = "\<lambda>m' key' i orig' step r.
      m' = m \<longrightarrow> key' = key \<longrightarrow> orig' = orig \<longrightarrow> P i step r", OF _ run], intro impI)
    fix f m' key' i orig' step r
    assume IH: "\<And>m' key' i orig' step r. f m' key' i orig' step = Some r \<Longrightarrow>
        m' = m \<longrightarrow> key' = key \<longrightarrow> orig' = orig \<longrightarrow> P i step r"
      and eq: "bucket m' i \<bind> (\<lambda>current. case current of None \<Rightarrow> Some (Vacant i)
         | Some n \<Rightarrow> if hkey n = key' then Some (Found i)
             else let index' = (orig' + step * step) mod capacity m' in
               if index' = orig' then Some Full_circle
               else f m' key' index' orig' (step + 1)) = Some r"
      and e: "m' = m" "key' = key" "orig' = orig"
    show "P i step r"
    proof (cases "bucket m i")
      case None
      with eq e show ?thesis by simp
    next
      case (Some b)
      then show ?thesis using eq e IH [of m key _ orig "step + 1" r] vacant found full round
        by (cases b) (auto simp: Let_def split: if_splits)
    qed
  qed
  then show ?thesis by simp
qed

lemma probe_bucket:
  "probe m key i orig step = Some r \<Longrightarrow>
   (\<forall>j. r = Found j \<longrightarrow> (\<exists>n. bucket m j = Some (Some n) \<and> hkey n = key)) \<and>
   (\<forall>j. r = Vacant j \<longrightarrow> bucket m j = Some None)"
  by (induct rule: probe_induct) auto

text \<open>
  Writing a node into a bucket \<open>v\<close> that was empty does not change a search that ended at a key;
  a search that ended at \<open>v\<close> itself for that key now finds it.
\<close>

definition fill :: "'v HashMap \<Rightarrow> 64 word \<Rightarrow> 'v HashNode \<Rightarrow> 'v HashMap" where
  "fill m v n = m\<lparr>buckets := (buckets m)[unat v := Some n]\<rparr>"

lemma bucket_fill:
  "bucket m v = Some b \<Longrightarrow> bucket (fill m v n) i = (if i = v then Some (Some n) else bucket m i)"
  by (auto simp: bucket_def fill_def nth_list_update word_unat_eq_iff split: if_splits)

lemma capacity_fill [simp]: "capacity (fill m v n) = capacity m"
  by (simp add: fill_def)

lemma probe_fill_Found:
  "probe m key i orig step = Some r \<Longrightarrow> bucket m v = Some None \<Longrightarrow> r = Found j \<Longrightarrow>
   probe (fill m v n) key i orig step = Some r"
proof (induct rule: probe_induct)
  case (found i step n')
  then show ?case using bucket_fill [of m v None n i]
    by (subst probe.simps) (auto split: if_splits)
next
  case (round i step n' r)
  then show ?case using bucket_fill [of m v None n i]
    by (subst probe.simps) (auto simp: Let_def split: if_splits)
qed simp_all

lemma probe_fill_Vacant:
  "probe m key i orig step = Some r \<Longrightarrow> r = Vacant v \<Longrightarrow> hkey n = key \<Longrightarrow>
   probe (fill m v n) key i orig step = Some (Found v) \<and> bucket m v = Some None"
proof (induct rule: probe_induct)
  case (vacant i step)
  then show ?case using bucket_fill [of m v None n v] by (subst probe.simps) auto
next
  case (round i step n' r)
  then show ?case using bucket_fill [of m v None n i]
    by (subst probe.simps) (auto simp: Let_def split: if_splits)
qed simp_all

text \<open>Replacing the value of a stored key changes no search.\<close>

lemma probe_overwrite:
  "probe m key i orig step = Some r \<Longrightarrow> bucket m v = Some (Some n') \<Longrightarrow> hkey n = hkey n' \<Longrightarrow>
   probe (fill m v n) key i orig step = Some r"
proof (induct rule: probe_induct)
  case (vacant i step)
  then show ?case using bucket_fill [of m v _ n i] by (subst probe.simps) (auto split: if_splits)
next
  case (found i step n2)
  then show ?case using bucket_fill [of m v _ n i] by (subst probe.simps) (auto split: if_splits)
next
  case (full i step n2)
  then show ?case using bucket_fill [of m v _ n i]
    by (subst probe.simps) (auto simp: Let_def split: if_splits)
next
  case (round i step n2 r)
  then show ?case using bucket_fill [of m v _ n i]
    by (subst probe.simps) (auto simp: Let_def split: if_splits)
qed

lemma locate_fill_Found:
  "locate m key = Some (Found j) \<Longrightarrow> bucket m v = Some None \<Longrightarrow>
   locate (fill m v n) key = Some (Found j)"
  by (auto simp: locate_def Let_def probe_fill_Found split: if_splits)

lemma locate_fill_Vacant:
  "locate m key = Some (Vacant v) \<Longrightarrow> hkey n = key \<Longrightarrow>
   locate (fill m v n) key = Some (Found v) \<and> bucket m v = Some None"
  using probe_fill_Vacant by (fastforce simp: locate_def Let_def split: if_splits)

lemma locate_overwrite:
  "locate m key = Some r \<Longrightarrow> bucket m v = Some (Some n') \<Longrightarrow> hkey n = hkey n' \<Longrightarrow>
   locate (fill m v n) key = Some r"
  by (auto simp: locate_def Let_def probe_overwrite split: if_splits)

lemma locate_bucket:
  "locate m key = Some (Found j) \<Longrightarrow> \<exists>n. bucket m j = Some (Some n) \<and> hkey n = key"
  "locate m key = Some (Vacant j) \<Longrightarrow> bucket m j = Some None"
  using probe_bucket by (fastforce simp: locate_def Let_def split: if_splits)+

section \<open>Insertion and lookup\<close>

lemma bucket_msize [simp]: "bucket (m\<lparr>msize := x\<rparr>) i = bucket m i"
  by (simp add: bucket_def)

lemma probe_msize: "probe m key i orig step = Some r \<Longrightarrow> probe (m\<lparr>msize := x\<rparr>) key i orig step = Some r"
  by (induct rule: probe_induct) (subst probe.simps, simp add: Let_def)+

lemma locate_msize: "locate m key = Some r \<Longrightarrow> locate (m\<lparr>msize := x\<rparr>) key = Some r"
  by (auto simp: locate_def Let_def probe_msize split: if_splits)

lemma stored_bucket:
  assumes "hm_wf m"
  shows "stored m i n \<longleftrightarrow> (\<exists>w. i = unat w \<and> bucket m w = Some (Some n))"
proof
  assume s: "stored m i n"
  with assms have "i < unat (capacity m)" by (simp add: stored_def hm_wf_def)
  then have "i < 2 ^ LENGTH(64)" 
    using unsigned_less [of "capacity m", where ?'a = nat] by linarith
  then have "i = unat (word_of_nat i :: 64 word)" by (simp add: unat_of_nat)
  with s show "\<exists>w. i = unat w \<and> bucket m w = Some (Some n)"
    unfolding stored_def bucket_def by (intro exI [of _ "word_of_nat i"]) simp
qed (auto simp: stored_def bucket_def split: if_splits)

lemma hm_ok_bucket:
  "hm_ok m \<Longrightarrow> bucket m w = Some (Some n) \<Longrightarrow> locate m (hkey n) = Some (Found w)"
  using stored_bucket [of m "unat w" n] by (auto simp: hm_ok_def word_unat_eq_iff)

lemma hm_okI:
  assumes "hm_wf m" "\<And>w n. bucket m w = Some (Some n) \<Longrightarrow> locate m (hkey n) = Some (Found w)"
  shows "hm_ok m"
  using assms stored_bucket [OF assms(1)] by (auto simp: hm_ok_def)

text \<open>The value a map holds for a key is the one in the bucket that holds the key.\<close>

lemma lookup_bucket:
  assumes ok: "hm_ok m"
  shows "lookup m key = Some v \<longleftrightarrow> (\<exists>w. bucket m w = Some (Some \<lparr>hkey = key, hvalue = v\<rparr>))"
proof
  assume l: "lookup m key = Some v"
  obtain r where r: "locate m key = Some r" using locate_ends [of m key] ok by (auto simp: hm_ok_def)
  with l obtain w n where "locate m key = Some (Found w)" "bucket m w = Some (Some n)" "hvalue n = v"
    by (cases r) (auto simp: lookup_def hashmap_get_def bind_eq_Some_conv split: option.splits)
  with locate_bucket(1) [of m key w] show "\<exists>w. bucket m w = Some (Some \<lparr>hkey = key, hvalue = v\<rparr>)"
    by (cases n) auto
next
  assume "\<exists>w. bucket m w = Some (Some \<lparr>hkey = key, hvalue = v\<rparr>)"
  then obtain w where w: "bucket m w = Some (Some \<lparr>hkey = key, hvalue = v\<rparr>)" ..
  from hm_ok_bucket [OF ok this] have "locate m key = Some (Found w)" by simp
  with w show "lookup m key = Some v" by (simp add: lookup_def hashmap_get_def)
qed

lemma hashmap_get_lookup: "hm_ok m \<Longrightarrow> hashmap_get m key = Some (lookup m key)"
  using locate_ends [of m key] locate_bucket(1) [of m key]
  by (fastforce simp: hm_ok_def lookup_def hashmap_get_def split: probe_result.splits)

lemma lookup_fill:
  assumes ok: "hm_ok m" "hm_ok m'" and b: "bucket m v = Some b"
    and eq: "\<And>i. bucket m' i = bucket (fill m v \<lparr>hkey = key, hvalue = x\<rparr>) i"
    and k: "\<And>n. b = Some n \<Longrightarrow> hkey n = key"
  shows "lookup m' = (lookup m)(key \<mapsto> x)"
proof
  fix k'
  have "lookup m' k' = Some y \<longleftrightarrow> ((lookup m)(key \<mapsto> x)) k' = Some y" for y
  proof (cases "k' = key")
    case True
    have "bucket m' v = Some (Some \<lparr>hkey = key, hvalue = x\<rparr>)"
      using bucket_fill [OF b] eq by simp
    then have "lookup m' key = Some x" using lookup_bucket [OF ok(2)] by blast
    then show ?thesis using True by simp
  next
    case False
    have "bucket m v = Some (Some n) \<Longrightarrow> hkey n \<noteq> k'" for n using b k False by auto
    then have "(\<exists>w. bucket m' w = Some (Some \<lparr>hkey = k', hvalue = y\<rparr>)) \<longleftrightarrow>
        (\<exists>w. bucket m w = Some (Some \<lparr>hkey = k', hvalue = y\<rparr>))"
      using bucket_fill [OF b] False by (force simp: eq)
    then show ?thesis
      using lookup_bucket [OF ok(1)] lookup_bucket [OF ok(2)] False by simp
  qed
  then show "lookup m' k' = ((lookup m)(key \<mapsto> x)) k'" by (metis option.exhaust)
qed

lemma count_fill:
  "i < length bs \<Longrightarrow> bs ! i = None \<Longrightarrow>
   length (filter (\<lambda>b. b \<noteq> None) (bs[i := Some n])) = Suc (length (filter (\<lambda>b. b \<noteq> None) bs))"
  by (simp add: upd_conv_take_nth_drop) (subst (3) id_take_nth_drop [of i bs], simp_all)

lemma count_overwrite:
  "i < length bs \<Longrightarrow> bs ! i = Some n' \<Longrightarrow>
   length (filter (\<lambda>b. b \<noteq> None) (bs[i := Some n])) = length (filter (\<lambda>b. b \<noteq> None) bs)"
  by (simp add: upd_conv_take_nth_drop) (subst (3) id_take_nth_drop [of i bs], simp_all)

text \<open>
  \<open>hashmap_put\<close>: -1 leaves the map alone, 0 replaced the value of a key that was there, 1 inserted
  a new one; in both of the last cases the map now holds the value for the key, and nothing else
  has changed.
\<close>

lemma put_Found:
  fixes m :: "'v HashMap" and x :: 'v
  assumes ok: "hm_ok m" and l: "locate m key = Some (Found w)"
  defines "m' \<equiv> fill m w \<lparr>hkey = key, hvalue = x\<rparr>"
  shows "hm_ok m'" "lookup m' = (lookup m)(key \<mapsto> x)" "lookup m key \<noteq> None"
proof -
  from locate_bucket(1) [OF l] obtain n where n: "bucket m w = Some (Some n)" "hkey n = key" by blast
  have wf: "hm_wf m" using ok by (simp add: hm_ok_def)
  have "hm_wf m'" using wf n count_overwrite [of "unat w" "buckets m" n]
    by (auto simp: hm_wf_def m'_def fill_def bucket_def split: if_splits)
  then show ok': "hm_ok m'"
  proof (rule hm_okI)
    fix v k assume "bucket m' v = Some (Some k)"
    then have "(v = w \<and> hkey k = key) \<or> bucket m v = Some (Some k)"
      using bucket_fill [OF n(1)] by (auto simp: m'_def split: if_splits)
    then have "locate m (hkey k) = Some (Found v)" using l hm_ok_bucket [OF ok] by auto
    then show "locate m' (hkey k) = Some (Found v)"
      unfolding m'_def using n by (intro locate_overwrite) auto
  qed
  show "lookup m' = (lookup m)(key \<mapsto> x)"
    by (rule lookup_fill [OF ok ok' n(1)]) (auto simp: m'_def n)
  show "lookup m key \<noteq> None" using lookup_bucket [OF ok, of key "hvalue n"] n by (cases n) auto
qed

lemma put_Vacant:
  fixes m :: "'v HashMap" and x :: 'v
  assumes ok: "hm_ok m" and l: "locate m key = Some (Vacant w)" and sz: "msize m < capacity m"
  defines "m' \<equiv> (fill m w \<lparr>hkey = key, hvalue = x\<rparr>)\<lparr>msize := msize m + 1\<rparr>"
  shows "hm_ok m'" "lookup m' = (lookup m)(key \<mapsto> x)" "lookup m key = None"
    "unat (msize m') = Suc (unat (msize m))"
proof -
  note n = locate_bucket(2) [OF l]
  have wf: "hm_wf m" using ok by (simp add: hm_ok_def)
  have "unat (msize m) < unat (capacity m)" using sz by (simp add: word_less_nat_alt)
  moreover have "unat (capacity m) < 2 ^ 64" using unsigned_less [of "capacity m", where ?'a = nat] by simp
  ultimately show sz': "unat (msize m') = Suc (unat (msize m))"
    by (simp add: m'_def unat_word_ariths)
  have "hm_wf m'" using wf n sz' count_fill [of "unat w" "buckets m"]
    by (auto simp: hm_wf_def m'_def fill_def bucket_def split: if_splits)
  then show ok': "hm_ok m'"
  proof (rule hm_okI)
    fix v k assume "bucket m' v = Some (Some k)"
    then have "(v = w \<and> k = \<lparr>hkey = key, hvalue = x\<rparr>) \<or> bucket m v = Some (Some k)"
      using bucket_fill [OF n] by (auto simp: m'_def split: if_splits)
    then have "locate (fill m w \<lparr>hkey = key, hvalue = x\<rparr>) (hkey k) = Some (Found v)"
      using locate_fill_Vacant [OF l, of "\<lparr>hkey = key, hvalue = x\<rparr>"]
        locate_fill_Found [OF hm_ok_bucket [OF ok] n] by auto
    then show "locate m' (hkey k) = Some (Found v)" unfolding m'_def by (rule locate_msize)
  qed
  show "lookup m' = (lookup m)(key \<mapsto> x)"
    by (rule lookup_fill [OF ok ok' n]) (auto simp: m'_def)
  show "lookup m key = None" using l by (simp add: lookup_def hashmap_get_def)
qed

lemma hashmap_put_correct:
  assumes ok: "hm_ok m"
  shows "\<exists>r m'. hashmap_put m key v = Some (r, m') \<and> hm_ok m' \<and>
    (r = - 1 \<and> m' = m \<or>
     r = 0 \<and> lookup m key \<noteq> None \<and> lookup m' = (lookup m)(key \<mapsto> v) \<and> msize m' = msize m \<or>
     r = 1 \<and> lookup m key = None \<and> lookup m' = (lookup m)(key \<mapsto> v) \<and>
       unat (msize m') = Suc (unat (msize m)))"
proof (cases "msize m \<ge> capacity m")
  case True
  then show ?thesis using ok by (simp add: hashmap_put_def)
next
  case False
  obtain r where "locate m key = Some r" using locate_ends [of m key] ok by (auto simp: hm_ok_def)
  then show ?thesis using False ok put_Found(1,2) [OF ok, where key = key and x = v]
      put_Found(3) [OF ok, of key] put_Vacant(1,2,4) [OF ok, where key = key and x = v]
      put_Vacant(3) [OF ok, of key]
    by (cases r) (auto simp: hashmap_put_def fill_def)
qed

lemma hm_ok_create:
  fixes cap :: "64 word"
  assumes "cap \<noteq> 0"
  shows "hm_ok (hashmap_create cap :: 'v HashMap)" "lookup (hashmap_create cap :: 'v HashMap) key = None"
proof -
  have wf: "hm_wf (hashmap_create cap :: 'v HashMap)" using assms
    by (simp add: hm_wf_def hashmap_create_def)
  have none: "bucket (hashmap_create cap) w \<noteq> Some (Some n)" for w and n :: "'v HashNode"
    by (auto simp: bucket_def hashmap_create_def split: if_splits)
  show ok: "hm_ok (hashmap_create cap :: 'v HashMap)" by (rule hm_okI [OF wf]) (simp add: none)
  show "lookup (hashmap_create cap :: 'v HashMap) key = None"
    using lookup_bucket [OF ok, of key] none by (metis option.exhaust)
qed

text \<open>A map never holds more keys than it has buckets, and \<open>hashmap_put\<close> does not grow it.\<close>

lemma put_capacity:
  assumes "hashmap_put m key v = Some (r, m')"
  shows "capacity m' = capacity m"
proof (cases "locate m key")
  case None
  then show ?thesis using assms by (simp add: hashmap_put_def split: if_splits)
next
  case (Some y)
  then show ?thesis using assms by (cases y) (auto simp: hashmap_put_def split: if_splits)
qed

lemma card_keys:
  assumes "hm_ok m"
  shows "finite (dom (lookup m)) \<and> card (dom (lookup m)) \<le> unat (capacity m)"
proof -
  let ?f = "\<lambda>b. hkey (the b)"
  have "dom (lookup m) \<subseteq> ?f ` set (buckets m)"
  proof
    fix key
    assume "key \<in> dom (lookup m)"
    then obtain v w where "bucket m w = Some (Some \<lparr>hkey = key, hvalue = v\<rparr>)"
      using lookup_bucket [OF assms, of key] by blast
    then have "Some \<lparr>hkey = key, hvalue = v\<rparr> \<in> set (buckets m)"
      by (auto simp: bucket_def split: if_splits) (metis nth_mem)
    then show "key \<in> ?f ` set (buckets m)" by force
  qed
  moreover have "card (?f ` set (buckets m)) \<le> length (buckets m)"
    using card_image_le [of "set (buckets m)" ?f] card_length [of "buckets m"] by simp
  moreover have "length (buckets m) = unat (capacity m)" using assms by (simp add: hm_ok_def hm_wf_def)
  ultimately show ?thesis using card_mono [of "?f ` set (buckets m)"] finite_subset
    by (metis List.finite_set finite_imageI order.trans)
qed

text \<open>The contract of the memory manager's map.\<close>

interpretation hm: bounded_map hm_ok lookup hashmap_put hashmap_get "\<lambda>m. unat (capacity m)"
proof unfold_locales
  fix m :: "'v HashMap" and k v
  assume ok: "hm_ok m"
  then show "hashmap_get m k = Some (lookup m k)" by (rule hashmap_get_lookup)
  from ok show "finite (dom (lookup m)) \<and> card (dom (lookup m)) \<le> unat (capacity m)" by (rule card_keys)
  from hashmap_put_correct [OF ok, of k v] show "\<exists>r m'. hashmap_put m k v = Some (r, m') \<and> hm_ok m' \<and>
      unat (capacity m') = unat (capacity m) \<and>
      (r = - 1 \<and> m' = m \<or>
       r = (if lookup m k = None then 1 else 0) \<and> lookup m' = (lookup m)(k \<mapsto> v))"
    using put_capacity by fastforce
qed

text \<open>\<open>hashmap_free\<close> frees the map, its array and every node once.\<close>

lemma hashmap_free_frees:
  assumes "hm_wf m"
  shows "\<exists>ps. hashmap_free m = Some ps \<and> distinct ps \<and>
    set ps = {Whole, Array} \<union> Slot ` {i. i < length (buckets m) \<and> buckets m ! i \<noteq> None}"
  using assms by (auto simp: hm_wf_def hashmap_free_def distinct_map)

section \<open>Properties\<close>

text \<open>
  C33: on a map built by \<open>hashmap_create\<close> and \<open>hashmap_put\<close>, \<open>hashmap_put\<close> returns -1 and changes
  nothing, or the map gets the new value for the key and keeps that of every other key, and the
  result is 0 exactly when the key had a value before and 1 when not, which is when the size grows.
\<close>

theorem hashmap_put_get:
  assumes "hm_ok m"
  shows "\<exists>r m'. hashmap_put m key v = Some (r, m') \<and> hm_ok m' \<and>
    (if r = - 1 then m' = m
     else (\<forall>k. hashmap_get m' k = (if k = key then Some (Some v) else hashmap_get m k)) \<and>
       r = (if hashmap_get m key = Some None then 1 else 0) \<and>
       unat (msize m') = unat (msize m) + nat r)"
proof -
  obtain r m' where put: "hashmap_put m key v = Some (r, m')" "hm_ok m'"
    and r: "r = - 1 \<and> m' = m \<or>
      r = 0 \<and> lookup m key \<noteq> None \<and> lookup m' = (lookup m)(key \<mapsto> v) \<and> msize m' = msize m \<or>
      r = 1 \<and> lookup m key = None \<and> lookup m' = (lookup m)(key \<mapsto> v) \<and>
        unat (msize m') = Suc (unat (msize m))"
    using hashmap_put_correct [OF assms, of key v] by blast
  have "lookup m' = (lookup m)(key \<mapsto> v) \<Longrightarrow>
      hashmap_get m' k = (if k = key then Some (Some v) else hashmap_get m k)" for k
    using hashmap_get_lookup [OF put(2), of k] hashmap_get_lookup [OF assms, of k] by simp
  then show ?thesis using put r hashmap_get_lookup [OF assms, of key] by auto
qed

theorem hashmap_put_get_witness:
  "\<exists>r m'. hashmap_put (hashmap_create 100 :: string HashMap) 7 ''x'' = Some (r, m') \<and> hm_ok m'"
  using hashmap_put_get [OF hm_ok_create(1) [of 100], of 7 "''x''"] by fastforce

text \<open>
  The probing loops of \<open>hashmap_put\<close>, \<open>hashmap_get\<close> and \<open>hashmap_remove\<close> end on every map whose
  array has the length of its positive capacity, whatever it holds.
\<close>

theorem hashmap_returns:
  assumes "hm_wf m"
  shows "(\<exists>r. hashmap_put m key v = Some r) \<and> (\<exists>r. hashmap_get m key = Some r) \<and>
    (\<exists>r. hashmap_remove m key = Some r)"
proof -
  obtain r where r: "locate m key = Some r" using locate_ends [OF assms] by blast
  then have "\<exists>g. hashmap_get m key = Some g"
    using locate_bucket(1) [of m key] by (cases r) (auto simp: hashmap_get_def)
  with r show ?thesis by (auto simp: hashmap_put_def hashmap_remove_def)
qed

theorem hashmap_returns_witness:
  "(\<exists>r. hashmap_put (hashmap_create 100 :: int HashMap) 7 1 = Some r) \<and>
   (\<exists>r. hashmap_get (hashmap_create 100 :: int HashMap) 7 = Some r) \<and>
   (\<exists>r. hashmap_remove (hashmap_create 100 :: int HashMap) 7 = Some r)"
proof -
  have "hm_ok (hashmap_create 100 :: int HashMap)" by (rule hm_ok_create) simp
  then have "hm_wf (hashmap_create 100 :: int HashMap)" by (simp add: hm_ok_def)
  then show ?thesis by (rule hashmap_returns)
qed

text \<open>Putting a list of keys, with the result of each call.\<close>

primrec put_keys :: "int list \<Rightarrow> int HashMap \<Rightarrow> (int list \<times> int HashMap) option" where
  "put_keys [] m = Some ([], m)"
| "put_keys (k # ks) m = do {
     (r, m) \<leftarrow> hashmap_put m k k;
     (rs, m) \<leftarrow> put_keys ks m;
     Some (r # rs, m)
   }"

declare probe.simps [code]

text \<open>
  A map of capacity 100 can refuse a key when it holds 10 of 100: the squares modulo 100 reach
  only some of the buckets. These eleven process ids fall on the same ones.
\<close>

theorem hashmap_put_fails_early:
  "map_option (\<lambda>(rs, m). (rs, msize m, capacity m))
     (put_keys [1000, 1115, 1144, 1259, 1374, 1403, 1518, 1633, 1777, 1892, 2007] (hashmap_create 100)) =
   Some ([1, 1, 1, 1, 1, 1, 1, 1, 1, 1, - 1], 10, 100)"
  by code_simp

text \<open>
  A hazard: \<open>hashmap_remove\<close> empties a bucket other keys' searches pass through: after putting 1000 and
  1115 and removing 1000, the key 1115 is not found although its node is in the table.
\<close>

theorem hashmap_remove_hides_key:
  "do { (rs, m) \<leftarrow> put_keys [1000, 1115] (hashmap_create 100);
        (r, m) \<leftarrow> hashmap_remove m 1000;
        g \<leftarrow> hashmap_get m 1115;
        Some (rs, r, g, msize m) } = Some ([1, 1], 0, None, 1)"
  by code_simp

end
