(* ===== verification/Linked_List.thy ===== *)
theory Linked_List
  imports Dnode_Heap
begin

text \<open>
  DS/linked_list.c: a doubly linked list that ends in NULL on both sides. The process generator
  keeps the processes that wait for memory in one.
\<close>

record 'a linked_list =
  ll_heap :: "'a heap"
  ll_head :: ptr
  ll_tail :: ptr
  ll_size :: int

definition create_linked_list :: "'a linked_list" where
  "create_linked_list = \<lparr>ll_heap = empty_heap, ll_head = NULL, ll_tail = NULL, ll_size = 0\<rparr>"

text \<open>The node is allocated in the heap the list lives in.\<close>

definition create_node :: "'a \<Rightarrow> 'a linked_list \<Rightarrow> ptr \<times> 'a linked_list" where
  "create_node obj l =
     (let (node, h) = malloc_node \<lparr>nxt = NULL, prv = NULL, cell = obj\<rparr> (ll_heap l)
      in (node, l\<lparr>ll_heap := h\<rparr>))"

text \<open>The code reads \<open>nodePtr->data\<close> for a trace before it touches the list.\<close>

definition add_node_to_back :: "'a linked_list \<Rightarrow> ptr \<Rightarrow> 'a linked_list option" where
  "add_node_to_back l node = do {
     n \<leftarrow> get_node (ll_heap l) node;
     let l = l\<lparr>ll_size := wrap32 (ll_size l + 1)\<rparr>;
     if ll_head l = NULL then Some (l\<lparr>ll_head := node, ll_tail := node\<rparr>)
     else do {
       h \<leftarrow> set_nxt (ll_heap l) (ll_tail l) node;
       h \<leftarrow> set_prv h node (ll_tail l);
       Some (l\<lparr>ll_heap := h, ll_tail := node\<rparr>)
     }
   }"

definition add_node_to_front :: "'a linked_list \<Rightarrow> ptr \<Rightarrow> 'a linked_list option" where
  "add_node_to_front l node =
     (let l = l\<lparr>ll_size := wrap32 (ll_size l + 1)\<rparr> in
      if ll_head l = NULL then Some (l\<lparr>ll_head := node, ll_tail := node\<rparr>)
      else do {
        h \<leftarrow> set_prv (ll_heap l) (ll_head l) node;
        h \<leftarrow> set_nxt h node (ll_head l);
        Some (l\<lparr>ll_heap := h, ll_head := node\<rparr>)
      })"

text \<open>Both removals at an end count the node down before they look whether there is one.\<close>

definition remove_node_from_front :: "'a linked_list \<Rightarrow> 'a linked_list option" where
  "remove_node_from_front l =
     (let l = l\<lparr>ll_size := wrap32 (ll_size l - 1)\<rparr> in
      if ll_head l = NULL then Some l
      else if ll_head l = ll_tail l then Some (l\<lparr>ll_head := NULL, ll_tail := NULL\<rparr>)
      else do {
        n \<leftarrow> get_node (ll_heap l) (ll_head l);
        h \<leftarrow> set_prv (ll_heap l) (nxt n) NULL;
        Some (l\<lparr>ll_heap := h, ll_head := nxt n\<rparr>)
      })"

definition remove_node_from_back :: "'a linked_list \<Rightarrow> 'a linked_list option" where
  "remove_node_from_back l =
     (let l = l\<lparr>ll_size := wrap32 (ll_size l - 1)\<rparr> in
      if ll_head l = NULL then Some l
      else if ll_head l = ll_tail l then Some (l\<lparr>ll_head := NULL, ll_tail := NULL\<rparr>)
      else do {
        n \<leftarrow> get_node (ll_heap l) (ll_tail l);
        h \<leftarrow> set_nxt (ll_heap l) (prv n) NULL;
        Some (l\<lparr>ll_heap := h, ll_tail := prv n\<rparr>)
      })"

definition remove_node :: "'a linked_list \<Rightarrow> ptr \<Rightarrow> 'a linked_list option" where
  "remove_node l node = do {
     l \<leftarrow> (if node = ll_head l then remove_node_from_front l
          else if node = ll_tail l then remove_node_from_back l
          else do {
            n \<leftarrow> get_node (ll_heap l) node;
            h \<leftarrow> set_nxt (ll_heap l) (prv n) (nxt n);
            n \<leftarrow> get_node h node;
            h \<leftarrow> set_prv h (nxt n) (prv n);
            Some (l\<lparr>ll_heap := h, ll_size := wrap32 (ll_size l - 1)\<rparr>)
          });
     h \<leftarrow> free_node (ll_heap l) node;
     Some (l\<lparr>ll_heap := h\<rparr>)
   }"

definition peek :: "'a linked_list \<Rightarrow> 'a option option" where
  "peek l =
     (if ll_head l = NULL then Some None
      else do { n \<leftarrow> get_node (ll_heap l) (ll_head l); Some (Some (cell n)) })"

definition free_linked_list :: "'a linked_list \<Rightarrow> 'a heap option" where
  "free_linked_list l = free_chain (ll_heap l) (ll_head l)"

section \<open>The list of nodes\<close>

definition ll_rep :: "'a linked_list \<Rightarrow> (ptr \<times> 'a) list \<Rightarrow> bool" where
  "ll_rep l xs \<longleftrightarrow> wf_heap (ll_heap l) \<and> seg (mem (ll_heap l)) NULL (ll_head l) xs NULL \<and>
     ll_tail l = last_addr NULL xs \<and> ll_size l = int (length xs) \<and> length xs < 2147483647"

lemma ll_rep_create: "ll_rep create_linked_list []"
  by (simp add: ll_rep_def create_linked_list_def)

lemma ll_rep_head: "ll_rep l xs \<Longrightarrow> (ll_head l = NULL) = (xs = [])"
  by (cases xs) (auto simp: ll_rep_def)

lemma ll_rep_size: "ll_rep l xs \<Longrightarrow> 0 \<le> ll_size l \<and> ll_size l < 2147483647"
  by (auto simp: ll_rep_def)

lemma ll_rep_distinct: "ll_rep l xs \<Longrightarrow> distinct (map fst xs)"
  unfolding ll_rep_def using seg_distinct by blast

lemma ll_rep_node:
  assumes "ll_rep l (us @ (p, v) # vs)"
  shows "p \<noteq> NULL" "mem (ll_heap l) p = Some \<lparr>nxt = (if vs = [] then NULL else fst (hd vs)),
    prv = last_addr NULL us, cell = v\<rparr>"
  using assms seg_node unfolding ll_rep_def by fastforce+

text \<open>A node just made by \<open>create_node\<close>, not yet in the list.\<close>

definition loose :: "'a linked_list \<Rightarrow> ptr \<Rightarrow> 'a \<Rightarrow> bool" where
  "loose l p v \<longleftrightarrow> p \<noteq> NULL \<and> mem (ll_heap l) p = Some \<lparr>nxt = NULL, prv = NULL, cell = v\<rparr>"

lemma create_node_rep:
  assumes "ll_rep l xs"
  shows "\<exists>p l'. create_node v l = (p, l') \<and> ll_rep l' xs \<and> loose l' p v \<and> p \<notin> addrs xs"
proof -
  have s: "seg (mem (ll_heap l)) NULL (ll_head l) xs NULL" and wf: "wf_heap (ll_heap l)"
    using assms by (simp_all add: ll_rep_def)
  have "brk (ll_heap l) \<notin> addrs xs" by (rule seg_fresh [OF s wf])
  then show ?thesis using assms wf_heap_malloc [OF wf] wf_heap_brk_pos [OF wf]
    by (auto simp: create_node_def malloc_node_def ll_rep_def loose_def)
qed

lemma add_node_to_back_rep:
  assumes rep: "ll_rep l xs" and p: "loose l p v" "p \<notin> addrs xs" and len: "length xs < 2147483646"
  shows "\<exists>l'. add_node_to_back l p = Some l' \<and> ll_rep l' (xs @ [(p, v)])"
proof (cases xs rule: rev_cases)
  case Nil
  then show ?thesis using rep p
    by (auto simp: add_node_to_back_def ll_rep_def loose_def heap_op c_int)
next
  case (snoc ys y)
  let ?m = "mem (ll_heap l)"
  have s: "seg ?m NULL (ll_head l) ys (fst y)" and hd: "ll_head l \<noteq> NULL"
    and y: "?m (fst y) = Some \<lparr>nxt = NULL, prv = last_addr NULL ys, cell = snd y\<rparr>"
      "fst y \<noteq> NULL" "fst y \<noteq> p" "fst y \<notin> addrs ys" and tl: "ll_tail l = fst y"
    using rep p(2) snoc ll_rep_head [OF rep] ll_rep_distinct [OF rep] by (auto simp: ll_rep_def)
  let ?h = "(ll_heap l)\<lparr>mem := ?m(fst y \<mapsto> \<lparr>nxt = p, prv = last_addr NULL ys, cell = snd y\<rparr>,
                               p \<mapsto> \<lparr>nxt = NULL, prv = fst y, cell = v\<rparr>)\<rparr>"
  let ?l = "l\<lparr>ll_heap := ?h, ll_tail := p, ll_size := int (length xs) + 1\<rparr>"
  have "add_node_to_back l p = Some ?l"
    using p(1) y hd tl rep len
    by (simp add: add_node_to_back_def loose_def heap_op put_node_def ll_rep_def c_int)
  moreover have "seg (mem ?h) NULL (ll_head l) ys (fst y)" using s y p(2) snoc by simp
  then have "ll_rep ?l (xs @ [(p, v)])"
    using rep p y snoc len by (auto simp: ll_rep_def loose_def wf_heap_def)
  ultimately show ?thesis by blast
qed

lemma add_node_to_front_rep:
  assumes rep: "ll_rep l xs" and p: "loose l p v" "p \<notin> addrs xs" and len: "length xs < 2147483646"
  shows "\<exists>l'. add_node_to_front l p = Some l' \<and> ll_rep l' ((p, v) # xs)"
proof (cases xs)
  case Nil
  then show ?thesis using rep p
    by (auto simp: add_node_to_front_def ll_rep_def loose_def heap_op c_int)
next
  case (Cons y ys)
  let ?m = "mem (ll_heap l)"
  obtain q where y: "?m (fst y) = Some \<lparr>nxt = q, prv = NULL, cell = snd y\<rparr>" "ll_head l = fst y"
    "fst y \<noteq> NULL" "fst y \<noteq> p" "fst y \<notin> addrs ys" "seg ?m (fst y) q ys NULL"
    using rep p(2) Cons ll_rep_distinct [OF rep] by (auto simp: ll_rep_def)
  let ?h = "(ll_heap l)\<lparr>mem := ?m(fst y \<mapsto> \<lparr>nxt = q, prv = p, cell = snd y\<rparr>,
                               p \<mapsto> \<lparr>nxt = fst y, prv = NULL, cell = v\<rparr>)\<rparr>"
  let ?l = "l\<lparr>ll_heap := ?h, ll_head := p, ll_size := int (length xs) + 1\<rparr>"
  have "add_node_to_front l p = Some ?l"
    using p(1) y rep len
    by (simp add: add_node_to_front_def loose_def heap_op put_node_def ll_rep_def c_int)
  moreover have "seg (mem ?h) (fst y) q ys NULL" using y p(2) Cons by simp
  then have "ll_rep ?l ((p, v) # xs)"
    using rep p y Cons len by (auto simp: ll_rep_def loose_def wf_heap_def)
  ultimately show ?thesis by blast
qed

section \<open>Removal\<close>

lemma ll_rep_free:
  assumes "ll_rep l xs" "p \<notin> addrs xs" "p \<noteq> NULL" "mem (ll_heap l) p = Some n"
  shows "\<exists>h. free_node (ll_heap l) p = Some h \<and> ll_rep (l\<lparr>ll_heap := h\<rparr>) xs"
  using assms by (auto simp: ll_rep_def heap_op)

lemma remove_only:
  assumes rep: "ll_rep l [(p, v)]"
  shows "\<exists>l'. remove_node l p = Some l' \<and> ll_rep l' []"
proof -
  let ?h = "(ll_heap l)\<lparr>mem := (mem (ll_heap l))(p := None)\<rparr>"
  let ?l = "l\<lparr>ll_heap := ?h, ll_head := NULL, ll_tail := NULL, ll_size := 0\<rparr>"
  have "ll_head l = p" "ll_tail l = p" "p \<noteq> NULL" "ll_size l = 1"
    "mem (ll_heap l) p = Some \<lparr>nxt = NULL, prv = NULL, cell = v\<rparr>"
    using rep by (auto simp: ll_rep_def)
  then have "remove_node l p = Some ?l"
    by (simp add: remove_node_def remove_node_from_front_def heap_op c_int)
  moreover have "ll_rep ?l []" using rep by (simp add: ll_rep_def wf_heap_free)
  ultimately show ?thesis by blast
qed

lemma remove_first:
  assumes rep: "ll_rep l ((p, v) # y # vs)"
  shows "\<exists>l'. remove_node l p = Some l' \<and> ll_rep l' (y # vs)"
proof -
  let ?m = "mem (ll_heap l)"
  obtain q where y: "?m (fst y) = Some \<lparr>nxt = q, prv = p, cell = snd y\<rparr>" "fst y \<noteq> NULL"
    "fst y \<noteq> p" "fst y \<notin> addrs vs" "seg ?m (fst y) q vs NULL" "p \<notin> addrs vs"
    using rep ll_rep_distinct [OF rep] by (auto simp: ll_rep_def)
  have p: "ll_head l = p" "p \<noteq> NULL" "?m p = Some \<lparr>nxt = fst y, prv = NULL, cell = v\<rparr>"
    using rep by (auto simp: ll_rep_def)
  have tl: "ll_tail l = last_addr (fst y) vs" using rep by (simp add: ll_rep_def)
  have ne: "p \<noteq> last_addr (fst y) vs"
    using y(3,6) last_addr_in [of vs "fst y"] by (cases "vs = []") auto
  let ?h = "(ll_heap l)\<lparr>mem := ?m(fst y \<mapsto> \<lparr>nxt = q, prv = NULL, cell = snd y\<rparr>, p := None)\<rparr>"
  let ?l = "l\<lparr>ll_heap := ?h, ll_head := fst y, ll_size := ll_size l - 1\<rparr>"
  have run: "remove_node l p = Some ?l"
    using p y(1-3) tl ne ll_rep_size [OF rep]
    by (simp add: remove_node_def remove_node_from_front_def heap_op put_node_def c_int)
  have "seg (mem ?h) (fst y) q vs NULL" using y(4-6) by simp
  then have "seg (mem ?h) NULL (fst y) (y # vs) NULL" using y(2,3) by simp
  moreover have "wf_heap (ll_heap l)" using rep by (simp add: ll_rep_def)
  then have "wf_heap ?h" using y(1) unfolding wf_heap_def by (simp add: fun_upd_def dom_def)
  ultimately have "ll_rep ?l (y # vs)" using rep tl by (simp add: ll_rep_def)
  then show ?thesis using run by blast
qed

lemma remove_last:
  assumes rep: "ll_rep l (us @ [y, (p, v)])"
  shows "\<exists>l'. remove_node l p = Some l' \<and> ll_rep l' (us @ [y])"
proof -
  let ?m = "mem (ll_heap l)"
  have y: "?m (fst y) = Some \<lparr>nxt = p, prv = last_addr NULL us, cell = snd y\<rparr>" "fst y \<noteq> NULL"
    "fst y \<noteq> p" "fst y \<notin> addrs us" "seg ?m NULL (ll_head l) us (fst y)" "p \<notin> addrs us"
    using rep ll_rep_distinct [OF rep] by (auto simp: ll_rep_def)
  have p: "ll_tail l = p" "p \<noteq> NULL" "?m p = Some \<lparr>nxt = NULL, prv = fst y, cell = v\<rparr>"
    using rep by (auto simp: ll_rep_def)
  have hd: "ll_head l \<noteq> p" "ll_head l \<noteq> NULL" using y by (cases us; auto)+
  let ?h = "(ll_heap l)\<lparr>mem := ?m(fst y \<mapsto> \<lparr>nxt = NULL, prv = last_addr NULL us, cell = snd y\<rparr>,
                               p := None)\<rparr>"
  let ?l = "l\<lparr>ll_heap := ?h, ll_tail := fst y, ll_size := ll_size l - 1\<rparr>"
  have "remove_node l p = Some ?l"
    using p y(1-3) hd ll_rep_size [OF rep]
    by (simp add: remove_node_def remove_node_from_back_def heap_op put_node_def c_int)
  moreover have "seg (mem ?h) NULL (ll_head l) us (fst y)" using y by simp
  then have "ll_rep ?l (us @ [y])" using rep y by (auto simp: ll_rep_def wf_heap_def)
  ultimately show ?thesis by blast
qed

lemma remove_middle:
  assumes rep: "ll_rep l (us @ (p, v) # vs)" and ne: "us \<noteq> []" "vs \<noteq> []"
  shows "\<exists>l'. remove_node l p = Some l' \<and> ll_rep l' (us @ vs)"
proof -
  let ?m = "mem (ll_heap l)" and ?b = "last_addr NULL us" and ?c = "fst (hd vs)"
  have s: "seg ?m NULL (ll_head l) (us @ (p, v) # vs) NULL" and wf: "wf_heap (ll_heap l)"
    using rep by (simp_all add: ll_rep_def)
  note d = ll_rep_distinct [OF rep]
  note p = ll_rep_node [OF rep]
  have b_in: "?b \<in> addrs us" and c_in: "?c \<in> addrs vs" using ne by (auto intro: last_addr_in)
  have dis: "addrs us \<inter> addrs vs = {}" "p \<notin> addrs us" "p \<notin> addrs vs" using d by auto
  have neq: "?b \<noteq> p" "?c \<noteq> p" "?b \<noteq> ?c"
    by (rule notI, use b_in c_in dis in \<open>simp only: disjoint_iff\<close>; fail)+
  have p_out: "p \<notin> addrs (us @ vs)" using dis by (simp add: image_Un)
  have in_m: "a \<in> addrs us \<union> addrs vs \<Longrightarrow> a \<noteq> NULL \<and> (\<exists>k. ?m a = Some k)" for a
    using seg_in_heap [OF s] by fastforce
  obtain nb nc where nb: "?m ?b = Some nb" "?b \<noteq> NULL" and nc: "?m ?c = Some nc" "?c \<noteq> NULL"
    using in_m b_in c_in by blast
  let ?m2 = "?m(?b \<mapsto> nb\<lparr>nxt := ?c\<rparr>, ?c \<mapsto> nc\<lparr>prv := ?b\<rparr>)"
  have s2: "seg ?m2 NULL (ll_head l) (us @ vs) NULL"
    using seg_unlink [OF s d ne nb(1) refl] nc(1) neq by simp
  have "p \<noteq> ll_head l" using seg_first [OF s] ne(1) dis(2) by auto
  moreover have tl: "ll_tail l = last_addr NULL vs"
    using rep last_addr_nonempty [OF ne(2)] by (simp add: ll_rep_def)
  then have "p \<noteq> ll_tail l" using last_addr_in [OF ne(2), of NULL] dis(3) by auto
  ultimately have ends: "p \<noteq> ll_head l" "p \<noteq> ll_tail l" by auto
  let ?h = "(ll_heap l)\<lparr>mem := ?m2(p := None)\<rparr>"
  let ?l = "l\<lparr>ll_heap := ?h, ll_size := ll_size l - 1\<rparr>"
  have "remove_node l p = Some ?l"
    using p ends nb nc neq(1-3) ne ll_rep_size [OF rep]
    by (simp add: remove_node_def heap_op put_node_def c_int)
  moreover have "seg (mem ?h) NULL (ll_head l) (us @ vs) NULL" using s2 seg_upd [OF p_out, of ?m2 None] by (simp del: seg_append)
  moreover have "wf_heap ?h" using wf nb nc by (auto simp: wf_heap_def)
  then have "ll_rep ?l (us @ vs)"
    using calculation(2) rep tl last_addr_nonempty [OF ne(2), of ?b] by (simp add: ll_rep_def)
  ultimately show ?thesis by blast
qed

lemma remove_node_rep:
  assumes rep: "ll_rep l (us @ (p, v) # vs)"
  shows "\<exists>l'. remove_node l p = Some l' \<and> ll_rep l' (us @ vs)"
proof (cases us rule: rev_cases)
  case Nil
  then show ?thesis using rep remove_only [of l p v] remove_first [of l p v] by (cases vs) auto
next
  case (snoc ws y)
  then show ?thesis using rep remove_last [of l ws y p v] remove_middle [OF rep] by (cases vs) auto
qed

lemma peek_rep: "ll_rep l xs \<Longrightarrow> peek l = Some (if xs = [] then None else Some (snd (hd xs)))"
  using ll_rep_node [of l "[]" "fst (hd xs)" "snd (hd xs)" "tl xs"] ll_rep_head [of l xs]
  by (cases xs) (auto simp: peek_def heap_op, auto simp: ll_rep_def heap_op)

lemma free_linked_list_rep:
  "ll_rep l xs \<Longrightarrow>
   free_linked_list l = Some ((ll_heap l)\<lparr>mem := mem (ll_heap l) |` (- addrs xs)\<rparr>)"
  unfolding free_linked_list_def ll_rep_def using free_chain_seg by blast

section \<open>Properties\<close>

text \<open>The list after \<open>create_node\<close> and \<open>add_node_to_back\<close>, as the process generator queues a process.\<close>

definition push_back :: "'a \<Rightarrow> 'a linked_list \<Rightarrow> 'a linked_list option" where
  "push_back obj l = (let (node, l) = create_node obj l in add_node_to_back l node)"

text \<open>
  Queueing an object at the back of a list appends it to the objects the list holds, at an
  address no other node has.
\<close>

theorem push_back_appends:
  assumes "ll_rep l xs" "length xs < 2147483646"
  shows "\<exists>p l'. push_back obj l = Some l' \<and> ll_rep l' (xs @ [(p, obj)]) \<and> p \<notin> addrs xs"
proof -
  obtain p l1 where c: "create_node obj l = (p, l1)" "ll_rep l1 xs" "loose l1 p obj" "p \<notin> addrs xs"
    using create_node_rep [OF assms(1)] by blast
  from add_node_to_back_rep [OF c(2-4) assms(2)] c show ?thesis by (auto simp: push_back_def)
qed

theorem push_back_appends_witness:
  "\<exists>p l'. push_back ''P1'' create_linked_list = Some l' \<and> ll_rep l' [(p, ''P1'')]"
  using push_back_appends [OF ll_rep_create, of "''P1''"] by simp

text \<open>
  \<open>remove_node\<close> takes the node at any position out of a list, front, back and middle, keeps the
  others in order and linked in both directions, and frees the node's memory.
\<close>

theorem remove_node_removes:
  assumes "ll_rep l (us @ (p, v) # vs)"
  shows "\<exists>l'. remove_node l p = Some l' \<and> ll_rep l' (us @ vs) \<and> mem (ll_heap l') p = None"
proof -
  obtain l' where l': "remove_node l p = Some l'" "ll_rep l' (us @ vs)"
    using remove_node_rep [OF assms] by blast
  obtain h where "free_node h p = Some (ll_heap l')"
    using l'(1) unfolding remove_node_def bind_eq_Some_conv by auto
  then have "mem (ll_heap l') p = None"
    using ll_rep_node(1) [OF assms] by (auto simp: free_node_def dest!: sym [of _ "ll_heap l'"] split: option.splits)
  with l' show ?thesis by blast
qed

theorem remove_node_removes_witness:
  "\<exists>p l l'. push_back ''P1'' create_linked_list = Some l \<and> remove_node l p = Some l' \<and> ll_rep l' []"
proof -
  have e: "ll_rep (create_linked_list :: string linked_list) []" by (rule ll_rep_create)
  obtain p l1 where c: "create_node ''P1'' create_linked_list = (p, l1)" "ll_rep l1 []" "loose l1 p ''P1''"
    using create_node_rep [OF e] by blast
  obtain l where l: "push_back ''P1'' create_linked_list = Some l" "ll_rep l [(p, ''P1'')]"
    using add_node_to_back_rep [OF c(2,3)] c(1) by (auto simp: push_back_def)
  from remove_node_removes [of l "[]" p "''P1''" "[]"] l show ?thesis by auto
qed

text \<open>\<open>free_linked_list\<close> frees the nodes of the list and no other memory.\<close>

theorem free_linked_list_frees:
  assumes "ll_rep l xs"
  shows "free_linked_list l = Some ((ll_heap l)\<lparr>mem := mem (ll_heap l) |` (- addrs xs)\<rparr>)"
  by (rule free_linked_list_rep [OF assms])

theorem free_linked_list_frees_witness:
  "free_linked_list (create_linked_list :: int linked_list) =
     Some ((ll_heap (create_linked_list :: int linked_list))
       \<lparr>mem := mem (ll_heap (create_linked_list :: int linked_list)) |` (- addrs ([] :: (ptr \<times> int) list))\<rparr>)"
  by (rule free_linked_list_frees [OF ll_rep_create])

end
