(* ===== verification/Text_Format.thy ===== *)
theory Text_Format
  imports Prelude
begin

text \<open>
  The parts of C's \<open>stdio\<close> the source reads and writes numbers with: \<open>%d\<close> of \<open>printf\<close> and \<open>sscanf\<close>,
  \<open>%.2f\<close> of \<open>snprintf\<close>, \<open>fgets\<close> and \<open>atoi\<close>, on strings as lists of characters.
\<close>

section \<open>Printing\<close>

definition digit :: "nat \<Rightarrow> char" where
  "digit n = char_of (48 + n)"

fun digits :: "nat \<Rightarrow> string" where
  "digits n = (if n < 10 then [digit n] else digits (n div 10) @ [digit (n mod 10)])"

declare digits.simps [simp del]

definition print_int :: "int \<Rightarrow> string" where
  "print_int i = (if i < 0 then CHR ''-'' # digits (nat (- i)) else digits (nat i))"

section \<open>Scanning\<close>

definition char_code :: "char \<Rightarrow> nat" where "char_code c = of_char c"

definition is_digit :: "char \<Rightarrow> bool" where
  "is_digit c \<longleftrightarrow> 48 \<le> char_code c \<and> char_code c \<le> 57"

text \<open>\<open>isspace\<close>: blank, and tab to carriage return.\<close>

definition is_space :: "char \<Rightarrow> bool" where
  "is_space c \<longleftrightarrow> char_code c = 32 \<or> 9 \<le> char_code c \<and> char_code c \<le> 13"

definition digit_value :: "string \<Rightarrow> nat" where
  "digit_value cs = foldl (\<lambda>a c. a * 10 + (char_code c - 48)) 0 cs"

text \<open>
  \<open>%d\<close> of \<open>sscanf\<close> skips white space and reads an optional sign and the digits that follow. The
  inner \<open>None\<close> is a matching failure; a number that does not fit an \<open>int\<close> is undefined in C.
\<close>

definition split_sign :: "string \<Rightarrow> int \<times> string" where
  "split_sign cs =
     (case cs of
        c # cs' \<Rightarrow> if c = CHR ''-'' then (- 1, cs') else if c = CHR ''+'' then (1, cs') else (1, cs)
      | [] \<Rightarrow> (1, []))"

definition scan_int :: "string \<Rightarrow> (int \<times> string) option option" where
  "scan_int s =
     (let (sign, cs) = split_sign (dropWhile is_space s); ds = takeWhile is_digit cs;
          v = sign * int (digit_value ds)
      in if ds = [] then Some None
         else if in_int v then Some (Some (v, dropWhile is_digit cs)) else None)"

text \<open>\<open>atoi\<close> is 0 where there is no number.\<close>

definition atoi :: "string \<Rightarrow> int option" where
  "atoi s = do { r \<leftarrow> scan_int s; Some (case r of None \<Rightarrow> 0 | Some (v, _) \<Rightarrow> v) }"

text \<open>One \<open>fgets(line, n + 1, file)\<close>: at most \<open>n\<close> characters, up to and with a newline.\<close>

abbreviation newline :: char where "newline \<equiv> CHR 0x0A"

abbreviation tab :: char where "tab \<equiv> CHR 0x09"

primrec take_line :: "nat \<Rightarrow> string \<Rightarrow> string \<times> string" where
  "take_line 0 s = ([], s)"
| "take_line (Suc n) s =
     (case s of
        [] \<Rightarrow> ([], [])
      | c # cs \<Rightarrow> if c = newline then ([c], cs)
                  else (let (l, r) = take_line n cs in (c # l, r)))"

definition fgets :: "nat \<Rightarrow> string \<Rightarrow> (string \<times> string) option" where
  "fgets n s = (if s = [] then None else Some (take_line n s))"

section \<open>What is printed is read back\<close>

lemma char_code_digit [simp]: "n < 10 \<Longrightarrow> char_code (digit n) = 48 + n"
  by (simp add: char_code_def digit_def)

lemma digit_not_sign: "is_digit c \<Longrightarrow> c \<noteq> CHR ''-'' \<and> c \<noteq> CHR ''+'' \<and> \<not> is_space c \<and> c \<noteq> newline \<and> c \<noteq> CHR ''#''"
  by (auto simp: is_digit_def char_code_def is_space_def)

lemma is_digit_digit [simp]: "n < 10 \<Longrightarrow> is_digit (digit n)"
  by (simp add: is_digit_def)

lemma digits_digit: "c \<in> set (digits n) \<Longrightarrow> is_digit c"
proof (induct n rule: digits.induct)
  case (1 n)
  then show ?case by (cases "n < 10") (auto simp: digits.simps [of n])
qed

lemma digits_nonempty [simp]: "digits n \<noteq> []"
  by (subst digits.simps) simp

lemma digit_value_snoc: "digit_value (cs @ [c]) = digit_value cs * 10 + (char_code c - 48)"
  by (simp add: digit_value_def)

lemma digit_value_digits [simp]: "digit_value (digits n) = n"
proof (induct n rule: digits.induct)
  case (1 n)
  show ?case
  proof (cases "n < 10")
    case True
    then show ?thesis by (simp add: digits.simps [of n] digit_value_def)
  next
    case False
    then have "digit_value (digits n) = digit_value (digits (n div 10)) * 10 + n mod 10"
      by (simp add: digits.simps [of n] digit_value_snoc)
    then show ?thesis using 1 [OF False] by simp
  qed
qed

definition no_digit_first :: "string \<Rightarrow> bool" where
  "no_digit_first s \<longleftrightarrow> (case s of [] \<Rightarrow> True | c # _ \<Rightarrow> \<not> is_digit c)"

lemma takeWhile_digits: "no_digit_first s \<Longrightarrow> takeWhile is_digit (digits n @ s) = digits n"
  by (subst takeWhile_append2) (auto dest: digits_digit simp: no_digit_first_def split: list.splits)

lemma dropWhile_digits: "no_digit_first s \<Longrightarrow> dropWhile is_digit (digits n @ s) = s"
  by (subst dropWhile_append2) (auto dest: digits_digit simp: no_digit_first_def split: list.splits)

lemma digits_first: "\<exists>c cs. digits n = c # cs \<and> is_digit c"
  using digits_nonempty [of n] digits_digit [of "hd (digits n)" n] by (cases "digits n") auto

lemma split_sign_print:
  "split_sign (dropWhile is_space (print_int i @ s)) =
   (if i < 0 then - 1 else 1, digits (nat \<bar>i\<bar>) @ s)"
proof (cases "i < 0")
  case True
  then show ?thesis by (simp add: print_int_def split_sign_def is_space_def char_code_def)
next
  case False
  obtain c cs where "digits (nat i) = c # cs" "is_digit c" using digits_first by blast
  with False show ?thesis using digit_not_sign [of c] by (simp add: print_int_def split_sign_def)
qed

lemma scan_int_print:
  assumes "in_int i" "no_digit_first s"
  shows "scan_int (print_int i @ s) = Some (Some (i, s))"
  using assms
  by (simp add: scan_int_def split_sign_print takeWhile_digits dropWhile_digits Let_def)

lemma scan_int_space: "is_space c \<Longrightarrow> scan_int (c # s) = scan_int s"
  by (simp add: scan_int_def)

lemma print_int_no_newline: "c \<in> set (print_int i) \<Longrightarrow> c \<noteq> newline \<and> c \<noteq> CHR ''#''"
  using digit_not_sign by (auto simp: print_int_def dest!: digits_digit split: if_splits)

lemma print_int_nonempty [simp]: "print_int i \<noteq> []"
  by (simp add: print_int_def)

lemma length_digits_le: "n < 10 ^ k \<Longrightarrow> 0 < k \<Longrightarrow> length (digits n) \<le> k"
proof (induct n arbitrary: k rule: digits.induct)
  case (1 n)
  show ?case
  proof (cases "n < 10")
    case True
    then show ?thesis using 1 by (simp add: digits.simps [of n])
  next
    case False
    then have "k \<noteq> 1" using 1(2) by auto
    then obtain j where j: "k = Suc j" "0 < j" using 1(3) by (cases k) auto
    then have "n div 10 < 10 ^ j" using 1(2) by (simp add: less_mult_imp_div_less)
    then show ?thesis using 1(1) [OF False] j False by (simp add: digits.simps [of n])
  qed
qed

lemma length_print_int:
  assumes "in_int i"
  shows "length (print_int i) \<le> 11"
proof -
  have "length (digits (nat \<bar>i\<bar>)) \<le> 10" using assms by (intro length_digits_le) (auto simp: in_int_def)
  then show ?thesis by (cases "i < 0") (simp_all add: print_int_def)
qed

lemma take_line_newline:
  "newline \<notin> set l \<Longrightarrow> length l < n \<Longrightarrow> take_line n (l @ newline # s) = (l @ [newline], s)"
proof (induct l arbitrary: n)
  case Nil
  then show ?case by (cases n) auto
next
  case (Cons c l)
  then obtain j where "n = Suc j" by (cases n) auto
  with Cons show ?case by auto
qed

lemma take_line_split: "take_line n s = (l, r) \<Longrightarrow> s = l @ r"
  by (induct n arbitrary: s l r) (auto split: list.splits if_splits prod.splits)

lemma take_line_nonempty: "take_line n s = (l, r) \<Longrightarrow> s \<noteq> [] \<Longrightarrow> 0 < n \<Longrightarrow> l \<noteq> []"
  by (cases n) (auto split: list.splits if_splits prod.splits)

lemma fgets_shorter: "fgets n s = Some (l, r) \<Longrightarrow> 0 < n \<Longrightarrow> length r < length s"
  using take_line_split [of n s l r] take_line_nonempty [of n s l r]
  by (auto simp: fgets_def split: if_splits)

end
