(* ===== verification/File_Handlers.thy ===== *)
theory File_Handlers
  imports Text_Format Complex_Main
begin

text \<open>
  process.h and PCB.h (what a process is, in the input file and at run time) and file_handlers.c: the
  input file, the scheduler's and the memory manager's logs and the performance summary.

  A file that is read is the string of its characters; a log that is written is the list of its
  entries, with the text of each given by the \<open>print\<close> function of its \<open>fprintf\<close>. The source's
  \<open>double\<close>s are real numbers: rounding errors of the arithmetic are not modelled, and a division by
  zero, whose result is no number, is \<open>None\<close>.
\<close>

section \<open>Processes\<close>

record Process =
  proc_id :: int
  arrival_time :: int
  runtime :: int
  proc_priority :: int
  memory_size :: int

text \<open>\<open>state\<close> and \<open>memory_block\<close> are not initialised by the process generator: \<open>None\<close> until assigned.\<close>

record PCB =
  pid :: int
  start_time :: int
  wait_time :: int
  remaining_time :: int
  state :: "string option"
  memory_block :: "ptr option"
  PDATA :: Process

section \<open>Reading the input file\<close>

definition scan_process :: "string \<Rightarrow> Process option option" where
  "scan_process line = do {
     r1 \<leftarrow> scan_int line;
     case r1 of None \<Rightarrow> Some None | Some (a, line) \<Rightarrow> do {
     r2 \<leftarrow> scan_int line;
     case r2 of None \<Rightarrow> Some None | Some (b, line) \<Rightarrow> do {
     r3 \<leftarrow> scan_int line;
     case r3 of None \<Rightarrow> Some None | Some (c, line) \<Rightarrow> do {
     r4 \<leftarrow> scan_int line;
     case r4 of None \<Rightarrow> Some None | Some (d, line) \<Rightarrow> do {
     r5 \<leftarrow> scan_int line;
     case r5 of None \<Rightarrow> Some None | Some (e, line) \<Rightarrow>
       Some (Some \<lparr>proc_id = a, arrival_time = b, runtime = c, proc_priority = d, memory_size = e\<rparr>)
     }}}}}"

text \<open>
  The reading loop; \<open>ps\<close> is \<open>*process_list\<close>. The exit code is 0 with the list, or 1 when a line
  does not scan (the list is freed then). A line buffer holds 255 characters.
\<close>

function read_lines :: "string \<Rightarrow> Process list \<Rightarrow> (int \<times> Process list) option" where
  "read_lines file ps =
     (case fgets 255 file of
        None \<Rightarrow> Some (0, ps)
      | Some (line, file') \<Rightarrow>
          if hd line = CHR ''#'' \<or> hd line = newline then read_lines file' ps
          else do {
            r \<leftarrow> scan_process line;
            case r of None \<Rightarrow> Some (1, []) | Some p \<Rightarrow> read_lines file' (ps @ [p])
          })"
  by pat_completeness auto

termination
  by (relation "measure (\<lambda>(file, ps). length file)") (auto dest: fgets_shorter)

declare read_lines.simps [simp del]

text \<open>\<open>None\<close> as the file is a failed \<open>fopen\<close>.\<close>

definition read_input_file :: "string option \<Rightarrow> (int \<times> Process list) option" where
  "read_input_file file = (case file of None \<Rightarrow> Some (1, []) | Some content \<Rightarrow> read_lines content [])"

section \<open>\<open>round_number\<close>\<close>

text \<open>\<open>%.2f\<close>: two decimals, rounded to nearest, ties to even.\<close>

definition round_even :: "real \<Rightarrow> int" where
  "round_even y =
     (let f = \<lfloor>y\<rfloor>; d = y - of_int f
      in if d < 1 / 2 \<or> d = 1 / 2 \<and> even f then f else f + 1)"

definition print_2f :: "real \<Rightarrow> string" where
  "print_2f x =
     (let n = nat (round_even (100 * \<bar>x\<bar>)) in
      (if x < 0 then [CHR ''-''] else []) @ digits (n div 100) @
      [CHR ''.'', digit (n div 10 mod 10), digit (n mod 10)])"

function strip_zeros :: "string \<Rightarrow> string" where
  "strip_zeros s = (if s \<noteq> [] \<and> last s = CHR ''0'' then strip_zeros (butlast s) else s)"
  by pat_completeness auto

termination
  by (relation "measure length") auto

declare strip_zeros.simps [simp del]

definition strip_point :: "string \<Rightarrow> string" where
  "strip_point s = (if s \<noteq> [] \<and> last s = CHR ''.'' then butlast s else s)"

text \<open>\<open>sizeof(str)\<close> is the size of a pointer, 8, so \<open>snprintf\<close> writes at most 7 characters.\<close>

definition round_number :: "real \<Rightarrow> string" where
  "round_number x = strip_point (strip_zeros (take 7 (print_2f x)))"

section \<open>The scheduler's log\<close>

record log_entry =
  at_time :: int
  process_id :: int
  event :: string
  arr :: int
  total :: int
  remain :: int
  waited :: int
  finished :: "(int \<times> string) option"

definition print_entry :: "log_entry \<Rightarrow> string" where
  "print_entry e =
     ''At time '' @ print_int (at_time e) @ '' process '' @ print_int (process_id e) @ '' '' @ event e @
     '' arr '' @ print_int (arr e) @ '' total '' @ print_int (total e) @
     '' remain '' @ print_int (remain e) @ '' wait '' @ print_int (waited e) @
     (case finished e of None \<Rightarrow> [] | Some (ta, wta) \<Rightarrow> '' TA '' @ print_int ta @ '' WTA '' @ wta) @
     [newline]"

record log_files =
  total_WTA :: real
  total_wait :: int
  proc_count :: int
  scheduler_log :: "log_entry list"

definition init_scheduler_log :: "int \<Rightarrow> log_files" where
  "init_scheduler_log n = \<lparr>total_WTA = 0, total_wait = 0, proc_count = n, scheduler_log = []\<rparr>"

definition scheduler_log_text :: "log_files \<Rightarrow> string" where
  "scheduler_log_text f =
     ''At time x process y state arr w total z remain y wait k'' @ [newline] @
     concat (map print_entry (scheduler_log f))"

definition double_div :: "real \<Rightarrow> real \<Rightarrow> real option" where
  "double_div x y = (if y = 0 then None else Some (x / y))"

text \<open>\<open>log_event\<close> for a process that is not NULL; \<open>strcmp\<close> on an unset \<open>state\<close> is undefined.\<close>

definition log_event :: "int \<Rightarrow> PCB \<Rightarrow> log_files \<Rightarrow> log_files option" where
  "log_event current_time pcb f = do {
     let process = PDATA pcb;
     st \<leftarrow> state pcb;
     let e = \<lparr>at_time = current_time, process_id = proc_id process, event = st,
       arr = arrival_time process, total = runtime process, remain = remaining_time pcb,
       waited = wait_time pcb, finished = None\<rparr>;
     if st = ''finished'' then do {
       let TA = wrap32 (current_time - arrival_time process);
       WTA \<leftarrow> double_div (of_int TA) (of_int (runtime process));
       Some (f\<lparr>total_WTA := total_WTA f + WTA,
         total_wait := wrap32 (total_wait f + wait_time pcb),
         scheduler_log := scheduler_log f @ [e\<lparr>finished := Some (TA, round_number WTA)\<rparr>]\<rparr>)
     } else Some (f\<lparr>scheduler_log := scheduler_log f @ [e]\<rparr>)
   }"

section \<open>The memory log\<close>

record memory_entry =
  mem_time :: int
  mem_verb :: string
  mem_bytes :: int
  mem_process :: int
  mem_first :: int
  mem_last :: int

definition print_memory_entry :: "memory_entry \<Rightarrow> string" where
  "print_memory_entry e =
     ''At time '' @ print_int (mem_time e) @ '' '' @ mem_verb e @ '' '' @ print_int (mem_bytes e) @
     '' bytes for process '' @ print_int (mem_process e) @ '' from '' @ print_int (mem_first e) @
     '' to '' @ print_int (mem_last e) @ [newline]"

section \<open>The performance summary\<close>

record perf_out =
  perf_cpu :: string
  perf_wta :: string
  perf_wait :: string
  perf_std :: string

text \<open>
  \<open>WTAs\<close> is the array \<open>init_scheduler_log\<close> allocates; nothing writes to it, so its contents are what
  \<open>malloc\<close> returned, and an argument here.
\<close>

definition scheduler_perf_out :: "real list \<Rightarrow> log_files \<Rightarrow> int \<Rightarrow> int \<Rightarrow> perf_out option" where
  "scheduler_perf_out WTAs f total_idle total_time = do {
     avg_wta \<leftarrow> double_div (total_WTA f) (of_int (proc_count f));
     avg_wait \<leftarrow> double_div (of_int (total_wait f)) (of_int (proc_count f));
     diff_square_sum \<leftarrow>
       (if length WTAs < nat (proc_count f) then None
        else Some (foldl (\<lambda>acc i. acc + (WTAs ! i - avg_wta) * (WTAs ! i - avg_wta)) 0
                     [0..<nat (proc_count f)]));
     variance \<leftarrow> double_div diff_square_sum (of_int (proc_count f));
     idle \<leftarrow> double_div (of_int total_idle) (of_int total_time);
     Some \<lparr>perf_cpu = round_number ((1 - idle) * 100), perf_wta = round_number avg_wta,
           perf_wait = round_number avg_wait, perf_std = round_number (sqrt variance)\<rparr>
   }"

section \<open>Files the test generator writes are read back\<close>

text \<open>
  test_generator.c: the header line and one line per process, with the fields drawn by \<open>rand()\<close>; \<open>rnd\<close>
  gives the results of its calls in order.
\<close>

definition print_process :: "Process \<Rightarrow> string" where
  "print_process p =
     print_int (proc_id p) @ [tab] @ print_int (arrival_time p) @ [tab] @ print_int (runtime p) @ [tab] @
     print_int (proc_priority p) @ [tab] @ print_int (memory_size p) @ [newline]"

primrec generate :: "(nat \<Rightarrow> int) \<Rightarrow> nat \<Rightarrow> int \<Rightarrow> int \<Rightarrow> nat \<Rightarrow> Process list" where
  "generate rnd 0 i t k = []"
| "generate rnd (Suc n) i t k =
     (let t = wrap32 (t + rnd k mod 11) in
      \<lparr>proc_id = i, arrival_time = t, runtime = rnd (k + 1) mod 30,
       proc_priority = rnd (k + 2) mod 11, memory_size = rnd (k + 3) mod 256\<rparr> #
      generate rnd n (wrap32 (i + 1)) t (k + 4))"

definition generated_file :: "(nat \<Rightarrow> int) \<Rightarrow> nat \<Rightarrow> string" where
  "generated_file rnd no =
     ''#id arrival runtime priority memsize'' @ [newline] @
     concat (map print_process (generate rnd no 1 1 0))"

definition process_in_int :: "Process \<Rightarrow> bool" where
  "process_in_int p \<longleftrightarrow> in_int (proc_id p) \<and> in_int (arrival_time p) \<and> in_int (runtime p) \<and>
     in_int (proc_priority p) \<and> in_int (memory_size p)"

lemma no_digit_first_ctrl [simp]: "no_digit_first (tab # s)" "no_digit_first (newline # s)"
  by (simp_all add: no_digit_first_def is_digit_def char_code_def)

lemma scan_int_tab [simp]: "scan_int (tab # s) = scan_int s"
  by (rule scan_int_space) (simp add: is_space_def char_code_def)

lemma scan_process_print: "process_in_int p \<Longrightarrow> scan_process (print_process p) = Some (Some p)"
  by (simp add: scan_process_def print_process_def process_in_int_def scan_int_print)

definition process_text :: "Process \<Rightarrow> string" where
  "process_text p =
     print_int (proc_id p) @ [tab] @ print_int (arrival_time p) @ [tab] @ print_int (runtime p) @ [tab] @
     print_int (proc_priority p) @ [tab] @ print_int (memory_size p)"

lemma print_process_text: "print_process p = process_text p @ [newline]"
  by (simp add: print_process_def process_text_def)

lemma process_text_line:
  assumes "process_in_int p"
  shows "newline \<notin> set (process_text p)" "length (process_text p) < 255" "process_text p \<noteq> []"
    "hd (process_text p) \<noteq> CHR ''#''" "hd (process_text p) \<noteq> newline"
proof -
  show "newline \<notin> set (process_text p)"
    by (auto simp: process_text_def dest: print_int_no_newline)
  have "length (print_int v) \<le> 11" if "v \<in> {proc_id p, arrival_time p, runtime p, proc_priority p, memory_size p}" for v
    using that assms length_print_int by (auto simp: process_in_int_def)
  from this [of "proc_id p"] this [of "arrival_time p"] this [of "runtime p"]
    this [of "proc_priority p"] this [of "memory_size p"]
  show "length (process_text p) < 255" by (simp add: process_text_def)
  show "process_text p \<noteq> []" by (simp add: process_text_def)
  have "hd (process_text p) \<in> set (print_int (proc_id p))" by (simp add: process_text_def)
  then show "hd (process_text p) \<noteq> CHR ''#''" "hd (process_text p) \<noteq> newline"
    using print_int_no_newline by blast+
qed

lemma fgets_process:
  "process_in_int p \<Longrightarrow> fgets 255 (print_process p @ s) = Some (print_process p, s)"
  using process_text_line [of p] take_line_newline [of "process_text p" 255 s]
  by (simp add: fgets_def print_process_text)

lemma read_lines_process:
  assumes "process_in_int p"
  shows "read_lines (print_process p @ s) ps = read_lines s (ps @ [p])"
proof -
  have "hd (print_process p) \<noteq> CHR ''#''" "hd (print_process p) \<noteq> newline"
    using process_text_line [OF assms] by (simp_all add: print_process_text)
  then show ?thesis
    by (subst read_lines.simps) (simp add: fgets_process [OF assms] scan_process_print [OF assms])
qed

lemma read_lines_comment:
  assumes "newline \<notin> set l" "length l < 254"
  shows "read_lines (CHR ''#'' # l @ newline # s) ps = read_lines s ps"
proof -
  have "take_line 255 ((CHR ''#'' # l) @ newline # s) = ((CHR ''#'' # l) @ [newline], s)"
    using assms by (intro take_line_newline) auto
  then have "fgets 255 (CHR ''#'' # l @ newline # s) = Some (CHR ''#'' # l @ [newline], s)"
    unfolding fgets_def by simp
  then show ?thesis by (subst read_lines.simps) simp
qed

lemma read_lines_blank: "read_lines (newline # s) ps = read_lines s ps"
proof -
  have "fgets 255 (newline # s) = Some ([newline], s)"
    using take_line_newline [of "[]" 255 s] by (simp add: fgets_def)
  then show ?thesis by (subst read_lines.simps) simp
qed

lemma read_lines_processes:
  "\<forall>p \<in> set ps. process_in_int p \<Longrightarrow>
   read_lines (concat (map print_process ps)) qs = Some (0, qs @ ps)"
proof (induct ps arbitrary: qs)
  case Nil
  then show ?case by (simp add: read_lines.simps fgets_def)
next
  case (Cons p ps)
  then show ?case by (simp add: read_lines_process)
qed

lemma generate_in_int: "in_int i \<Longrightarrow> p \<in> set (generate rnd n i t k) \<Longrightarrow> process_in_int p"
proof (induct n arbitrary: i t k)
  case 0
  then show ?case by simp
next
  case (Suc n)
  have "in_int (x mod 30)" "in_int (x mod 11)" "in_int (x mod 256)" for x :: int
    by (auto simp: in_int_def intro: order_trans [OF _ pos_mod_sign] less_trans [OF pos_mod_bound])
  then show ?case
    using Suc.prems Suc.hyps [of "wrap32 (i + 1)" "wrap32 (t + rnd k mod 11)" "k + 4"]
    by (auto simp: Let_def process_in_int_def [of "\<lparr>proc_id = _, arrival_time = _, runtime = _,
      proc_priority = _, memory_size = _\<rparr>"])
qed

section \<open>What \<open>round_number\<close> returns\<close>

text \<open>The number a decimal numeral denotes.\<close>

definition decimal_value :: "string \<Rightarrow> real" where
  "decimal_value s =
     (let w = takeWhile (\<lambda>c. c \<noteq> CHR ''.'') s; f = drop (Suc (length w)) s
      in real (digit_value w) + real (digit_value f) / 10 ^ length f)"

lemma round_even_bound: "\<bar>of_int (round_even y) - y\<bar> \<le> 1 / 2"
  unfolding round_even_def Let_def by (auto split: if_splits)

lemma digits_no_point: "c \<in> set (digits n) \<Longrightarrow> c \<noteq> CHR ''.''"
  by (drule digits_digit) (auto simp: is_digit_def char_code_def)

lemma decimal_value_digits:
  "decimal_value (digits n) = real n"
  "decimal_value (digits n @ CHR ''.'' # s) = real n + real (digit_value s) / 10 ^ length s"
proof -
  let ?P = "\<lambda>c. c \<noteq> CHR ''.''"
  have all: "\<forall>c \<in> set (digits n). ?P c" by (simp add: digits_no_point)
  have nil: "digit_value [] = 0" by (simp add: digit_value_def)
  have w: "takeWhile ?P (digits n) = digits n" using all by (simp add: takeWhile_eq_all_conv)
  show "decimal_value (digits n) = real n" by (simp add: decimal_value_def Let_def nil w)
  have "takeWhile ?P (digits n @ CHR ''.'' # s) = digits n"
    by (subst takeWhile_append2) (simp_all add: all)
  then show "decimal_value (digits n @ CHR ''.'' # s) = real n + real (digit_value s) / 10 ^ length s"
    by (simp add: decimal_value_def Let_def)
qed

lemma digit_eq: "n < 10 \<Longrightarrow> char_code c = 48 \<Longrightarrow> (digit n = c) = (n = 0)"
  by (metis add_cancel_right_right char_code_def char_code_digit char_of_char digit_def)

lemma digit_zero: "n < 10 \<Longrightarrow> (digit n = CHR ''0'') = (n = 0)"
  by (rule digit_eq) (simp_all add: char_code_def)

text \<open>The three forms a number of hundredths is trimmed to.\<close>

lemma strip_zeros_snoc:
  "strip_zeros (s @ [CHR ''0'']) = strip_zeros s" "c \<noteq> CHR ''0'' \<Longrightarrow> strip_zeros (s @ [c]) = s @ [c]"
  by (simp_all add: strip_zeros.simps [of "s @ [_]"])

lemma strip_point_snoc:
  "strip_point (s @ [CHR ''.'']) = s" "c \<noteq> CHR ''.'' \<Longrightarrow> strip_point (s @ [c]) = s @ [c]"
  by (simp_all add: strip_point_def)

lemma trim_cases:
  assumes "d1 < 10" "d2 < 10"
  shows "strip_point (strip_zeros (ds @ [CHR ''.'', digit d1, digit d2])) =
    (if d2 = 0 then if d1 = 0 then ds else ds @ [CHR ''.'', digit d1]
     else ds @ [CHR ''.'', digit d1, digit d2])"
proof -
  have np: "digit d \<noteq> CHR ''.''" if "d < 10" for d
    using digit_not_sign is_digit_digit [OF that] by (auto simp: is_digit_def char_code_def)
  have z: "digit 0 = CHR ''0''" using digit_zero [of 0] by simp
  let ?p = "ds @ [CHR ''.'']" and ?q = "(ds @ [CHR ''.'']) @ [digit d1]"
  note snoc = strip_zeros_snoc(1) [of ?q] strip_zeros_snoc(2) [of "digit d2" ?q]
    strip_zeros_snoc(1) [of ?p] strip_zeros_snoc(2) [of "digit d1" ?p] strip_zeros_snoc(2) [of "CHR ''.''" ds]
    strip_point_snoc(2) [of "digit d2" ?q] strip_point_snoc(2) [of "digit d1" ?p] strip_point_snoc(1) [of ds]
  show ?thesis using snoc np assms digit_zero [of d1] digit_zero [of d2] by (simp add: z)
qed

definition hundredths :: "real \<Rightarrow> nat" where
  "hundredths x = nat (round_even (100 * \<bar>x\<bar>))"

lemma print_2f_short:
  assumes "0 \<le> x" "hundredths x < 1000000"
  shows "take 7 (print_2f x) = print_2f x"
proof -
  have "length (digits (hundredths x div 100)) \<le> 4" using assms by (intro length_digits_le) auto
  then show ?thesis using assms(1) by (simp add: print_2f_def hundredths_def Let_def)
qed

lemma round_number_value:
  assumes "0 \<le> x" "hundredths x < 1000000"
  shows "decimal_value (round_number x) = real (hundredths x) / 100"
proof -
  define n where "n = hundredths x"
  define q d1 d2 where "q = n div 100" and "d1 = n div 10 mod 10" and "d2 = n mod 10"
  have d: "d1 < 10" "d2 < 10" by (simp_all add: d1_def d2_def)
  have "n = 10 * (10 * (n div 10 div 10) + n div 10 mod 10) + n mod 10"
    by (simp only: mult_div_mod_eq)
  then have n: "n = 100 * q + 10 * d1 + d2"
    unfolding q_def d1_def d2_def by (simp only: div_mult2_eq [of n 10 10, simplified] distrib_left)
  have "print_2f x = digits q @ [CHR ''.'', digit d1, digit d2]"
    using assms(1) by (simp add: print_2f_def Let_def n_def q_def d1_def d2_def hundredths_def)
  then have "round_number x = (if d2 = 0 then if d1 = 0 then digits q else digits q @ [CHR ''.'', digit d1]
      else digits q @ [CHR ''.'', digit d1, digit d2])"
    using trim_cases [OF d, of "digits q"] print_2f_short [OF assms] by (simp add: round_number_def)
  moreover have "digit_value [digit d1] = d1" "digit_value [digit d1, digit d2] = 10 * d1 + d2"
    using d by (simp_all add: digit_value_def)
  ultimately have "decimal_value (round_number x) = real n / 100"
    using n by (simp add: decimal_value_digits)
  then show ?thesis by (simp add: n_def)
qed

lemma hundredths_bound: "0 \<le> x \<Longrightarrow> \<bar>real (hundredths x) / 100 - x\<bar> \<le> 1 / 200"
proof -
  assume x: "0 \<le> x"
  have b: "\<bar>of_int (round_even (100 * x)) - 100 * x\<bar> \<le> 1 / 2" by (rule round_even_bound)
  then have "- 1 < round_even (100 * x)" using x by linarith
  then have "real (hundredths x) = of_int (round_even (100 * x))"
    using x by (simp add: hundredths_def)
  then show ?thesis using b by linarith
qed

section \<open>Properties\<close>

text \<open>The lines of an input file: comments, empty lines and processes.\<close>

datatype input_line = Comment string | Blank | Entry Process

fun line_text :: "input_line \<Rightarrow> string" where
  "line_text (Comment l) = CHR ''#'' # l @ [newline]"
| "line_text Blank = [newline]"
| "line_text (Entry p) = print_process p"

fun line_ok :: "input_line \<Rightarrow> bool" where
  "line_ok (Comment l) = (newline \<notin> set l \<and> length l < 254)"
| "line_ok Blank = True"
| "line_ok (Entry p) = process_in_int p"

fun entries :: "input_line list \<Rightarrow> Process list" where
  "entries [] = []"
| "entries (Entry p # ls) = p # entries ls"
| "entries (l # ls) = entries ls"

lemma read_lines_text:
  "\<forall>l \<in> set ls. line_ok l \<Longrightarrow>
   read_lines (concat (map line_text ls) @ s) ps = read_lines s (ps @ entries ls)"
  by (induct ls arbitrary: ps rule: entries.induct)
    (simp_all add: read_lines_process read_lines_comment read_lines_blank)

text \<open>
  C34: \<open>read_input_file\<close> returns the exit code 0 and exactly the processes of a file made of lines as
  the README describes them, in order, skipping comments and empty lines.
\<close>

theorem read_input_file_reads_back:
  assumes "\<forall>l \<in> set ls. line_ok l"
  shows "read_input_file (Some (concat (map line_text ls))) = Some (0, entries ls)"
  using read_lines_text [OF assms, of "[]" "[]"]
  by (simp add: read_input_file_def read_lines.simps [of "[]"] fgets_def)

theorem read_input_file_reads_back_witness:
  "read_input_file (Some (concat (map line_text [Comment ''id'', Blank,
     Entry \<lparr>proc_id = 1, arrival_time = - 2, runtime = 30, proc_priority = 0, memory_size = 256\<rparr>]))) =
   Some (0, [\<lparr>proc_id = 1, arrival_time = - 2, runtime = 30, proc_priority = 0, memory_size = 256\<rparr>])"
  using read_input_file_reads_back [of "[Comment ''id'', Blank,
     Entry \<lparr>proc_id = 1, arrival_time = - 2, runtime = 30, proc_priority = 0, memory_size = 256\<rparr>]"]
  by (simp add: process_in_int_def in_int_def)



text \<open>
  Whatever \<open>rand()\<close> returns, a file test_generator.c writes is read back as the processes it drew,
  with exit code 0.
\<close>

theorem generated_file_reads_back:
  "read_input_file (Some (generated_file rnd no)) = Some (0, generate rnd no 1 1 0)"
proof -
  let ?ls = "Comment ''id arrival runtime priority memsize'' # map Entry (generate rnd no 1 1 0)"
  have "entries (map Entry ps) = ps" for ps by (induct ps) simp_all
  moreover have "concat (map line_text (map Entry ps)) = concat (map print_process ps)" for ps
    by (induct ps) simp_all
  moreover have "\<forall>p \<in> set (generate rnd no 1 1 0). process_in_int p"
    using generate_in_int [of 1 _ rnd no 1 0] by (simp add: in_int_def)
  then have "\<forall>l \<in> set ?ls. line_ok l" by simp
  ultimately show ?thesis using read_lines_text [of ?ls "[]" "[]"]
    by (simp add: read_input_file_def generated_file_def read_lines.simps [of "[]"] fgets_def)
qed

text \<open>
  C37: for a number from 0 up to 9999.99, the numeral \<open>round_number\<close> returns is the number rounded to
  two decimals: trimming its zeros does not change its value.
\<close>

theorem round_number_rounds:
  assumes "0 \<le> x" "hundredths x < 1000000"
  shows "decimal_value (round_number x) = real (hundredths x) / 100 \<and>
    \<bar>decimal_value (round_number x) - x\<bar> \<le> 1 / 200"
  unfolding round_number_value [OF assms] using hundredths_bound [OF assms(1)] by simp

theorem round_number_rounds_witness: "decimal_value (round_number (1 / 4)) = 25 / 100"
proof -
  have "hundredths (1 / 4) = 25" by (simp add: hundredths_def round_even_def Let_def)
  then show ?thesis using round_number_rounds [of "1 / 4"] by simp
qed

text \<open>
  \<open>sizeof(str)\<close> in \<open>round_number\<close> is the size of the pointer, so from a million on the numeral is
  cut before its decimal point and its zeros are trimmed as if they stood behind it: 1000000 becomes
  "1".
\<close>

theorem round_number_million: "round_number 1000000 = ''1''"
proof -
  have "nat (round_even (100 * \<bar>1000000\<bar>)) = 100000000" by (simp add: round_even_def Let_def)
  then have "print_2f 1000000 = digits 1000000 @ [CHR ''.'', digit 0, digit 0]"
    by (simp add: print_2f_def Let_def)
  moreover have "digit 0 = CHR ''0''" "digit 1 = CHR ''1''" by code_simp+
  then have "digits 1000000 = ''1000000''" by (simp add: digits.simps)
  ultimately have "take 7 (print_2f 1000000) = ''1000000''" by simp
  moreover have "strip_point (strip_zeros ''1000000'') = ''1''" by code_simp
  ultimately show ?thesis by (simp only: round_number_def)
qed

end
