(* ===== verification/Memory_Manager.thy ===== *)
theory Memory_Manager
  imports Buddy_Memory Hash_Map Linked_List File_Handlers
begin

text \<open>
  memory_manager.c: which process holds which block of the simulated memory, and which waiting
  process fits next. The globals \<open>memory\<close> and \<open>memory_map\<close>, the heap of \<open>Block\<close> structs and the entries
  of memory.log are one record. A \<open>ProcessMemory\<close> belongs to one entry of the map and a \<open>Process\<close> of
  the waiting list is never written, so both stand for the pointers to them. Reading the clock is the
  argument \<open>now\<close>.
\<close>

record ProcessMemory =
  pm_memory :: ptr
  pm_id :: int

record memory_manager =
  mm_heap :: bheap
  memory :: ptr
  memory_map :: "ProcessMemory HashMap"
  memory_log :: "memory_entry list"

definition init_memory_manager :: memory_manager where
  "init_memory_manager =
     (let (m, h) = init_memory empty_heap in
      \<lparr>mm_heap = h, memory = m, memory_map = hashmap_create 100, memory_log = []\<rparr>)"

text \<open>\<open>log_memory_event\<close> of file_handlers.c; a type other than 0 and 1 only prints a message.\<close>

definition log_memory_event :: "int \<Rightarrow> int \<Rightarrow> ptr \<Rightarrow> int \<Rightarrow> memory_manager \<Rightarrow> memory_manager option" where
  "log_memory_event now i block type s =
     (if block = NULL \<or> type \<noteq> 0 \<and> type \<noteq> 1 then Some s
      else do {
        n \<leftarrow> get_node (mm_heap s) block;
        let b = cell n;
        Some (s\<lparr>memory_log := memory_log s @
          [\<lparr>mem_time = now, mem_verb = (if type = 0 then ''deallocated'' else ''allocated''),
            mem_bytes = ballocated b, mem_process = i, mem_first = bstart b,
            mem_last = wrap32 (wrap32 (bstart b + bsize b) - 1)\<rparr>]\<rparr>)
      })"

definition deallocate_process_memory :: "int \<Rightarrow> int \<Rightarrow> memory_manager \<Rightarrow> (int \<times> memory_manager) option" where
  "deallocate_process_memory now child s = do {
     pmem \<leftarrow> hashmap_get (memory_map s) child;
     case pmem of
       None \<Rightarrow> Some (0, s)
     | Some pm \<Rightarrow>
         if pm_memory pm = NULL then Some (0, s)
         else do {
           s \<leftarrow> log_memory_event now (pm_id pm) (pm_memory pm) 0 s;
           h \<leftarrow> deallocate_memory (mm_heap s) (pm_memory pm);
           Some (1, s\<lparr>mm_heap := h\<rparr>)
         }
   }"

definition allocate_process_memory :: "int \<Rightarrow> memory_manager \<Rightarrow> (ptr \<times> memory_manager) option" where
  "allocate_process_memory sz s = do {
     (p, h) \<leftarrow> allocate_memory (mm_heap s) (memory s) sz;
     Some (p, s\<lparr>mm_heap := h\<rparr>)
   }"

definition assign_memory_block_to_process ::
  "int \<Rightarrow> PCB \<Rightarrow> ptr \<Rightarrow> memory_manager \<Rightarrow> (PCB \<times> memory_manager) option" where
  "assign_memory_block_to_process now process block s =
     (if block = NULL then Some (process, s)
      else do {
        let process_memory = \<lparr>pm_memory = block, pm_id = proc_id (PDATA process)\<rparr>;
        (r, m) \<leftarrow> hashmap_put (memory_map s) (pid process) process_memory;
        let s = s\<lparr>memory_map := m\<rparr>;
        if r > 0 then do {
          s \<leftarrow> log_memory_event now (pm_id process_memory) block 1 s;
          Some (process\<lparr>memory_block := Some block\<rparr>, s)
        } else Some (process, s)
      })"

text \<open>The loop of \<open>get_oldest_fit\<close>; the block found is read for a trace.\<close>

partial_function (option) oldest_fit_from ::
  "memory_manager \<Rightarrow> Process linked_list \<Rightarrow> ptr \<Rightarrow> (Process option \<times> Process linked_list) option" where
  "oldest_fit_from s l current =
     (if current = NULL then Some (None, l)
      else do {
        n \<leftarrow> get_node (ll_heap l) current;
        let process = cell n;
        fit_block \<leftarrow> get_smallest_block_available (mm_heap s) (memory s) (memory_size process);
        if fit_block \<noteq> NULL then do {
          _ \<leftarrow> get_node (mm_heap s) fit_block;
          l \<leftarrow> remove_node l current;
          Some (Some process, l)
        } else oldest_fit_from s l (nxt n)
      })"

declare oldest_fit_from.simps [code]

definition get_oldest_fit ::
  "memory_manager \<Rightarrow> Process linked_list \<Rightarrow> (Process option \<times> Process linked_list) option" where
  "get_oldest_fit s waiting_list =
     (if ll_size waiting_list = 0 then Some (None, waiting_list)
      else oldest_fit_from s waiting_list (ll_head waiting_list))"

definition get_smallest_block :: "Process \<Rightarrow> memory_manager \<Rightarrow> ptr option" where
  "get_smallest_block process s = get_smallest_block_available (mm_heap s) (memory s) (memory_size process)"

text \<open>The heap of blocks that is left, and the objects of the map that were freed.\<close>

definition free_memory_manager :: "memory_manager \<Rightarrow> (bheap \<times> part list) option" where
  "free_memory_manager s = do {
     h \<leftarrow> destroy_memory (mm_heap s) (memory s);
     ps \<leftarrow> hashmap_free (memory_map s);
     Some (h, ps)
   }"

section \<open>Who owns what\<close>

text \<open>
  \<open>own\<close> says which block, with how many units requested, each process id holds; \<open>lost\<close> are the blocks
  marked as allocated that no id holds. Together they are the allocated blocks of the memory, and an id
  that holds a block is found in the map. Two ids never hold the same block.
\<close>

definition mm_ok ::
  "memory_manager \<Rightarrow> (ptr \<times> block) list \<Rightarrow> (int \<rightharpoonup> ptr \<times> int) \<Rightarrow> (ptr \<times> int) set \<Rightarrow> bool" where
  "mm_ok s xs own lost \<longleftrightarrow> buddy_ok (mm_heap s) (memory s) xs \<and> hm_ok (memory_map s) \<and>
     capacity (memory_map s) = 100 \<and> grants xs = ran own \<union> lost \<and> ran own \<inter> lost = {} \<and> inj_on own (dom own) \<and>
     (\<forall>c p n. own c = Some (p, n) \<longrightarrow>
        (\<exists>i. lookup (memory_map s) c = Some \<lparr>pm_memory = p, pm_id = i\<rparr>))"

lemma init_memory_manager_ok:
  "mm_ok init_memory_manager [(1, \<lparr>bsize = 1024, bstart = 0, ballocated = 0\<rparr>)] Map.empty {}"
  using fresh_heap_ok hm_ok_create(1) [of 100]
  by (simp add: mm_ok_def init_memory_manager_def fresh_heap_def init_memory_def malloc_node_def
      empty_heap_def grants_def hashmap_create_def)

section \<open>Allocating\<close>

lemma get_smallest_room:
  assumes "buddy_ok h m xs"
  shows "\<exists>p. get_smallest_block_available h m sz = Some p \<and> (p \<noteq> NULL \<longleftrightarrow> room xs sz) \<and>
    (p \<noteq> NULL \<longrightarrow> get_node h p \<noteq> None)"
proof (cases "pick sz xs None")
  case None
  then show ?thesis using get_smallest_pick [OF buddy_ok_blocks [OF assms]] pick_None by fastforce
next
  case (Some z)
  with pick_Some [OF Some] have z: "z \<in> set xs" "fits sz (snd z)" by auto
  then obtain us vs where "xs = us @ (fst z, snd z) # vs" by (auto simp: in_set_conv_decomp)
  with blocks_node [of h m us "fst z" "snd z" vs] buddy_ok_blocks [OF assms]
  have "fst z \<noteq> NULL" "get_node h (fst z) \<noteq> None" by (auto simp: heap_op)
  then show ?thesis using get_smallest_pick [OF buddy_ok_blocks [OF assms]] Some z by auto
qed

lemma allocate_is_smallest:
  "allocate_process_memory sz s = Some (p, s') \<Longrightarrow>
   get_smallest_block_available (mm_heap s) (memory s) sz = Some p"
  by (auto simp: allocate_process_memory_def allocate_memory_def bind_eq_Some_conv split: if_splits)

lemma allocate_process_memory_ok:
  assumes ok: "mm_ok s xs own lost" and sz: "0 < sz" and fit: "room xs sz"
  shows "\<exists>p s' ys. allocate_process_memory sz s = Some (p, s') \<and> p \<noteq> NULL \<and>
    mm_ok s' ys own (insert (p, sz) lost) \<and> (p, sz) \<notin> lost \<and> (p, sz) \<notin> ran own \<and>
    memory_map s' = memory_map s"
proof -
  have b: "buddy_ok (mm_heap s) (memory s) xs" using ok by (simp add: mm_ok_def)
  obtain p h' ys where a: "allocate_memory (mm_heap s) (memory s) sz = Some (p, h')" "p \<noteq> NULL"
    "buddy_ok h' (memory s) ys" "p \<notin> fst ` grants xs" "grants ys = insert (p, sz) (grants xs)"
    using buddy.alloc_room [OF b sz fit] by blast
  then have "(p, sz) \<notin> grants xs" by force
  then show ?thesis using ok a by (auto simp: mm_ok_def allocate_process_memory_def)
qed

lemma allocate_process_memory_full:
  assumes "mm_ok s xs own lost" "\<not> room xs sz"
  shows "allocate_process_memory sz s = Some (NULL, s)"
  using buddy.alloc_full [of "mm_heap s" "memory s" xs sz] assms
  by (simp add: mm_ok_def allocate_process_memory_def)

section \<open>Assigning and freeing\<close>

lemma log_memory_event_ok:
  assumes "get_node (mm_heap s) p = Some m" "k = 0 \<or> k = 1"
  shows "\<exists>l. log_memory_event now i p k s = Some (s\<lparr>memory_log := l\<rparr>)"
proof -
  have "p \<noteq> NULL" using assms(1) by (auto simp: get_node_def split: if_splits)
  then show ?thesis using assms by (auto simp: log_memory_event_def Let_def)
qed

lemma mm_ok_log [simp]: "mm_ok (s\<lparr>memory_log := l\<rparr>) xs own lost = mm_ok s xs own lost"
  by (simp add: mm_ok_def)

lemma mm_ok_put:
  assumes ok: "mm_ok s xs own (insert (p, n) lost)" and nw: "(p, n) \<notin> lost" "c \<notin> dom own"
    and m: "hm_ok m" "capacity m = 100" "lookup m = (lookup (memory_map s))(c \<mapsto> \<lparr>pm_memory = p, pm_id = i\<rparr>)"
  shows "mm_ok (s\<lparr>memory_map := m\<rparr>) xs (own(c \<mapsto> (p, n))) lost"
proof -
  have r: "ran (own(c \<mapsto> (p, n))) = insert (p, n) (ran own)" using nw(2)
    by (metis domIff ran_map_upd)
  have f: "(p, n) \<notin> ran own" using ok by (auto simp: mm_ok_def)
  then have "inj_on (own(c \<mapsto> (p, n))) (dom (own(c \<mapsto> (p, n))))"
    using ok nw(2) unfolding mm_ok_def inj_on_def by (auto simp: ran_def)
  then show ?thesis using ok nw(1) m f r by (auto simp: mm_ok_def)
qed

lemma assign_ok:
  assumes ok: "mm_ok s xs own (insert (p, n) lost)" and nw: "(p, n) \<notin> lost" "pid pcb \<notin> dom own"
    and p: "p \<noteq> NULL"
  shows "\<exists>r m s'. hashmap_put (memory_map s) (pid pcb) \<lparr>pm_memory = p, pm_id = proc_id (PDATA pcb)\<rparr> = Some (r, m) \<and>
    memory_map s' = m \<and> mm_heap s' = mm_heap s \<and> memory s' = memory s \<and>
    assign_memory_block_to_process now pcb p s =
      Some (if r > 0 then pcb\<lparr>memory_block := Some p\<rparr> else pcb, s') \<and>
    (if r = - 1 then mm_ok s' xs own (insert (p, n) lost) \<and> m = memory_map s
     else mm_ok s' xs (own(pid pcb \<mapsto> (p, n))) lost)"
proof -
  let ?pm = "\<lparr>pm_memory = p, pm_id = proc_id (PDATA pcb)\<rparr>"
  have h: "hm_ok (memory_map s)" and b: "buddy_ok (mm_heap s) (memory s) xs"
    and g: "(p, n) \<in> grants xs" using ok by (auto simp: mm_ok_def)
  obtain k where k: "get_node (mm_heap s) p = Some k" using grants_split [OF b g] by auto
  show ?thesis
  proof (rule hm.put_cases [OF h, of "pid pcb" ?pm])
    assume "hashmap_put (memory_map s) (pid pcb) ?pm = Some (- 1, memory_map s)"
    then show ?thesis using p ok
      by (intro exI [of _ "- 1"] exI [of _ "memory_map s"] exI [of _ s])
        (simp add: assign_memory_block_to_process_def Let_def)
  next
    fix r m
    let ?s = "s\<lparr>memory_map := m\<rparr>"
    assume put: "hashmap_put (memory_map s) (pid pcb) ?pm = Some (r, m)" "r = 0 \<or> r = 1" "hm_ok m"
      "unat (capacity m) = unat (capacity (memory_map s))"
      "lookup m = (lookup (memory_map s))(pid pcb \<mapsto> ?pm)"
    have "get_node (mm_heap ?s) p = Some k" using k by simp
    from log_memory_event_ok [OF this, of 1] obtain l where
      l: "log_memory_event now (proc_id (PDATA pcb)) p 1 ?s = Some (?s\<lparr>memory_log := l\<rparr>)" by auto
    have "capacity m = 100" using put(4) ok by (simp add: mm_ok_def word_unat_eq_iff)
    then have "mm_ok ?s xs (own(pid pcb \<mapsto> (p, n))) lost" using mm_ok_put [OF ok nw put(3) _ put(5)] by simp
    then show ?thesis using put(1,2) p l
      by (intro exI [of _ r] exI [of _ m] exI [of _ "if r > 0 then ?s\<lparr>memory_log := l\<rparr> else ?s"])
        (auto simp: assign_memory_block_to_process_def Let_def)
  qed
qed

text \<open>A process id the map does not know: its PCB gets the block, or the map refuses it.\<close>

lemma assign_new:
  assumes ok: "mm_ok s xs own (insert (p, n) lost)" and nw: "(p, n) \<notin> lost" "pid pcb \<notin> dom own"
    and p: "p \<noteq> NULL" and new: "lookup (memory_map s) (pid pcb) = None" "memory_block pcb = None"
  shows "\<exists>b s' lost'. assign_memory_block_to_process now pcb p s = Some (pcb\<lparr>memory_block := b\<rparr>, s') \<and>
    mm_ok s' xs (own(pid pcb := map_option (\<lambda>q. (q, n)) b)) lost' \<and>
    lookup (memory_map s') = (lookup (memory_map s))
      (pid pcb := map_option (\<lambda>q. \<lparr>pm_memory = q, pm_id = proc_id (PDATA pcb)\<rparr>) b) \<and>
    (b \<noteq> None \<longrightarrow> lost' = lost)"
proof -
  have h: "hm_ok (memory_map s)" using ok by (simp add: mm_ok_def)
  let ?pm = "\<lparr>pm_memory = p, pm_id = proc_id (PDATA pcb)\<rparr>"
  obtain r m s' where a: "hashmap_put (memory_map s) (pid pcb) ?pm = Some (r, m)" "memory_map s' = m"
    "assign_memory_block_to_process now pcb p s = Some (if r > 0 then pcb\<lparr>memory_block := Some p\<rparr> else pcb, s')"
    "if r = - 1 then mm_ok s' xs own (insert (p, n) lost) \<and> m = memory_map s
     else mm_ok s' xs (own(pid pcb \<mapsto> (p, n))) lost"
    using assign_ok [OF ok nw p] by blast
  have r: "r = - 1 \<or> r = 1 \<and> lookup m = (lookup (memory_map s))(pid pcb \<mapsto> ?pm)"
    by (rule hm.put_new [OF h new(1), of ?pm]) (use a(1) in auto)
  then show ?thesis
  proof
    assume "r = - 1"
    moreover have "pcb = pcb\<lparr>memory_block := None\<rparr>" using new(2) by simp
    moreover have "own = own(pid pcb := None)" "lookup (memory_map s) = (lookup (memory_map s))(pid pcb := None)"
      using nw(2) new(1) by (auto simp: fun_eq_iff domIff)
    ultimately show ?thesis using a
      by (intro exI [of _ None] exI [of _ s'] exI [of _ "insert (p, n) lost"]) simp
  next
    assume "r = 1 \<and> lookup m = (lookup (memory_map s))(pid pcb \<mapsto> ?pm)"
    then show ?thesis using a
      by (intro exI [of _ "Some p"] exI [of _ s'] exI [of _ lost]) simp
  qed
qed

lemma ran_delete:
  assumes "inj_on f (dom f)" "f c = Some v"
  shows "ran (f(c := None)) = ran f - {v}"
proof -
  have c: "a = c" if "f a = Some v" for a
    using inj_onD [OF assms(1), of a c] that assms(2) by (auto simp: dom_def)
  have "x \<in> ran (f(c := None)) \<longleftrightarrow> x \<in> ran f \<and> x \<noteq> v" for x
  proof
    assume "x \<in> ran (f(c := None))"
    then obtain a where a: "a \<noteq> c" "f a = Some x" by (auto simp: ran_def split: if_splits)
    with c [of a] show "x \<in> ran f \<and> x \<noteq> v" by (auto intro: ranI)
  next
    assume "x \<in> ran f \<and> x \<noteq> v"
    then obtain a where a: "f a = Some x" "x \<noteq> v" by (auto simp: ran_def)
    with assms(2) have "(f(c := None)) a = Some x" by auto
    then show "x \<in> ran (f(c := None))" by (rule ranI)
  qed
  then show ?thesis by blast
qed

lemma mm_ok_release:
  assumes ok: "mm_ok s xs own lost" and own: "own c = Some (p, n)"
    and b: "buddy_ok h (memory s) ys" "grants ys = grants xs - {(p, n)}"
  shows "mm_ok (s\<lparr>mm_heap := h\<rparr>) ys (own(c := None)) lost"
proof -
  have "ran (own(c := None)) = ran own - {(p, n)}"
    using ok own by (intro ran_delete) (simp_all add: mm_ok_def)
  moreover have "(p, n) \<in> ran own" using own by (auto simp: ran_def)
  moreover have "inj_on (own(c := None)) (dom (own(c := None)))"
    using ok by (auto simp: mm_ok_def inj_on_def)
  ultimately show ?thesis using ok b by (auto simp: mm_ok_def)
qed

lemma deallocate_process_memory_ok:
  assumes ok: "mm_ok s xs own lost" and own: "own c = Some (p, n)"
  shows "\<exists>s' ys. deallocate_process_memory now c s = Some (1, s') \<and>
    mm_ok s' ys (own(c := None)) lost \<and> memory_map s' = memory_map s"
proof -
  have b: "buddy_ok (mm_heap s) (memory s) xs" and h: "hm_ok (memory_map s)"
    and g: "(p, n) \<in> grants xs" using ok own by (auto simp: mm_ok_def ran_def)
  obtain m where x: "p \<noteq> NULL" "get_node (mm_heap s) p = Some m" using grants_split [OF b g] by blast
  obtain i where i: "lookup (memory_map s) c = Some \<lparr>pm_memory = p, pm_id = i\<rparr>"
    using ok own unfolding mm_ok_def by blast
  from log_memory_event_ok [OF x(2), of 0] obtain l where
    e: "log_memory_event now i p 0 s = Some (s\<lparr>memory_log := l\<rparr>)" by auto
  from buddy.dealloc_granted [OF b g] obtain h' zs where
    d: "deallocate_memory (mm_heap s) p = Some h'" "buddy_ok h' (memory s) zs"
      "grants zs = grants xs - {(p, n)}" by blast
  have "mm_ok (s\<lparr>memory_log := l, mm_heap := h'\<rparr>) zs (own(c := None)) lost"
    using mm_ok_release [OF ok own d(2,3)] by (simp add: mm_ok_def)
  then show ?thesis using hm.get_look [OF h, of c] i x(1) e d(1)
    by (simp add: deallocate_process_memory_def) blast
qed

lemma deallocate_unknown:
  assumes "mm_ok s xs own lost" "lookup (memory_map s) c = None"
  shows "deallocate_process_memory now c s = Some (0, s)"
  using hm.get_look [of "memory_map s" c] assms
  by (simp add: mm_ok_def deallocate_process_memory_def)

section \<open>The waiting list\<close>

lemma oldest_fit_from_ok:
  assumes ok: "mm_ok s xs own lost"
  shows "ll_rep l (us @ ws) \<Longrightarrow>
    oldest_fit_from s l (if ws = [] then NULL else fst (hd ws)) =
      (case dropWhile (\<lambda>w. \<not> room xs (memory_size (snd w))) ws of
         [] \<Rightarrow> Some (None, l)
       | w # _ \<Rightarrow> do { l \<leftarrow> remove_node l (fst w); Some (Some (snd w), l) })"
proof (induct ws arbitrary: us)
  case Nil
  then show ?case by (subst oldest_fit_from.simps) simp
next
  case (Cons w ws)
  have b: "buddy_ok (mm_heap s) (memory s) xs" using ok by (simp add: mm_ok_def)
  have n: "fst w \<noteq> NULL" "mem (ll_heap l) (fst w) = Some \<lparr>nxt = (if ws = [] then NULL else fst (hd ws)),
    prv = last_addr NULL us, cell = snd w\<rparr>" using ll_rep_node [of l us "fst w" "snd w" ws] Cons.prems by simp_all
  obtain p where p: "get_smallest_block_available (mm_heap s) (memory s) (memory_size (snd w)) = Some p"
    "p \<noteq> NULL \<longleftrightarrow> room xs (memory_size (snd w))" "p \<noteq> NULL \<longrightarrow> get_node (mm_heap s) p \<noteq> None"
    using get_smallest_room [OF b] by blast
  have IH: "oldest_fit_from s l (if ws = [] then NULL else fst (hd ws)) =
      (case dropWhile (\<lambda>w. \<not> room xs (memory_size (snd w))) ws of
         [] \<Rightarrow> Some (None, l)
       | w # _ \<Rightarrow> do { l \<leftarrow> remove_node l (fst w); Some (Some (snd w), l) })"
    using Cons.hyps [of "us @ [w]"] Cons.prems by simp
  show ?case
  proof (cases "room xs (memory_size (snd w))")
    case True
    then show ?thesis using n p by (subst oldest_fit_from.simps) (auto simp: heap_op)
  next
    case False
    then have "oldest_fit_from s l (fst w) = oldest_fit_from s l (if ws = [] then NULL else fst (hd ws))"
      using n p by (subst oldest_fit_from.simps) (simp add: heap_op)
    then show ?thesis using IH False by simp
  qed
qed

lemma get_oldest_fit_ok:
  assumes ok: "mm_ok s xs own lost" and l: "ll_rep l ws"
  shows "\<exists>r l'. get_oldest_fit s l = Some (r, l') \<and>
    (case dropWhile (\<lambda>w. \<not> room xs (memory_size (snd w))) ws of
       [] \<Rightarrow> r = None \<and> l' = l
     | w # vs \<Rightarrow> r = Some (snd w) \<and>
         ll_rep l' (takeWhile (\<lambda>w. \<not> room xs (memory_size (snd w))) ws @ vs))"
proof -
  define P where "P = (\<lambda>w :: ptr \<times> Process. \<not> room xs (memory_size (snd w)))"
  have hd: "ll_head l = (if ws = [] then NULL else fst (hd ws))" using l by (cases ws) (auto simp: ll_rep_def)
  have o: "get_oldest_fit s l = (case dropWhile P ws of [] \<Rightarrow> Some (None, l)
       | w # _ \<Rightarrow> do { l \<leftarrow> remove_node l (fst w); Some (Some (snd w), l) })"
    using oldest_fit_from_ok [OF ok, of l "[]" ws, folded P_def] l hd
    by (cases ws) (auto simp: get_oldest_fit_def ll_rep_def simp del: seg.simps)
  have "\<exists>r l'. get_oldest_fit s l = Some (r, l') \<and>
    (case dropWhile P ws of [] \<Rightarrow> r = None \<and> l' = l
     | w # vs \<Rightarrow> r = Some (snd w) \<and> ll_rep l' (takeWhile P ws @ vs))"
  proof (cases "dropWhile P ws")
    case Nil
    then show ?thesis unfolding o Nil by simp
  next
    case (Cons w vs)
    then have "ws = takeWhile P ws @ (fst w, snd w) # vs"
      using takeWhile_dropWhile_id [of P ws] by simp
    with l have "ll_rep l (takeWhile P ws @ (fst w, snd w) # vs)" by simp
    then obtain l' where "remove_node l (fst w) = Some l'" "ll_rep l' (takeWhile P ws @ vs)"
      using remove_node_rep [of l "takeWhile P ws" "fst w" "snd w" vs] by blast
    then show ?thesis using o Cons by simp
  qed
  then show ?thesis unfolding P_def .
qed

section \<open>Properties\<close>

text \<open>
  C22: \<open>get_oldest_fit\<close> returns the process that has waited longest among those that fit into a free
  block, and takes it, and no other, out of the waiting list; if none fits, or none waits, it returns
  NULL and changes nothing.
\<close>

theorem get_oldest_fit_oldest:
  assumes "mm_ok s xs own lost" "ll_rep l ws"
  shows "if \<exists>w \<in> set ws. room xs (memory_size (snd w)) then
      \<exists>us w vs l'. ws = us @ w # vs \<and> room xs (memory_size (snd w)) \<and>
        (\<forall>u \<in> set us. \<not> room xs (memory_size (snd u))) \<and>
        get_oldest_fit s l = Some (Some (snd w), l') \<and> ll_rep l' (us @ vs)
    else get_oldest_fit s l = Some (None, l)"
proof -
  define P where "P = (\<lambda>w :: ptr \<times> Process. \<not> room xs (memory_size (snd w)))"
  obtain r l' where f: "get_oldest_fit s l = Some (r, l')"
    "case dropWhile P ws of [] \<Rightarrow> r = None \<and> l' = l
     | w # vs \<Rightarrow> r = Some (snd w) \<and> ll_rep l' (takeWhile P ws @ vs)"
    using get_oldest_fit_ok [OF assms] unfolding P_def by blast
  have "if \<exists>w \<in> set ws. \<not> P w then
      \<exists>us w vs l'. ws = us @ w # vs \<and> \<not> P w \<and> (\<forall>u \<in> set us. P u) \<and>
        get_oldest_fit s l = Some (Some (snd w), l') \<and> ll_rep l' (us @ vs)
    else get_oldest_fit s l = Some (None, l)"
  proof (cases "dropWhile P ws")
    case Nil
    have "r = None \<and> l' = l" using f(2) unfolding Nil by simp
    then have "get_oldest_fit s l = Some (None, l)" using f(1) by simp
    then show ?thesis using Nil by simp
  next
    case (Cons w vs)
    then have "ws = takeWhile P ws @ w # vs" "\<not> P w"
      using takeWhile_dropWhile_id [of P ws] hd_dropWhile [of P ws] by simp_all
    moreover have "\<forall>u \<in> set (takeWhile P ws). P u" by (auto dest: set_takeWhileD)
    moreover have "r = Some (snd w)" "ll_rep l' (takeWhile P ws @ vs)" using f(2) unfolding Cons by auto
    moreover from \<open>ws = _\<close> have "w \<in> set ws" by (metis in_set_conv_decomp)
    moreover have "get_oldest_fit s l = Some (Some (snd w), l')" using f(1) calculation by simp
    ultimately show ?thesis by (subst if_P) blast+
  qed
  then show ?thesis unfolding P_def not_not .
qed

theorem get_oldest_fit_oldest_witness:
  "\<exists>l p l'. push_back \<lparr>proc_id = 1, arrival_time = 1, runtime = 3, proc_priority = 0, memory_size = 600\<rparr>
       create_linked_list = Some l \<and>
     get_oldest_fit init_memory_manager l = Some (Some \<lparr>proc_id = 1, arrival_time = 1, runtime = 3,
       proc_priority = 0, memory_size = 600\<rparr>, l') \<and> ll_rep l' []"
proof -
  let ?proc = "\<lparr>proc_id = 1, arrival_time = 1, runtime = 3, proc_priority = 0, memory_size = 600\<rparr>"
  obtain p l1 where "create_node ?proc create_linked_list = (p, l1)" "ll_rep l1 []" "loose l1 p ?proc"
    using create_node_rep [OF ll_rep_create, of ?proc] by auto
  with add_node_to_back_rep [of l1 "[]" p ?proc] obtain l where
    l: "push_back ?proc create_linked_list = Some l" "ll_rep l [(p, ?proc)]" by (auto simp: push_back_def)
  have "fits 600 \<lparr>bsize = 1024, bstart = 0, ballocated = 0\<rparr>" by (simp add: fits_def)
  then have "\<exists>l'. get_oldest_fit init_memory_manager l = Some (Some ?proc, l') \<and> ll_rep l' []"
    using get_oldest_fit_oldest [OF init_memory_manager_ok l(2)] by (auto simp: Cons_eq_append_conv)
  with l(1) show ?thesis by blast
qed

end
