(* ===== verification/Queue_Interface.thy ===== *)
theory Queue_Interface
  imports Prelude
begin

text \<open>
  What the scheduler relies on when it uses a ready queue, whichever of the two implementations is
  behind it: the items it holds, in an order whose first element is the next one to serve.
  \<open>rep q xs\<close> relates a queue to its items and the priorities they were given.
\<close>

abbreviation queue_limit :: nat where "queue_limit \<equiv> 1073741824"

locale ready_queue =
  fixes rep :: "'q \<Rightarrow> ('a \<times> int) list \<Rightarrow> bool"
    and enq :: "'q \<Rightarrow> 'a \<Rightarrow> int \<Rightarrow> 'q option"
    and deq :: "'q \<Rightarrow> ('a option \<times> 'q) option"
    and frnt :: "'q \<Rightarrow> 'a option option"
    and emp :: "'q \<Rightarrow> bool"
    and cnt :: "'q \<Rightarrow> int"
    and ok :: "int \<Rightarrow> bool"
  assumes enq_ok: "rep q xs \<Longrightarrow> ok p \<Longrightarrow> length xs < queue_limit \<Longrightarrow>
      \<exists>q' xs'. enq q v p = Some q' \<and> rep q' xs' \<and> mset (map fst xs') = add_mset v (mset (map fst xs))"
    and deq_ok: "rep q (x # xs) \<Longrightarrow>
      \<exists>q' xs'. deq q = Some (Some (fst x), q') \<and> rep q' xs' \<and> mset xs' = mset xs"
    and deq_nil: "rep q [] \<Longrightarrow> deq q = Some (None, q)"
    and frnt_ok: "rep q xs \<Longrightarrow> frnt q = Some (if xs = [] then None else Some (fst (hd xs)))"
    and emp_ok: "rep q xs \<Longrightarrow> emp q = (xs = [])"
    and cnt_ok: "rep q xs \<Longrightarrow> cnt q = int (length xs)"
begin

text \<open>Enqueueing a list of items, and dequeueing a number of times.\<close>

primrec enq_all :: "'q \<Rightarrow> ('a \<times> int) list \<Rightarrow> 'q option" where
  "enq_all q [] = Some q"
| "enq_all q (x # xs) = do { q' \<leftarrow> enq q (fst x) (snd x); enq_all q' xs }"

primrec drain :: "nat \<Rightarrow> 'q \<Rightarrow> ('a list \<times> 'q) option" where
  "drain 0 q = Some ([], q)"
| "drain (Suc n) q = do {
     (r, q') \<leftarrow> deq q;
     (ys, q'') \<leftarrow> drain n q';
     Some (case r of None \<Rightarrow> ys | Some y \<Rightarrow> y # ys, q'') }"

lemma enq_all_ok:
  "rep q xs \<Longrightarrow> \<forall>x \<in> set ys. ok (snd x) \<Longrightarrow> length xs + length ys \<le> queue_limit \<Longrightarrow>
   \<exists>q' xs'. enq_all q ys = Some q' \<and> rep q' xs' \<and>
     mset (map fst xs') = mset (map fst xs) + mset (map fst ys)"
proof (induct ys arbitrary: q xs)
  case Nil
  then show ?case by auto
next
  case (Cons y ys)
  then obtain q' xs' where q': "enq q (fst y) (snd y) = Some q'" "rep q' xs'"
    "mset (map fst xs') = add_mset (fst y) (mset (map fst xs))"
    using enq_ok [of q xs "snd y" "fst y"] by auto
  have "length xs' = Suc (length xs)" using arg_cong [OF q'(3), of size] by simp
  with Cons q' obtain q'' xs'' where "enq_all q' ys = Some q''" "rep q'' xs''"
    "mset (map fst xs'') = mset (map fst xs') + mset (map fst ys)"
    using Cons.hyps [of q' xs'] by auto
  with q' show ?case by auto
qed

lemma drain_ok:
  "rep q xs \<Longrightarrow> length xs = n \<Longrightarrow>
   \<exists>ys q'. drain n q = Some (ys, q') \<and> rep q' [] \<and> mset ys = mset (map fst xs)"
proof (induct n arbitrary: q xs)
  case 0
  then show ?case by auto
next
  case (Suc n)
  then obtain x xs1 where xs: "xs = x # xs1" "length xs1 = n" by (cases xs) auto
  with Suc.prems obtain q' xs' where q': "deq q = Some (Some (fst x), q')" "rep q' xs'"
    "mset xs' = mset xs1" using deq_ok [of q x xs1] by auto
  have "length xs' = n" using arg_cong [OF q'(3), of size] xs by simp
  with Suc.hyps [OF q'(2)] obtain ys q'' where
    "drain n q' = Some (ys, q'')" "rep q'' []" "mset ys = mset (map fst xs')" by auto
  with q' xs show ?case by auto
qed

text \<open>No item is lost or duplicated between the two.\<close>

lemma enq_all_drain:
  assumes "rep q []" "\<forall>x \<in> set ys. ok (snd x)" "length ys \<le> queue_limit"
  shows "\<exists>q' zs q''. enq_all q ys = Some q' \<and> drain (length ys) q' = Some (zs, q'') \<and> rep q'' [] \<and>
    mset zs = mset (map fst ys)"
proof -
  from enq_all_ok [OF assms(1,2)] assms(3) obtain q' xs' where
    q': "enq_all q ys = Some q'" "rep q' xs'" "mset (map fst xs') = mset (map fst ys)" by auto
  have "length xs' = length ys" using arg_cong [OF q'(3), of size] by simp
  with drain_ok [OF q'(2)] q'(3) obtain zs q'' where
    "drain (length ys) q' = Some (zs, q'')" "rep q'' []" "mset zs = mset (map fst ys)" by auto
  with q'(1) show ?thesis by auto
qed

end

text \<open>A queue whose cursor can also move on without removing the item: round robin.\<close>

locale rotating_queue = ready_queue rep enq deq frnt emp cnt ok
  for rep :: "'q \<Rightarrow> ('a \<times> int) list \<Rightarrow> bool"
    and enq :: "'q \<Rightarrow> 'a \<Rightarrow> int \<Rightarrow> 'q option"
    and deq :: "'q \<Rightarrow> ('a option \<times> 'q) option"
    and frnt :: "'q \<Rightarrow> 'a option option"
    and emp :: "'q \<Rightarrow> bool"
    and cnt :: "'q \<Rightarrow> int"
    and ok :: "int \<Rightarrow> bool" +
  fixes rot :: "'q \<Rightarrow> ('a option \<times> 'q) option"
  assumes rot_ok: "rep q (x # xs) \<Longrightarrow> \<exists>q'. rot q = Some (Some (fst x), q') \<and> rep q' (xs @ [x])"
begin

primrec rotate_n :: "nat \<Rightarrow> 'q \<Rightarrow> ('a list \<times> 'q) option" where
  "rotate_n 0 q = Some ([], q)"
| "rotate_n (Suc n) q = do {
     (r, q') \<leftarrow> rot q;
     (ys, q'') \<leftarrow> rotate_n n q';
     Some (case r of None \<Rightarrow> ys | Some y \<Rightarrow> y # ys, q'') }"

lemma rotate_n_ok:
  "rep q (xs @ ys) \<Longrightarrow> n = length xs \<Longrightarrow>
   \<exists>q'. rotate_n n q = Some (map fst xs, q') \<and> rep q' (ys @ xs)"
proof (induct xs arbitrary: q ys n)
  case Nil
  then show ?case by auto
next
  case (Cons x xs)
  with rot_ok [of q x "xs @ ys"] obtain q' where
    q': "rot q = Some (Some (fst x), q')" "rep q' (xs @ ys @ [x])" by auto
  with Cons.hyps [of q' "ys @ [x]"] obtain q'' where
    "rotate_n (length xs) q' = Some (map fst xs, q'')" "rep q'' ((ys @ [x]) @ xs)" by auto
  with q' Cons.prems(2) show ?case by auto
qed

text \<open>One round serves every item once, in order, and leaves the queue as it was.\<close>

lemma full_round: "rep q xs \<Longrightarrow> \<exists>q'. rotate_n (length xs) q = Some (map fst xs, q') \<and> rep q' xs"
  using rotate_n_ok [of q xs "[]" "length xs"] by simp

end

text \<open>A queue that serves the smallest priority value first.\<close>

locale priority_ready_queue = ready_queue +
  assumes first_min: "rep q (x # xs) \<Longrightarrow> y \<in> set xs \<Longrightarrow> snd x \<le> snd y"
begin

lemma drain_sorted:
  "rep q xs \<Longrightarrow> length xs = n \<Longrightarrow>
   \<exists>zs q'. drain n q = Some (map fst zs, q') \<and> rep q' [] \<and> mset zs = mset xs \<and>
     sorted (map snd zs)"
proof (induct n arbitrary: q xs)
  case 0
  then show ?case by (intro exI [of _ "[]"]) auto
next
  case (Suc n)
  then obtain x xs1 where xs: "xs = x # xs1" "length xs1 = n" by (cases xs) auto
  with Suc.prems obtain q' xs' where q': "deq q = Some (Some (fst x), q')" "rep q' xs'"
    "mset xs' = mset xs1" using deq_ok [of q x xs1] by auto
  have "length xs' = n" using arg_cong [OF q'(3), of size] xs by simp
  with Suc.hyps [OF q'(2)] obtain zs q'' where zs: "drain n q' = Some (map fst zs, q'')"
    "rep q'' []" "mset zs = mset xs'" "sorted (map snd zs)" by auto
  have "\<forall>y \<in> set zs. snd x \<le> snd y"
    using first_min Suc.prems(1) xs(1) zs(3) q'(3) by (metis set_mset_mset)
  with q' xs zs show ?case by (intro exI [of _ "x # zs"]) auto
qed

end

end
