(* ===== verification/Circular_Queue.thy ===== *)
theory Circular_Queue
  imports Dnode_Heap
begin

text \<open>
  DS/circular_queue.c: the ready queue of the round-robin scheduler, a ring of \<open>QueueNode\<close>s.
  \<open>q->tail->next\<close> is the first node of the ring; \<open>q->head\<close> is a cursor that \<open>cq_dequeue\<close> advances
  without removing anything.
\<close>

record 'a CircularQueue =
  cq_heap :: "'a heap"
  cq_head :: ptr
  cq_tail :: ptr
  cq_sz :: int

definition circular_queue :: "'a CircularQueue" where
  "circular_queue = \<lparr>cq_heap = empty_heap, cq_head = NULL, cq_tail = NULL, cq_sz = 0\<rparr>"

definition cq_enqueue :: "'a CircularQueue \<Rightarrow> 'a \<Rightarrow> 'a CircularQueue option" where
  "cq_enqueue q obj =
     (let (node, h) = malloc_node \<lparr>nxt = NULL, prv = NULL, cell = obj\<rparr> (cq_heap q) in
      if cq_tail q = NULL then do {
        h \<leftarrow> set_nxt h node node;
        h \<leftarrow> set_prv h node node;
        Some (q\<lparr>cq_heap := h, cq_head := node, cq_tail := node, cq_sz := wrap32 (cq_sz q + 1)\<rparr>)
      } else do {
        t \<leftarrow> get_node h (cq_tail q);
        h \<leftarrow> set_nxt h node (nxt t);
        h \<leftarrow> set_prv h node (cq_tail q);
        t \<leftarrow> get_node h (cq_tail q);
        h \<leftarrow> set_prv h (nxt t) node;
        h \<leftarrow> set_nxt h (cq_tail q) node;
        Some (q\<lparr>cq_heap := h, cq_tail := node, cq_sz := wrap32 (cq_sz q + 1)\<rparr>)
      })"

text \<open>The results \<open>None\<close> of the queue operations are the NULL the code returns for an empty queue.\<close>

definition cq_dequeue :: "'a CircularQueue \<Rightarrow> ('a option \<times> 'a CircularQueue) option" where
  "cq_dequeue q =
     (if cq_head q = NULL then Some (None, q)
      else do {
        node \<leftarrow> get_node (cq_heap q) (cq_head q);
        Some (Some (cell node), q\<lparr>cq_head := nxt node\<rparr>)
      })"

definition cq_dequeue_and_remove ::
  "'a CircularQueue \<Rightarrow> ('a option \<times> 'a CircularQueue) option" where
  "cq_dequeue_and_remove q =
     (if cq_head q = NULL then Some (None, q)
      else do {
        let node = cq_head q;
        let h = cq_heap q;
        n \<leftarrow> get_node h node;
        let obj = cell n;
        single \<leftarrow> (if node = cq_tail q
                   then do { t \<leftarrow> get_node h (cq_tail q); Some (node = nxt t) }
                   else Some False);
        if single then do {
          h \<leftarrow> free_node h node;
          Some (Some obj, q\<lparr>cq_heap := h, cq_head := NULL, cq_tail := NULL,
                            cq_sz := wrap32 (cq_sz q - 1)\<rparr>)
        } else do {
          h \<leftarrow> set_nxt h (prv n) (nxt n);
          n \<leftarrow> get_node h node;
          h \<leftarrow> set_prv h (nxt n) (prv n);
          n \<leftarrow> get_node h node;
          let tl' = (if node = cq_tail q then prv n else cq_tail q);
          h \<leftarrow> free_node h node;
          Some (Some obj, q\<lparr>cq_heap := h, cq_head := nxt n, cq_tail := tl',
                            cq_sz := wrap32 (cq_sz q - 1)\<rparr>)
        }
      })"

definition cq_front :: "'a CircularQueue \<Rightarrow> 'a option option" where
  "cq_front q =
     (if cq_head q = NULL then Some None
      else do { n \<leftarrow> get_node (cq_heap q) (cq_head q); Some (Some (cell n)) })"

definition cq_free :: "'a CircularQueue \<Rightarrow> 'a heap option" where
  "cq_free q =
     (if cq_tail q = NULL then Some (cq_heap q)
      else do {
        t \<leftarrow> get_node (cq_heap q) (cq_tail q);
        h \<leftarrow> set_nxt (cq_heap q) (cq_tail q) NULL;
        free_chain h (nxt t)
      })"

definition cq_is_empty :: "'a CircularQueue \<Rightarrow> bool" where
  "cq_is_empty q \<longleftrightarrow> cq_sz q = 0"

definition cq_size :: "'a CircularQueue \<Rightarrow> int" where
  "cq_size q = cq_sz q"

section \<open>The ring\<close>

text \<open>
  \<open>cq_rep q as bs\<close>: the ring from \<open>tail->next\<close> on is \<open>as @ bs\<close> and the cursor stands at the first
  node of \<open>bs\<close>, so the objects are served in the order \<open>bs @ as\<close>.
\<close>

definition ring :: "'a CircularQueue \<Rightarrow> (ptr \<times> 'a) list \<Rightarrow> bool" where
  "ring q xs \<longleftrightarrow> cq_tail q = last_addr NULL xs \<and> distinct (map fst xs) \<and>
     (xs \<noteq> [] \<longrightarrow> seg (mem (cq_heap q)) (last_addr NULL xs) (fst (hd xs)) xs (fst (hd xs)))"

definition cq_rep :: "'a CircularQueue \<Rightarrow> (ptr \<times> 'a) list \<Rightarrow> (ptr \<times> 'a) list \<Rightarrow> bool" where
  "cq_rep q as bs \<longleftrightarrow> wf_heap (cq_heap q) \<and> ring q (as @ bs) \<and>
     cq_sz q = int (length (as @ bs)) \<and> length (as @ bs) < 2147483648 \<and>
     (bs = [] \<longrightarrow> as = []) \<and> cq_head q = (if bs = [] then NULL else fst (hd bs))"

definition cq_items :: "'a CircularQueue \<Rightarrow> 'a list \<Rightarrow> bool" where
  "cq_items q xs \<longleftrightarrow> (\<exists>as bs. cq_rep q as bs \<and> xs = map snd (bs @ as))"

lemma cq_rep_init: "cq_rep circular_queue [] []"
  by (simp add: cq_rep_def circular_queue_def ring_def)

lemma cq_enqueue_empty:
  assumes "cq_rep q [] []"
  shows "\<exists>q'. cq_enqueue q x = Some q' \<and> cq_rep q' [] [(brk (cq_heap q), x)]"
  using assms wf_heap_brk_pos [of "cq_heap q"]
  by (auto simp: cq_rep_def ring_def cq_enqueue_def malloc_node_def set_nxt_def set_prv_def
      get_node_def put_node_def wf_heap_def less_Suc_eq c_int)

lemma cq_enqueue_nonempty:
  assumes rep: "cq_rep q as bs" and ne: "bs \<noteq> []" and len: "length (as @ bs) < 2147483647"
  shows "\<exists>q'. cq_enqueue q x = Some q' \<and> cq_rep q' as (bs @ [(brk (cq_heap q), x)])"
proof -
  define xs where "xs = as @ bs"
  define f where "f = fst (hd xs)"
  define t where "t = last_addr NULL xs"
  define a where "a = brk (cq_heap q)"
  let ?m = "mem (cq_heap q)"
  from rep ne have wf: "wf_heap (cq_heap q)" and tl: "cq_tail q = t" and d: "distinct (map fst xs)"
    and s: "seg ?m t f xs f" and sz: "cq_sz q = int (length xs)" and hd: "cq_head q = fst (hd bs)"
    by (auto simp: cq_rep_def ring_def xs_def f_def t_def)
  have xs: "xs \<noteq> []" using ne by (simp add: xs_def)
  have fresh: "a \<notin> addrs xs" "a \<noteq> NULL"
    using seg_fresh [OF s wf] wf_heap_brk_pos [OF wf] by (simp_all add: a_def)
  have tin: "t \<in> addrs xs" and fin: "f \<in> addrs xs"
    using last_addr_in [OF xs] hd_in_set [OF xs] unfolding f_def t_def by blast+
  obtain nt where nt: "?m t = Some nt" "nxt nt = f"
    using seg_last_node [OF s xs] by (auto simp: t_def)
  obtain nf where nf: "?m f = Some nf" using seg_in_heap [OF s] fin by fastforce
  have nz: "t \<noteq> NULL" "f \<noteq> NULL" using seg_in_heap [OF s] tin fin by fastforce+
  have neq: "t \<noteq> a" "f \<noteq> a" using tin fin fresh by metis+
  let ?m1 = "?m(a \<mapsto> \<lparr>nxt = f, prv = t, cell = x\<rparr>)"
  let ?m2 = "?m1(f \<mapsto> nf\<lparr>prv := a\<rparr>)"
  obtain nt2 where nt2: "?m2 t = Some nt2" using nt neq by (cases "t = f") auto
  let ?m3 = "?m2(t \<mapsto> nt2\<lparr>nxt := a\<rparr>)"
  let ?q = "q\<lparr>cq_heap := (cq_heap q)\<lparr>mem := ?m3, brk := Suc a\<rparr>, cq_tail := a,
               cq_sz := int (length xs) + 1\<rparr>"
  have enq: "cq_enqueue q x = Some ?q"
    using nt nt2 nz neq fresh len sz nf
    by (simp add: cq_enqueue_def malloc_node_def heap_op tl c_int put_node_def xs_def
        flip: a_def)
  have "seg ?m1 t f xs f" using s fresh by simp
  then have "seg ?m2 a f xs f" using seg_set_prv_first [OF _ d xs] nf neq by simp
  then have s3: "seg ?m3 a f xs a"
    using seg_set_nxt_last [OF _ d xs] nt2 unfolding t_def by blast
  have "?m3 a = Some \<lparr>nxt = f, prv = t, cell = x\<rparr>" using neq by simp
  with s3 have "seg ?m3 a f (xs @ [(a, x)]) f"
    using fresh(2) last_addr_nonempty [OF xs, of a] unfolding seg_append by (auto simp: t_def)
  then have "ring ?q (xs @ [(a, x)])" using d fresh xs by (simp add: ring_def f_def)
  moreover have "wf_heap ((cq_heap q)\<lparr>mem := ?m3, brk := Suc a\<rparr>)"
    using wf nt nf by (auto simp: wf_heap_def less_Suc_eq a_def)
  ultimately have "cq_rep ?q as (bs @ [(a, x)])"
    using ne hd len unfolding cq_rep_def xs_def by simp
  with enq show ?thesis unfolding a_def by blast
qed

lemma cq_rep_head:
  assumes "cq_rep q as ((p, v) # bs)"
  shows "cq_head q = p" "p \<noteq> NULL" "mem (cq_heap q) p =
    Some \<lparr>nxt = (if bs = [] then fst (hd (as @ [(p, v)])) else fst (hd bs)),
          prv = (if as = [] then cq_tail q else last_addr NULL as), cell = v\<rparr>"
proof -
  let ?xs = "as @ (p, v) # bs"
  from assms have "seg (mem (cq_heap q)) (cq_tail q) (fst (hd ?xs)) ?xs (fst (hd ?xs))"
    and hd: "cq_head q = p"
    by (simp_all add: cq_rep_def ring_def)
  from seg_node [OF this(1)] show "p \<noteq> NULL" "mem (cq_heap q) p =
    Some \<lparr>nxt = (if bs = [] then fst (hd (as @ [(p, v)])) else fst (hd bs)),
          prv = (if as = [] then cq_tail q else last_addr NULL as), cell = v\<rparr>"
    by (auto simp: last_addr_def hd_append)
  show "cq_head q = p" by (rule hd)
qed

lemma cq_front_rep: "cq_rep q as ((p, v) # bs) \<Longrightarrow> cq_front q = Some (Some v)"
  by (simp add: cq_front_def get_node_def cq_rep_head)

lemma cq_front_empty: "cq_rep q [] [] \<Longrightarrow> cq_front q = Some None"
  by (simp add: cq_front_def cq_rep_def)

lemma cq_dequeue_rep:
  assumes "cq_rep q as ((p, v) # bs)"
  shows "\<exists>q'. cq_dequeue q = Some (Some v, q') \<and>
    (if bs = [] then cq_rep q' [] (as @ [(p, v)]) else cq_rep q' (as @ [(p, v)]) bs)"
  using assms cq_rep_head [OF assms]
  by (auto simp: cq_dequeue_def heap_op cq_rep_def ring_def)

lemma cq_dequeue_empty: "cq_rep q [] [] \<Longrightarrow> cq_dequeue q = Some (None, q)"
  by (simp add: cq_dequeue_def cq_rep_def)

lemma cq_remove_empty: "cq_rep q [] [] \<Longrightarrow> cq_dequeue_and_remove q = Some (None, q)"
  by (simp add: cq_dequeue_and_remove_def cq_rep_def)

lemma cq_remove_single:
  assumes "cq_rep q [] [(p, v)]"
  shows "\<exists>q'. cq_dequeue_and_remove q = Some (Some v, q') \<and> cq_rep q' [] []"
  using assms cq_rep_head [OF assms]
  by (auto simp: cq_dequeue_and_remove_def heap_op cq_rep_def ring_def c_int wf_heap_free Let_def)

text \<open>The ring without the node under the cursor: the neighbours meet, and the ring stays closed.\<close>

lemma ring_unlink:
  assumes r: "ring q (as @ (p, v) # bs)" and ne: "as @ bs \<noteq> []"
    and n: "mem (cq_heap q) p = Some n"
  shows "\<exists>nb nc. mem (cq_heap q) (prv n) = Some nb \<and> prv n \<in> addrs (as @ bs) \<and>
     nxt n \<in> addrs (as @ bs) \<and>
     ((mem (cq_heap q))(prv n \<mapsto> nb\<lparr>nxt := nxt n\<rparr>)) (nxt n) = Some nc \<and>
     seg ((mem (cq_heap q))(prv n \<mapsto> nb\<lparr>nxt := nxt n\<rparr>, nxt n \<mapsto> nc\<lparr>prv := prv n\<rparr>))
       (last_addr NULL (as @ bs)) (fst (hd (as @ bs))) (as @ bs) (fst (hd (as @ bs)))"
proof -
  let ?m = "mem (cq_heap q)" and ?xs = "as @ (p, v) # bs"
  from r have d: "distinct (map fst ?xs)"
    and s: "seg ?m (last_addr NULL ?xs) (fst (hd ?xs)) ?xs (fst (hd ?xs))"
    by (simp_all add: ring_def)
  have pn: "n = \<lparr>nxt = (if bs = [] then fst (hd ?xs) else fst (hd bs)),
      prv = last_addr (last_addr NULL ?xs) as, cell = v\<rparr>"
    using seg_node [OF s] n by simp
  have b: "prv n = (if as = [] then last_addr NULL bs else last_addr NULL as)"
    using ne pn by (auto simp: last_addr_def)
  have c: "nxt n = (if bs = [] then fst (hd as) else fst (hd bs))"
    using ne pn by (auto simp: hd_append)
  have bin: "prv n \<in> addrs (as @ bs)" and cin: "nxt n \<in> addrs (as @ bs)"
    using ne b c last_addr_in [of as NULL] last_addr_in [of bs NULL] hd_in_set [of as]
      hd_in_set [of bs] by (auto split: if_splits)
  have in_m: "a \<in> addrs (as @ bs) \<Longrightarrow> \<exists>k. ?m a = Some k" for a
    using seg_in_heap [OF s] by fastforce
  obtain nb where nb: "?m (prv n) = Some nb" using in_m [OF bin] by blast
  let ?m1 = "?m(prv n \<mapsto> nb\<lparr>nxt := nxt n\<rparr>)"
  obtain nc where nc: "?m1 (nxt n) = Some nc" using in_m [OF cin] by (cases "nxt n = prv n") auto
  have "seg (?m1(nxt n \<mapsto> nc\<lparr>prv := prv n\<rparr>))
       (last_addr NULL (as @ bs)) (fst (hd (as @ bs))) (as @ bs) (fst (hd (as @ bs)))"
  proof (cases "as = [] \<or> bs = []")
    case True
    have "seg ?m p (fst (hd (as @ bs))) (as @ bs) p"
      using s True ne by (auto simp: hd_append neq_Nil_conv)
    moreover have "prv n = last_addr NULL (as @ bs)" "nxt n = fst (hd (as @ bs))"
      using True ne b c by auto
    ultimately show ?thesis
      using seg_close [of ?m p _ "as @ bs" nb ?m1 nc] d ne nb nc by auto
  next
    case False
    then have "seg (?m1(nxt n \<mapsto> nc\<lparr>prv := prv n\<rparr>))
        (last_addr NULL ?xs) (fst (hd ?xs)) (as @ bs) (fst (hd ?xs))"
      using seg_unlink [OF s d, of nb ?m1 nc] nb nc b c by auto
    moreover have "last_addr NULL ?xs = last_addr NULL (as @ bs)" "hd ?xs = hd (as @ bs)"
      using False by (auto simp: last_addr_def)
    ultimately show ?thesis by (simp only:)
  qed
  with nb nc bin cin show ?thesis by blast
qed

lemma cq_remove_many:
  assumes rep: "cq_rep q as ((p, v) # bs)" and ne: "as @ bs \<noteq> []"
  shows "\<exists>q'. cq_dequeue_and_remove q = Some (Some v, q') \<and>
    (if bs = [] then cq_rep q' [] as else cq_rep q' as bs)"
proof -
  let ?m = "mem (cq_heap q)"
  have r: "ring q (as @ (p, v) # bs)" and wf: "wf_heap (cq_heap q)"
    using rep by (simp_all add: cq_rep_def)
  from cq_rep_head [OF rep] obtain n where n: "?m p = Some n" "cell n = v"
    and p: "cq_head q = p" "p \<noteq> NULL" by auto
  from ring_unlink [OF r ne n(1)] obtain nb nc where
    nb: "?m (prv n) = Some nb" and bin: "prv n \<in> addrs (as @ bs)" and cin: "nxt n \<in> addrs (as @ bs)"
    and nc: "(?m(prv n \<mapsto> nb\<lparr>nxt := nxt n\<rparr>)) (nxt n) = Some nc"
    and s: "seg (?m(prv n \<mapsto> nb\<lparr>nxt := nxt n\<rparr>, nxt n \<mapsto> nc\<lparr>prv := prv n\<rparr>))
       (last_addr NULL (as @ bs)) (fst (hd (as @ bs))) (as @ bs) (fst (hd (as @ bs)))"
    by blast
  have pnot: "p \<notin> addrs (as @ bs)" using r by (auto simp: ring_def)
  then have neq: "prv n \<noteq> p" "nxt n \<noteq> p" using bin cin by metis+
  have "\<exists>k. ?m (nxt n) = Some k" using nc nb by (cases "nxt n = prv n") auto
  then have nz: "prv n \<noteq> NULL" "nxt n \<noteq> NULL"
    using wf nb by (auto simp: wf_heap_def)
  let ?m' = "?m(prv n \<mapsto> nb\<lparr>nxt := nxt n\<rparr>, nxt n \<mapsto> nc\<lparr>prv := prv n\<rparr>, p := None)"
  let ?q = "q\<lparr>cq_heap := (cq_heap q)\<lparr>mem := ?m'\<rparr>, cq_head := nxt n,
               cq_tail := (if p = cq_tail q then prv n else cq_tail q), cq_sz := wrap32 (cq_sz q - 1)\<rparr>"
  have "cq_dequeue_and_remove q = Some (Some v, ?q)"
    using p n nb nc nz neq
    by (cases "p = cq_tail q") (auto simp: cq_dequeue_and_remove_def heap_op Let_def put_node_def)
  moreover have "wf_heap (cq_heap ?q)"
    using wf nb nc by (auto simp: wf_heap_def split: if_splits)
  moreover have "cq_tail ?q = last_addr NULL (as @ bs)"
    using cq_rep_head [OF rep] rep n ne r by (auto simp: ring_def last_addr_def)
  then have "ring ?q (as @ bs)" using r s pnot by (auto simp: ring_def)
  moreover have "cq_head ?q = fst (hd (if bs = [] then as else bs))"
    using cq_rep_head [OF rep] n ne by (auto simp: hd_append)
  ultimately show ?thesis using ne rep by (auto simp: cq_rep_def c_int)
qed

text \<open>\<open>cq_free\<close> ends and releases exactly the nodes of the ring.\<close>

lemma cq_free_rep:
  assumes "cq_rep q as bs"
  shows "cq_free q = Some ((cq_heap q)\<lparr>mem := mem (cq_heap q) |` (- addrs (as @ bs))\<rparr>)"
proof (cases "bs = []")
  case True
  then show ?thesis using assms by (simp add: cq_rep_def ring_def cq_free_def restrict_map_def)
next
  case False
  define xs where "xs = as @ bs"
  let ?m = "mem (cq_heap q)" and ?t = "last_addr NULL xs" and ?f = "fst (hd xs)"
  have ne: "xs \<noteq> []" using False by (simp add: xs_def)
  with assms have t: "cq_tail q = ?t" and d: "distinct (map fst xs)" and s: "seg ?m ?t ?f xs ?f"
    by (simp_all add: cq_rep_def ring_def xs_def)
  from seg_last_node [OF s ne] obtain n where n: "?m ?t = Some n" "nxt n = ?f" by auto
  have nz: "?t \<noteq> NULL" using seg_in_heap [OF s] last_addr_in [OF ne] by fastforce
  let ?h = "put_node (cq_heap q) ?t (n\<lparr>nxt := NULL\<rparr>)"
  have "seg (mem ?h) ?t ?f xs NULL" using seg_set_nxt_last [OF s d ne n(1)] by simp
  then have "free_chain ?h ?f = Some (?h\<lparr>mem := mem ?h |` (- addrs xs)\<rparr>)"
    by (rule free_chain_seg)
  moreover have "mem ?h |` (- addrs xs) = ?m |` (- addrs xs)"
    using last_addr_in [OF ne, of NULL] by (auto simp: restrict_map_def fun_eq_iff)
  ultimately show ?thesis
    using n nz by (simp add: cq_free_def t heap_op xs_def put_node_def)
qed

section \<open>The service order\<close>

lemma cq_items_init: "cq_items circular_queue []"
  using cq_rep_init by (auto simp: cq_items_def)

lemma cq_items_length: "cq_items q xs \<Longrightarrow> cq_sz q = int (length xs)"
  by (auto simp: cq_items_def cq_rep_def)

lemma cq_items_NilE: "cq_items q [] \<Longrightarrow> cq_rep q [] []"
  by (auto simp: cq_items_def)

lemma cq_items_ConsE:
  assumes "cq_items q (x # xs)"
  obtains as p bs where "cq_rep q as ((p, x) # bs)" "xs = map snd (bs @ as)"
proof -
  from assms obtain as bs where r: "cq_rep q as bs" "x # xs = map snd (bs @ as)"
    by (auto simp: cq_items_def)
  then have "bs \<noteq> []" by (auto simp: cq_rep_def)
  with r that show ?thesis by (cases bs) auto
qed

lemma cq_items_nodes: "cq_rep q as bs \<Longrightarrow> cq_items q (map snd (bs @ as))"
  by (auto simp: cq_items_def)

text \<open>
  A new object goes behind the node the tail pointer marks, so in the service order it stands
  before the nodes \<open>as\<close> the cursor has already passed.
\<close>

lemma cq_enqueue_rep:
  assumes "cq_rep q as bs" "length (as @ bs) < 2147483647"
  shows "\<exists>q'. cq_enqueue q x = Some q' \<and> cq_rep q' as (bs @ [(brk (cq_heap q), x)])"
  using assms cq_enqueue_empty [of q x] cq_enqueue_nonempty [of q as bs x]
  by (cases "bs = []") (auto simp: cq_rep_def)

lemma cq_dequeue_items:
  assumes "cq_items q (x # xs)"
  shows "\<exists>q'. cq_dequeue q = Some (Some x, q') \<and> cq_items q' (xs @ [x])"
  using assms
proof (rule cq_items_ConsE)
  fix as p bs
  assume r: "cq_rep q as ((p, x) # bs)" "xs = map snd (bs @ as)"
  from cq_dequeue_rep [OF r(1)] obtain q' where q': "cq_dequeue q = Some (Some x, q')"
    "if bs = [] then cq_rep q' [] (as @ [(p, x)]) else cq_rep q' (as @ [(p, x)]) bs" by blast
  then have "cq_items q' (xs @ [x])"
    using r(2) cq_items_nodes [of q' "[]"] cq_items_nodes [of q' _ bs]
    by (fastforce split: if_splits)
  with q' show ?thesis by blast
qed

lemma cq_remove_items:
  assumes "cq_items q (x # xs)"
  shows "\<exists>q'. cq_dequeue_and_remove q = Some (Some x, q') \<and> cq_items q' xs"
  using assms
proof (rule cq_items_ConsE)
  fix as p bs
  assume r: "cq_rep q as ((p, x) # bs)" and xs: "xs = map snd (bs @ as)"
  show ?thesis
  proof (cases "as @ bs = []")
    case True
    then show ?thesis using cq_remove_single [of q p x] r xs cq_items_nodes by fastforce
  next
    case False
    from cq_remove_many [OF r False] xs show ?thesis
      using cq_items_nodes by (fastforce split: if_splits)
  qed
qed

lemma cq_front_items: "cq_items q xs \<Longrightarrow> cq_front q = Some (if xs = [] then None else Some (hd xs))"
  by (cases xs) (auto dest: cq_items_NilE simp: cq_front_empty cq_front_rep elim!: cq_items_ConsE)

section \<open>Properties\<close>

text \<open>
  C32: enqueueing keeps the ring: the new object is linked in behind the tail, that is in the order
  of service after the objects the cursor has still to reach in this round and before those it has
  already passed.
\<close>

theorem cq_enqueue_position:
  assumes "cq_rep q as bs" "length (as @ bs) < 2147483647"
  shows "\<exists>q' node. cq_enqueue q obj = Some q' \<and> node \<notin> addrs (as @ bs) \<and>
    cq_rep q' as (bs @ [(node, obj)]) \<and> cq_items q' (map snd bs @ [obj] @ map snd as)"
proof -
  from cq_enqueue_rep [OF assms] obtain q' where
    q': "cq_enqueue q obj = Some q'" "cq_rep q' as (bs @ [(brk (cq_heap q), obj)])" by blast
  have "distinct (map fst (as @ bs @ [(brk (cq_heap q), obj)]))"
    using q'(2) by (simp add: cq_rep_def ring_def)
  then have "brk (cq_heap q) \<notin> addrs (as @ bs)" by auto
  then show ?thesis using q' cq_items_nodes [OF q'(2)] by auto
qed

theorem cq_enqueue_position_witness:
  "\<exists>q node. cq_enqueue circular_queue ''P1'' = Some q \<and> cq_rep q [] [(node, ''P1'')]"
  using cq_enqueue_position [OF cq_rep_init, of "''P1''"] by auto

text \<open>A number of calls of \<open>cq_dequeue\<close>, with the objects they return.\<close>

primrec cq_serve :: "nat \<Rightarrow> 'a CircularQueue \<Rightarrow> ('a option list \<times> 'a CircularQueue) option" where
  "cq_serve 0 q = Some ([], q)"
| "cq_serve (Suc n) q = do {
     (r, q) \<leftarrow> cq_dequeue q;
     (rs, q) \<leftarrow> cq_serve n q;
     Some (r # rs, q)
   }"

lemma cq_serve_items:
  "cq_items q (xs @ ys) \<Longrightarrow> \<exists>q'. cq_serve (length xs) q = Some (map Some xs, q') \<and> cq_items q' (ys @ xs)"
proof (induct xs arbitrary: q ys)
  case Nil
  then show ?case by simp
next
  case (Cons x xs)
  obtain q1 where q1: "cq_dequeue q = Some (Some x, q1)" "cq_items q1 (xs @ ys @ [x])"
    using cq_dequeue_items [of q x "xs @ ys"] Cons.prems by auto
  from Cons.hyps [of q1 "ys @ [x]"] q1 show ?case by auto
qed

text \<open>
  One round of \<open>cq_dequeue\<close> returns every object of the queue exactly once, in order, and leaves
  the queue as it was.
\<close>

theorem cq_full_round:
  assumes "cq_items q xs"
  shows "\<exists>q'. cq_serve (length xs) q = Some (map Some xs, q') \<and> cq_items q' xs"
  using cq_serve_items [of q xs "[]"] assms by simp

theorem cq_full_round_witness:
  "\<exists>q q'. cq_enqueue circular_queue ''P1'' = Some q \<and> cq_serve 1 q = Some ([Some ''P1''], q') \<and>
     cq_items q' [''P1'']"
proof -
  obtain q node where "cq_enqueue circular_queue ''P1'' = Some q" "cq_rep q [] [(node, ''P1'')]"
    using cq_enqueue_rep [OF cq_rep_init, of "''P1''"] by auto
  then show ?thesis using cq_full_round [of q "[''P1'']"] cq_items_nodes by fastforce
qed

text \<open>
  \<open>cq_dequeue_and_remove\<close> returns the object under the cursor, unlinks its node and leaves the
  others in their order of service.
\<close>

theorem cq_remove_correct:
  assumes "cq_items q (x # xs)"
  shows "\<exists>q'. cq_dequeue_and_remove q = Some (Some x, q') \<and> cq_items q' xs \<and> cq_size q' = cq_size q - 1"
proof -
  obtain q' where "cq_dequeue_and_remove q = Some (Some x, q')" "cq_items q' xs"
    using cq_remove_items [OF assms] by blast
  then show ?thesis using cq_items_length [OF assms] cq_items_length [of q' xs] by (simp add: cq_size_def)
qed

theorem cq_remove_correct_witness:
  "\<exists>q q'. cq_enqueue circular_queue ''P1'' = Some q \<and> cq_dequeue_and_remove q = Some (Some ''P1'', q') \<and>
     cq_items q' []"
proof -
  obtain q node where "cq_enqueue circular_queue ''P1'' = Some q" "cq_rep q [] [(node, ''P1'')]"
    using cq_enqueue_rep [OF cq_rep_init, of "''P1''"] by auto
  then show ?thesis using cq_remove_correct [of q "''P1''" "[]"] cq_items_nodes by fastforce
qed

text \<open>\<open>cq_free\<close> ends and frees every node of the ring once, and no other memory.\<close>

theorem cq_free_frees:
  assumes "cq_rep q as bs"
  shows "cq_free q = Some ((cq_heap q)\<lparr>mem := mem (cq_heap q) |` (- addrs (as @ bs))\<rparr>)"
  by (rule cq_free_rep [OF assms])

theorem cq_free_frees_witness:
  "cq_free (circular_queue :: int CircularQueue) =
     Some ((cq_heap (circular_queue :: int CircularQueue))
       \<lparr>mem := mem (cq_heap (circular_queue :: int CircularQueue)) |` (- addrs ([] @ [] :: (ptr \<times> int) list))\<rparr>)"
  by (rule cq_free_frees [OF cq_rep_init])

end
