(* ===== verification/Priority_Queue.thy ===== *)
theory Priority_Queue
  imports Prelude
begin

text \<open>
  DS/priority_queue.c: the ready queue of the HPF and SRTN schedulers, a binary heap in an array.
  \<open>pq_nodes\<close> holds the used part \<open>nodes[0 .. size-1]\<close> of the array; each entry of the C array points
  to a \<open>PQueueNode\<close> no other entry points to, so a list of nodes carries the same information.
  Priorities are stored negated: the largest stored value is the smallest priority.
\<close>

record 'a pqnode =
  item :: 'a
  priority :: int

record 'a pqueue =
  pq_capacity :: int
  pq_nodes :: "'a pqnode list"

definition priority_queue :: "'a pqueue" where
  "priority_queue = \<lparr>pq_capacity = 100, pq_nodes = []\<rparr>"

definition pq_size :: "'a pqueue \<Rightarrow> int" where
  "pq_size pq = int (length (pq_nodes pq))"

definition pq_is_empty :: "'a pqueue \<Rightarrow> bool" where
  "pq_is_empty pq \<longleftrightarrow> pq_size pq = 0"

definition compare_priority :: "'a pqnode \<Rightarrow> 'a pqnode \<Rightarrow> int" where
  "compare_priority a b = wrap32 (priority a - priority b)"

definition pq_swap :: "'a list \<Rightarrow> nat \<Rightarrow> nat \<Rightarrow> 'a list" where
  "pq_swap ns i j = ns[i := ns ! j, j := ns ! i]"

text \<open>
  The loop of \<open>pq_enqueue\<close> and of \<open>pq_change_priority\<close> that moves a node up. The source calls the
  index of the moving node \<open>parent\<close> and that of its parent \<open>child\<close>.
\<close>

fun sift_up :: "'a pqnode list \<Rightarrow> nat \<Rightarrow> 'a pqnode list" where
  "sift_up ns parent =
     (if parent > 0 then
        (let child = (parent - 1) div 2 in
         if compare_priority (ns ! parent) (ns ! child) > 0
         then sift_up (pq_swap ns parent child) child
         else ns)
      else ns)"

declare sift_up.simps [simp del]

definition pq_enqueue :: "'a pqueue \<Rightarrow> 'a \<Rightarrow> int \<Rightarrow> 'a pqueue" where
  "pq_enqueue pq x p =
     (let newNode = \<lparr>item = x, priority = wrap32 (- p)\<rparr>;
          cap = (if pq_size pq = pq_capacity pq then wrap32 (pq_capacity pq * 2) else pq_capacity pq);
          ns = pq_nodes pq @ [newNode]
      in \<lparr>pq_capacity = cap, pq_nodes = sift_up ns (length ns - 1)\<rparr>)"

text \<open>The index \<open>pq_heapify\<close> calls \<open>smallest\<close>: of a node and its children, the one to stand on top.\<close>

definition heapify_pick :: "'a pqnode list \<Rightarrow> nat \<Rightarrow> nat" where
  "heapify_pick ns parent =
     (let left = 2 * parent + 1; right = 2 * parent + 2; n = length ns;
          smallest = (if left < n \<and> compare_priority (ns ! left) (ns ! parent) > 0 then left else parent)
      in if right < n \<and> compare_priority (ns ! right) (ns ! smallest) > 0 then right else smallest)"

lemma heapify_pick_cases:
  "heapify_pick ns i = i \<or>
   heapify_pick ns i \<in> {2 * i + 1, 2 * i + 2} \<and> heapify_pick ns i < length ns"
  by (auto simp: heapify_pick_def Let_def)

lemma length_pq_swap [simp]: "length (pq_swap ns i j) = length ns"
  by (simp add: pq_swap_def)

function pq_heapify :: "'a pqnode list \<Rightarrow> nat \<Rightarrow> 'a pqnode list" where
  "pq_heapify ns parent =
     (let smallest = heapify_pick ns parent in
      if smallest \<noteq> parent then pq_heapify (pq_swap ns parent smallest) smallest else ns)"
  by pat_completeness auto
termination
proof (relation "measure (\<lambda>(ns, i). length ns - i)", simp)
  fix ns :: "'a pqnode list" and parent smallest
  assume "smallest = heapify_pick ns parent" "smallest \<noteq> parent"
  with heapify_pick_cases [of ns parent]
  show "((pq_swap ns parent smallest, smallest), ns, parent) \<in> measure (\<lambda>(ns, i). length ns - i)"
    by auto
qed

declare pq_heapify.simps [simp del]

definition pq_dequeue :: "'a pqueue \<Rightarrow> 'a option \<times> 'a pqueue" where
  "pq_dequeue pq =
     (if pq_is_empty pq then (None, pq)
      else
        (let ns = pq_nodes pq; frontItem = item (ns ! 0); n = length ns;
             ns' = take (n - 1) (pq_swap ns 0 (n - 1))
         in (Some frontItem, pq\<lparr>pq_nodes := if ns' \<noteq> [] then pq_heapify ns' 0 else ns'\<rparr>)))"

definition pq_front :: "'a pqueue \<Rightarrow> 'a option" where
  "pq_front pq = (if pq_is_empty pq then None else Some (item (pq_nodes pq ! 0)))"

definition pq_change_priority :: "'a pqueue \<Rightarrow> int \<Rightarrow> int \<Rightarrow> 'a pqueue" where
  "pq_change_priority pq index new_priority =
     (if index < 0 \<or> index \<ge> pq_size pq then pq
      else
        (let ns = pq_nodes pq; i = nat index;
             old_priority = priority (ns ! i);
             ns' = ns[i := (ns ! i)\<lparr>priority := wrap32 (- new_priority)\<rparr>]
         in if wrap32 (- new_priority) > old_priority then pq\<lparr>pq_nodes := sift_up ns' i\<rparr>
            else if wrap32 (- new_priority) < old_priority then pq\<lparr>pq_nodes := pq_heapify ns' i\<rparr>
            else pq\<lparr>pq_nodes := ns'\<rparr>))"

text \<open>
  \<open>pq_free\<close>: what it passes to \<open>free\<close>, in order. The entries up to \<open>size\<close> have a node; those of removed
  items were freed by \<open>pq_dequeue\<close>.
\<close>

definition pq_parts :: "'a pqueue \<Rightarrow> part set" where
  "pq_parts pq = {Whole, Array} \<union> Slot ` {..<length (pq_nodes pq)}"

definition pq_free :: "'a pqueue \<Rightarrow> part list" where
  "pq_free pq =
     (if pq_is_empty pq then [Whole] else map Slot [0..<length (pq_nodes pq)] @ [Array, Whole])"

text \<open>Each object is freed at most once; on an empty queue the array is not freed at all.\<close>

lemma pq_free_frees:
  "distinct (pq_free pq) \<and> set (pq_free pq) = (if pq_is_empty pq then pq_parts pq - {Array} else pq_parts pq)"
  by (auto simp: pq_free_def pq_parts_def pq_is_empty_def pq_size_def distinct_map atLeast0LessThan)

section \<open>Permutation\<close>

lemma mset_pq_swap: "i < length ns \<Longrightarrow> j < length ns \<Longrightarrow> mset (pq_swap ns i j) = mset ns"
  by (simp add: pq_swap_def mset_swap)

lemma mset_sift_up: "i < length ns \<Longrightarrow> mset (sift_up ns i) = mset ns"
proof (induct ns i rule: sift_up.induct)
  case (1 ns i)
  have "(i - 1) div 2 < length ns" using 1(2) by auto
  with 1 show ?case by (subst sift_up.simps) (simp add: Let_def mset_pq_swap)
qed

lemma mset_pq_heapify: "i < length ns \<Longrightarrow> mset (pq_heapify ns i) = mset ns"
proof (induct ns i rule: pq_heapify.induct)
  case (1 ns i)
  have "heapify_pick ns i < length ns" using heapify_pick_cases [of ns i] 1(2) by auto
  with 1 show ?case by (subst pq_heapify.simps) (simp add: Let_def mset_pq_swap)
qed

section \<open>The heap order\<close>

abbreviation key :: "'a pqnode list \<Rightarrow> nat \<Rightarrow> int" where
  "key ns i \<equiv> priority (ns ! i)"

definition par :: "nat \<Rightarrow> nat" where
  "par i = (i - 1) div 2"

lemma par_less: "0 < i \<Longrightarrow> par i < i"
  by (auto simp: par_def)

lemma sift_up_par:
  "sift_up ns i =
     (if 0 < i \<and> compare_priority (ns ! i) (ns ! par i) > 0
      then sift_up (pq_swap ns i (par i)) (par i) else ns)"
  by (subst sift_up.simps) (simp add: Let_def par_def)

definition is_heap :: "'a pqnode list \<Rightarrow> bool" where
  "is_heap ns \<longleftrightarrow> (\<forall>i < length ns. 0 < i \<longrightarrow> key ns i \<le> key ns (par i))"

text \<open>
  Priorities for which \<open>compare_priority\<close>, a subtraction, tells the order: their difference stays
  an \<open>int\<close>.
\<close>

definition prio_ok :: "int \<Rightarrow> bool" where
  "prio_ok p \<longleftrightarrow> - 1073741824 < p \<and> p < 1073741824"

definition prios_ok :: "'a pqnode list \<Rightarrow> bool" where
  "prios_ok ns \<longleftrightarrow> (\<forall>n \<in> set ns. prio_ok (priority n))"

lemma compare_priority_pos:
  "prio_ok (priority a) \<Longrightarrow> prio_ok (priority b) \<Longrightarrow>
   compare_priority a b > 0 \<longleftrightarrow> priority b < priority a"
  by (auto simp: compare_priority_def prio_ok_def c_int)

lemma prios_ok_nth: "prios_ok ns \<Longrightarrow> i < length ns \<Longrightarrow> prio_ok (key ns i)"
  by (simp add: prios_ok_def)

lemma prios_ok_mset: "mset ns = mset ns' \<Longrightarrow> prios_ok ns = prios_ok ns'"
  by (metis prios_ok_def set_mset_mset)

lemma key_swap:
  "i < length ns \<Longrightarrow> j < length ns \<Longrightarrow>
   key (pq_swap ns i j) k = (if k = j then key ns i else if k = i then key ns j else key ns k)"
  by (auto simp: pq_swap_def nth_list_update)

lemma children: "0 < j \<Longrightarrow> (par j = i) = (j = 2 * i + 1 \<or> j = 2 * i + 2)"
  unfolding par_def by arith

text \<open>A heap but for the node at \<open>i\<close>, too large for its parent, or too small for its children.\<close>

definition heap_up :: "'a pqnode list \<Rightarrow> nat \<Rightarrow> bool" where
  "heap_up ns i \<longleftrightarrow>
     (\<forall>j < length ns. 0 < j \<longrightarrow> (j \<noteq> i \<longrightarrow> key ns j \<le> key ns (par j)) \<and>
        (par j = i \<and> 0 < i \<longrightarrow> key ns j \<le> key ns (par i)))"

definition heap_down :: "'a pqnode list \<Rightarrow> nat \<Rightarrow> bool" where
  "heap_down ns i \<longleftrightarrow>
     (\<forall>j < length ns. 0 < j \<longrightarrow> (par j \<noteq> i \<longrightarrow> key ns j \<le> key ns (par j)) \<and>
        (par j = i \<and> 0 < i \<longrightarrow> key ns j \<le> key ns (par i)))"

lemma heap_up_step:
  assumes h: "heap_up ns i" and i: "0 < i" "i < length ns" and gt: "key ns (par i) < key ns i"
  shows "heap_up (pq_swap ns i (par i)) (par i)"
proof -
  have a: "j < length ns \<Longrightarrow> 0 < j \<Longrightarrow> j \<noteq> i \<Longrightarrow> key ns j \<le> key ns (par j)" for j
    using h by (auto simp: heap_up_def)
  have b: "j < length ns \<Longrightarrow> 0 < j \<Longrightarrow> par j = i \<Longrightarrow> key ns j \<le> key ns (par i)" for j
    using h i by (auto simp: heap_up_def)
  define p where "p = par i"
  have p: "p < length ns" "p < i" using i par_less [of i] by (auto simp: p_def)
  have sw: "key (pq_swap ns i p) k = (if k = p then key ns i else if k = i then key ns p else key ns k)"
    for k using i p by (simp add: key_swap)
  have gt': "key ns p < key ns i" using gt by (simp add: p_def)
  have up: "key (pq_swap ns i p) j \<le> key (pq_swap ns i p) (par j)"
    if j: "j < length ns" "0 < j" "j \<noteq> p" for j
  proof -
    consider "j = i" | "j \<noteq> i" "par j = i" | "j \<noteq> i" "par j = p" | "j \<noteq> i" "par j \<noteq> i" "par j \<noteq> p"
      by blast
    then show ?thesis
    proof cases
      case 1
      then show ?thesis using gt' p by (simp add: sw p_def [symmetric])
    next
      case 2
      then show ?thesis using b [OF j(1,2)] j p by (simp add: sw p_def [symmetric])
    next
      case 3
      then show ?thesis using a [OF j(1,2)] j gt' by (simp add: sw)
    next
      case 4
      then show ?thesis using a [OF j(1,2)] j by (simp add: sw)
    qed
  qed
  have grand: "key (pq_swap ns i p) j \<le> key (pq_swap ns i p) (par p)"
    if j: "j < length ns" "0 < j" "par j = p" "0 < p" for j
  proof -
    have pp: "par p \<noteq> p" "par p \<noteq> i" "j \<noteq> p"
      using par_less [OF j(4)] par_less [OF j(2)] j(3) p by auto
    have "key ns p \<le> key ns (par p)" using a [of p] j(4) p by simp
    then show ?thesis using a [OF j(1,2)] j(3) pp gt' by (simp add: sw) linarith
  qed
  from up grand show ?thesis unfolding heap_up_def p_def [symmetric] by simp
qed

lemma compare_key:
  "prios_ok ns \<Longrightarrow> i < length ns \<Longrightarrow> j < length ns \<Longrightarrow>
   compare_priority (ns ! i) (ns ! j) > 0 \<longleftrightarrow> key ns j < key ns i"
  by (simp add: compare_priority_pos prios_ok_nth)

lemma prios_ok_swap:
  "i < length ns \<Longrightarrow> j < length ns \<Longrightarrow> prios_ok (pq_swap ns i j) = prios_ok ns"
  by (rule prios_ok_mset) (rule mset_pq_swap)

lemma sift_up_heap: "heap_up ns i \<Longrightarrow> i < length ns \<Longrightarrow> prios_ok ns \<Longrightarrow> is_heap (sift_up ns i)"
proof (induct i arbitrary: ns rule: less_induct)
  case (less i)
  have p: "par i < length ns" using less(3) by (auto simp: par_def)
  show ?case
  proof (cases "0 < i \<and> key ns (par i) < key ns i")
    case True
    then have "is_heap (sift_up (pq_swap ns i (par i)) (par i))"
      using less p by (intro less(1)) (auto intro: heap_up_step par_less simp: prios_ok_swap)
    with True less(3,4) p show ?thesis by (subst sift_up_par) (simp add: compare_key)
  next
    case False
    have "is_heap ns"
      unfolding is_heap_def
    proof (intro allI impI)
      fix j assume "j < length ns" "0 < j"
      with less(2) False show "key ns j \<le> key ns (par j)"
        by (cases "j = i") (auto simp: heap_up_def)
    qed
    then show ?thesis using False less(3,4) p by (subst sift_up_par) (auto simp: compare_key)
  qed
qed

lemma heapify_pick_stay:
  "prios_ok ns \<Longrightarrow> i < length ns \<Longrightarrow> heapify_pick ns i = i \<Longrightarrow>
   j < length ns \<Longrightarrow> 0 < j \<Longrightarrow> par j = i \<Longrightarrow> key ns j \<le> key ns i"
  by (auto simp: heapify_pick_def Let_def compare_key children split: if_splits)

lemma heapify_pick_move:
  assumes "prios_ok ns" "i < length ns" "heapify_pick ns i \<noteq> i"
  shows "heapify_pick ns i < length ns" "0 < heapify_pick ns i" "par (heapify_pick ns i) = i"
    and "key ns i < key ns (heapify_pick ns i)"
    and "j < length ns \<Longrightarrow> 0 < j \<Longrightarrow> par j = i \<Longrightarrow> key ns j \<le> key ns (heapify_pick ns i)"
proof -
  let ?s = "heapify_pick ns i"
  show l: "?s < length ns" and z: "0 < ?s" using heapify_pick_cases [of ns i] assms(3) by auto
  show "par ?s = i" using heapify_pick_cases [of ns i] assms(3) z by (simp add: children)
  show "key ns i < key ns ?s"
    using assms by (auto simp: heapify_pick_def Let_def compare_key split: if_splits)
  show "j < length ns \<Longrightarrow> 0 < j \<Longrightarrow> par j = i \<Longrightarrow> key ns j \<le> key ns ?s"
    using assms by (auto simp: heapify_pick_def Let_def compare_key children split: if_splits)
qed

lemma heap_down_step:
  assumes h: "heap_down ns i" and s: "s < length ns" "0 < s" "par s = i"
    and gt: "key ns i < key ns s"
    and mx: "\<And>j. j < length ns \<Longrightarrow> 0 < j \<Longrightarrow> par j = i \<Longrightarrow> key ns j \<le> key ns s"
  shows "heap_down (pq_swap ns i s) s"
proof -
  have i: "i < s" "i < length ns" using par_less [OF s(2)] s by auto
  have sw: "key (pq_swap ns i s) k = (if k = s then key ns i else if k = i then key ns s else key ns k)"
    for k using i s by (simp add: key_swap)
  have a: "j < length ns \<Longrightarrow> 0 < j \<Longrightarrow> par j \<noteq> i \<Longrightarrow> key ns j \<le> key ns (par j)" for j
    using h by (auto simp: heap_down_def)
  have b: "0 < i \<Longrightarrow> key ns s \<le> key ns (par i)" using h s by (auto simp: heap_down_def)
  have down: "key (pq_swap ns i s) j \<le> key (pq_swap ns i s) (par j)"
    if j: "j < length ns" "0 < j" "par j \<noteq> s" for j
  proof -
    consider "j = i" | "j \<noteq> i" "par j = i" | "j \<noteq> i" "j \<noteq> s" "par j \<noteq> i" using s by blast
    then show ?thesis
    proof cases
      case 1
      then show ?thesis using b j i par_less [of i] by (simp add: sw)
    next
      case 2
      then show ?thesis using mx [OF j(1,2)] j i gt by (simp add: sw)
    next
      case 3
      then show ?thesis using a [OF j(1,2)] j i by (simp add: sw)
    qed
  qed
  have grand: "key (pq_swap ns i s) j \<le> key (pq_swap ns i s) (par s)"
    if j: "j < length ns" "0 < j" "par j = s" for j
  proof -
    have "j \<noteq> s" "j \<noteq> i" using par_less [OF j(2)] j(3) i by auto
    then show ?thesis using a [OF j(1,2)] j(3) i s by (simp add: sw)
  qed
  from down grand show ?thesis unfolding heap_down_def by simp
qed

lemma pq_heapify_heap:
  "heap_down ns i \<Longrightarrow> i < length ns \<Longrightarrow> prios_ok ns \<Longrightarrow> is_heap (pq_heapify ns i)"
proof (induct ns i rule: pq_heapify.induct)
  case (1 ns i)
  let ?s = "heapify_pick ns i"
  show ?case
  proof (cases "?s = i")
    case True
    have "is_heap ns"
      unfolding is_heap_def
    proof (intro allI impI)
      fix j assume "j < length ns" "0 < j"
      with 1 True show "key ns j \<le> key ns (par j)"
        by (cases "par j = i") (auto simp: heap_down_def dest: heapify_pick_stay)
    qed
    then show ?thesis using True by (subst pq_heapify.simps) (simp add: Let_def)
  next
    case False
    note mv = heapify_pick_move [OF 1(4,3) False]
    have "is_heap (pq_heapify (pq_swap ns i ?s) ?s)"
      using 1(2-) False mv by (intro 1(1)) (auto intro: heap_down_step simp: prios_ok_swap)
    then show ?thesis using False by (subst pq_heapify.simps) (simp add: Let_def)
  qed
qed

lemma is_heap_up: "is_heap ns \<Longrightarrow> heap_up (ns @ [n]) (length ns)"
  unfolding heap_up_def
proof (intro allI impI conjI; (elim conjE)?)
  fix j assume j: "is_heap ns" "j < length (ns @ [n])" "0 < j"
  { assume "j \<noteq> length ns"
    with j par_less [OF j(3)] show "key (ns @ [n]) j \<le> key (ns @ [n]) (par j)"
      by (auto simp: is_heap_def nth_append) }
  { assume "par j = length ns"
    with j par_less [OF j(3)] show "key (ns @ [n]) j \<le> key (ns @ [n]) (par (length ns))"
      by simp }
qed

lemma is_heap_root: "is_heap ns \<Longrightarrow> i < length ns \<Longrightarrow> key ns i \<le> key ns 0"
proof (induct i rule: less_induct)
  case (less i)
  show ?case
  proof (cases "0 < i")
    case True
    with less have "key ns i \<le> key ns (par i)" "key ns (par i) \<le> key ns 0"
      using par_less [OF True] by (auto simp: is_heap_def)
    then show ?thesis by simp
  qed simp
qed

section \<open>The queue\<close>

text \<open>
  \<open>pq_rep pq xs\<close>: the queue holds the pairs \<open>xs\<close> of an item and the priority it was given, heap
  ordered, so the first pair is the one to be served.
\<close>

abbreviation pq_pair :: "'a pqnode \<Rightarrow> 'a \<times> int" where
  "pq_pair n \<equiv> (item n, - priority n)"

definition pq_rep :: "'a pqueue \<Rightarrow> ('a \<times> int) list \<Rightarrow> bool" where
  "pq_rep pq xs \<longleftrightarrow> xs = map pq_pair (pq_nodes pq) \<and> is_heap (pq_nodes pq) \<and>
     prios_ok (pq_nodes pq) \<and> pq_size pq \<le> pq_capacity pq \<and>
     100 \<le> pq_capacity pq \<and> pq_capacity pq < 2147483648"

lemma pq_rep_init: "pq_rep priority_queue []"
  by (simp add: pq_rep_def priority_queue_def is_heap_def prios_ok_def pq_size_def)

lemma pq_rep_empty: "pq_rep pq xs \<Longrightarrow> pq_is_empty pq = (xs = [])"
  by (auto simp: pq_rep_def pq_is_empty_def pq_size_def)

lemma pq_rep_size: "pq_rep pq xs \<Longrightarrow> pq_size pq = int (length xs)"
  by (auto simp: pq_rep_def pq_size_def)

lemma pq_rep_front: "pq_rep pq xs \<Longrightarrow> pq_front pq = (if xs = [] then None else Some (fst (hd xs)))"
  by (cases "pq_nodes pq") (auto simp: pq_front_def pq_rep_empty, auto simp: pq_rep_def)

text \<open>The first pair has the smallest priority value of all.\<close>

lemma pq_rep_first:
  assumes "pq_rep pq (x # xs)" "y \<in> set xs"
  shows "snd x \<le> snd y"
proof -
  let ?ns = "pq_nodes pq"
  from assms have m: "x # xs = map pq_pair ?ns" and h: "is_heap ?ns" by (simp_all add: pq_rep_def)
  from assms(2) have "y \<in> set (map pq_pair ?ns)" by (simp flip: m)
  then obtain i where "i < length ?ns" "y = pq_pair (?ns ! i)" by (auto simp: in_set_conv_nth)
  with is_heap_root [OF h, of i] m show ?thesis by (cases ?ns) auto
qed

lemma prio_ok_neg [simp]: "prio_ok (- p) = prio_ok p"
  by (auto simp: prio_ok_def)

lemma prio_ok_wrap: "prio_ok p \<Longrightarrow> wrap32 (- p) = - p"
  by (rule wrap32_id) (simp_all add: prio_ok_def)

lemma mset_pairs: "mset ns = mset ns' \<Longrightarrow> mset (map pq_pair ns) = mset (map pq_pair ns')"
  by simp

lemma pq_enqueue_rep:
  assumes rep: "pq_rep pq xs" and p: "prio_ok p" and len: "length xs < 1073741824"
  shows "\<exists>xs'. pq_rep (pq_enqueue pq x p) xs' \<and> mset xs' = add_mset (x, p) (mset xs)"
proof -
  let ?n = "\<lparr>item = x, priority = - p\<rparr>" and ?ns = "pq_nodes pq"
  let ?ns' = "sift_up (?ns @ [?n]) (length ?ns)"
  from rep have h: "is_heap ?ns" and ok: "prios_ok ?ns" and xs: "xs = map pq_pair ?ns"
    by (simp_all add: pq_rep_def)
  have ok': "prios_ok (?ns @ [?n])" using ok p by (simp add: prios_ok_def)
  have ms: "mset ?ns' = mset (?ns @ [?n])" by (rule mset_sift_up) simp
  have "is_heap ?ns'" by (rule sift_up_heap) (simp_all add: is_heap_up h ok')
  moreover have "prios_ok ?ns'" using ms ok' prios_ok_mset by blast
  moreover have "length ?ns' = Suc (length ?ns)"
    using arg_cong [OF ms, of size] by simp
  ultimately have "pq_rep (pq_enqueue pq x p) (map pq_pair ?ns')"
    using rep len xs p
    by (auto simp: pq_rep_def pq_enqueue_def Let_def pq_size_def prio_ok_wrap c_int)
  moreover have "mset (map pq_pair ?ns') = add_mset (x, p) (mset xs)"
    using mset_pairs [OF ms] xs by simp
  ultimately show ?thesis by blast
qed

lemma dequeue_nodes:
  assumes "is_heap ns" "ns \<noteq> []"
  defines "ns' \<equiv> take (length ns - 1) (pq_swap ns 0 (length ns - 1))"
  shows "heap_down ns' 0" "add_mset (ns ! 0) (mset ns') = mset ns"
proof -
  let ?n = "length ns - 1" and ?sw = "pq_swap ns 0 (length ns - 1)"
  have nth: "ns' ! i = ns ! i" if "0 < i" "i < length ns'" for i
    using that by (simp add: ns'_def pq_swap_def)
  show "heap_down ns' 0" unfolding heap_down_def
  proof (intro allI impI conjI; (elim conjE)?)
    fix j assume j: "j < length ns'" "0 < j" "par j \<noteq> 0"
    have "j < length ns" using j(1) by (simp add: ns'_def)
    then show "key ns' j \<le> key ns' (par j)"
      using j par_less [OF j(2)] assms(1) by (auto simp: nth is_heap_def)
  qed simp
  have "last ?sw = ns ! 0" "ns' = butlast ?sw" using assms(2)
    by (auto simp: ns'_def pq_swap_def last_conv_nth butlast_conv_take)
  moreover have "?sw \<noteq> []" using assms(2) by (simp add: pq_swap_def)
  ultimately have "mset ?sw = add_mset (ns ! 0) (mset ns')"
    by (metis append_butlast_last_id mset.simps(2) mset_append union_mset_add_mset_right
        add_0_right mset.simps(1))
  moreover have "mset ?sw = mset ns" using assms(2) by (simp add: mset_pq_swap)
  ultimately show "add_mset (ns ! 0) (mset ns') = mset ns" by simp
qed

lemma pq_dequeue_rep:
  assumes rep: "pq_rep pq (x # xs)"
  shows "\<exists>xs'. fst (pq_dequeue pq) = Some (fst x) \<and> pq_rep (snd (pq_dequeue pq)) xs' \<and>
    mset xs' = mset xs"
proof -
  let ?ns = "pq_nodes pq"
  let ?ns' = "take (length ?ns - 1) (pq_swap ?ns 0 (length ?ns - 1))"
  let ?r = "if ?ns' \<noteq> [] then pq_heapify ?ns' 0 else ?ns'"
  from rep have h: "is_heap ?ns" and ok: "prios_ok ?ns" and m: "x # xs = map pq_pair ?ns"
    by (simp_all add: pq_rep_def)
  have ne: "?ns \<noteq> []" using m by auto
  note dn = dequeue_nodes [OF h ne]
  have ok': "prios_ok ?ns'" using ok set_mset_mset [of ?ns] set_mset_mset [of ?ns'] dn(2)
    unfolding prios_ok_def by (metis insert_iff set_mset_add_mset_insert)
  have ms: "mset ?r = mset ?ns'" using mset_pq_heapify [of 0 ?ns'] by auto
  have "is_heap ?r"
  proof (cases "?ns' = []")
    case True
    then show ?thesis unfolding if_not_P [OF not_not [THEN iffD2, OF True]]
      by (simp only: is_heap_def) simp
  next
    case False
    then show ?thesis using pq_heapify_heap [OF dn(1) _ ok'] by simp
  qed
  moreover have "prios_ok ?r" using ms ok' prios_ok_mset by blast
  moreover have "length ?r = length ?ns - 1" using arg_cong [OF ms, of size] by simp
  ultimately have "pq_rep (snd (pq_dequeue pq)) (map pq_pair ?r)"
    using rep ne by (auto simp: pq_rep_def pq_dequeue_def Let_def pq_size_def pq_is_empty_def)
  moreover have "mset (map pq_pair ?r) = mset xs"
  proof -
    have "add_mset x (mset xs) = mset (map pq_pair ?ns)" by (simp flip: m)
    also have "\<dots> = image_mset pq_pair (add_mset (?ns ! 0) (mset ?ns'))" using dn(2) by simp
    also have "\<dots> = add_mset x (mset (map pq_pair ?r))" using m ms by (cases ?ns) auto
    finally show ?thesis by simp
  qed
  moreover have "fst (pq_dequeue pq) = Some (fst x)"
    using rep m ne by (cases ?ns) (auto simp: pq_dequeue_def pq_is_empty_def pq_size_def Let_def)
  ultimately show ?thesis by blast
qed

text \<open>A new priority for the node at \<open>i\<close> breaks the heap order there only.\<close>

lemma heap_raise:
  assumes h: "is_heap ns" and i: "i < length ns" and n: "key ns i \<le> priority n"
  shows "heap_up (ns[i := n]) i"
  unfolding heap_up_def
proof (intro allI impI conjI; (elim conjE)?)
  fix j assume j: "j < length (ns[i := n])" "0 < j"
  have kj: "key ns j \<le> key ns (par j)" using h j by (auto simp: is_heap_def)
  { assume "j \<noteq> i"
    then show "key (ns[i := n]) j \<le> key (ns[i := n]) (par j)"
      using kj i n by (auto simp: nth_list_update) }
  { assume p: "par j = i" "0 < i"
    then have "key ns i \<le> key ns (par i)" "par i \<noteq> i" "j \<noteq> i"
      using h i par_less [OF p(2)] par_less [OF j(2)] by (auto simp: is_heap_def)
    then show "key (ns[i := n]) j \<le> key (ns[i := n]) (par i)"
      using kj p by (auto simp: nth_list_update) }
qed

lemma heap_lower:
  assumes h: "is_heap ns" and i: "i < length ns" and n: "priority n \<le> key ns i"
  shows "heap_down (ns[i := n]) i"
  unfolding heap_down_def
proof (intro allI impI conjI; (elim conjE)?)
  fix j assume j: "j < length (ns[i := n])" "0 < j"
  have kj: "key ns j \<le> key ns (par j)" using h j by (auto simp: is_heap_def)
  { assume "par j \<noteq> i"
    then show "key (ns[i := n]) j \<le> key (ns[i := n]) (par j)"
      using kj i n by (auto simp: nth_list_update) }
  { assume p: "par j = i" "0 < i"
    then have "key ns i \<le> key ns (par i)" "par i \<noteq> i" "j \<noteq> i"
      using h i par_less [OF p(2)] par_less [OF j(2)] by (auto simp: is_heap_def)
    then show "key (ns[i := n]) j \<le> key (ns[i := n]) (par i)"
      using kj p by (auto simp: nth_list_update) }
qed

lemma pq_change_priority_rep:
  assumes rep: "pq_rep pq xs" and i: "i < length xs" and p: "prio_ok p"
  shows "\<exists>xs'. pq_rep (pq_change_priority pq (int i) p) xs' \<and>
    mset xs' = mset (xs[i := (fst (xs ! i), p)])"
proof -
  let ?ns = "pq_nodes pq"
  let ?n = "(?ns ! i)\<lparr>priority := - p\<rparr>"
  let ?u = "?ns[i := ?n]" and ?r = "pq_nodes (pq_change_priority pq (int i) p)"
  from rep have h: "is_heap ?ns" and ok: "prios_ok ?ns" and xs: "xs = map pq_pair ?ns"
    by (simp_all add: pq_rep_def)
  have i': "i < length ?ns" using i xs by simp
  have ok': "prios_ok ?u"
    unfolding prios_ok_def
  proof
    fix n assume "n \<in> set ?u"
    then have "n = ?n \<or> n \<in> set ?ns" using set_update_subset_insert by fastforce
    then show "prio_ok (priority n)" using ok p by (auto simp: prios_ok_def)
  qed
  have r: "?r = (if - p > key ?ns i then sift_up ?u i
                 else if - p < key ?ns i then pq_heapify ?u i else ?u)"
    using i' by (simp add: pq_change_priority_def pq_size_def prio_ok_wrap [OF p] Let_def)
  have ms: "mset ?r = mset ?u"
    unfolding r using i' by (simp add: mset_sift_up mset_pq_heapify)
  have "is_heap ?r"
  proof -
    have "is_heap ?u" if e: "key ?ns i = - p"
    proof -
      have "?n = ?ns ! i" using e by (cases "?ns ! i") simp
      then have "?u = ?ns" by (metis list_update_id)
      with h show ?thesis by (simp only:)
    qed
    then show ?thesis unfolding r
      using sift_up_heap [of ?u i] pq_heapify_heap [of ?u i] heap_raise [OF h i', of ?n]
        heap_lower [OF h i', of ?n] ok' i' h by auto
  qed
  moreover have "prios_ok ?r" using ms ok' prios_ok_mset by blast
  moreover have "length ?r = length ?ns" using arg_cong [OF ms, of size] by simp
  moreover have "pq_capacity (pq_change_priority pq (int i) p) = pq_capacity pq"
    by (simp add: pq_change_priority_def Let_def)
  ultimately have "pq_rep (pq_change_priority pq (int i) p) (map pq_pair ?r)"
    using rep by (simp add: pq_rep_def pq_size_def)
  moreover have "map pq_pair ?u = xs[i := (fst (xs ! i), p)]"
    using i' xs by (simp add: map_update)
  then have "mset (map pq_pair ?r) = mset (xs[i := (fst (xs ! i), p)])"
    using mset_pairs [OF ms] by simp
  ultimately show ?thesis by blast
qed

lemma pq_change_priority_out:
  "index < 0 \<or> index \<ge> pq_size pq \<Longrightarrow> pq_change_priority pq index p = pq"
  by (simp add: pq_change_priority_def)

text \<open>The root may change its priority and stay the root when it keeps the smallest value.\<close>

lemma pq_change_root_lower:
  assumes rep: "pq_rep pq (x # xs)" and p: "prio_ok p" "p \<le> snd x"
  shows "pq_rep (pq_change_priority pq 0 p) ((fst x, p) # xs)"
proof -
  let ?ns = "pq_nodes pq"
  let ?u = "?ns[0 := (?ns ! 0)\<lparr>priority := - p\<rparr>]"
  from rep have h: "is_heap ?ns" and xs: "x # xs = map pq_pair ?ns" and ok: "prios_ok ?ns"
    by (simp_all add: pq_rep_def)
  then obtain n ns where ns: "?ns = n # ns" "x = pq_pair n" "xs = map pq_pair ns" by auto
  have k: "key ?ns 0 \<le> - p" using p ns by simp
  have u: "pq_change_priority pq 0 p = pq\<lparr>pq_nodes := ?u\<rparr>"
    using ns k sift_up_par [of ?u 0]
    by (simp add: pq_change_priority_def pq_size_def prio_ok_wrap [OF p(1)] Let_def)
  have "is_heap ?u" using heap_raise [OF h, of 0] ns k
    by (auto simp: heap_up_def is_heap_def)
  then show ?thesis unfolding u using rep ns p ok
    by (auto simp: pq_rep_def pq_size_def prios_ok_def)
qed

section \<open>Properties\<close>

text \<open>Enqueueing a list of items with their priorities, and dequeueing a number of times.\<close>

primrec pq_fill :: "'a pqueue \<Rightarrow> ('a \<times> int) list \<Rightarrow> 'a pqueue" where
  "pq_fill pq [] = pq"
| "pq_fill pq (x # xs) = pq_fill (pq_enqueue pq (fst x) (snd x)) xs"

primrec pq_serve :: "nat \<Rightarrow> 'a pqueue \<Rightarrow> 'a option list \<times> 'a pqueue" where
  "pq_serve 0 pq = ([], pq)"
| "pq_serve (Suc n) pq =
     (let (r, pq) = pq_dequeue pq; (rs, pq) = pq_serve n pq in (r # rs, pq))"

lemma pq_fill_rep:
  "pq_rep pq xs \<Longrightarrow> \<forall>y \<in> set ys. prio_ok (snd y) \<Longrightarrow> length xs + length ys \<le> 1073741824 \<Longrightarrow>
   \<exists>zs. pq_rep (pq_fill pq ys) zs \<and> mset zs = mset xs + mset ys"
proof (induct ys arbitrary: pq xs)
  case Nil
  then show ?case by auto
next
  case (Cons y ys)
  then obtain xs' where xs': "pq_rep (pq_enqueue pq (fst y) (snd y)) xs'" "mset xs' = add_mset y (mset xs)"
    using pq_enqueue_rep [of pq xs "snd y" "fst y"] by auto
  have "length xs' = Suc (length xs)" using arg_cong [OF xs'(2), of size] by simp
  with Cons.hyps [OF xs'(1)] Cons.prems xs'(2) show ?case by auto
qed

lemma pq_serve_rep:
  "pq_rep pq xs \<Longrightarrow> length xs = n \<Longrightarrow>
   \<exists>zs. fst (pq_serve n pq) = map (Some \<circ> fst) zs \<and> pq_rep (snd (pq_serve n pq)) [] \<and>
     mset zs = mset xs \<and> sorted (map snd zs)"
proof (induct n arbitrary: pq xs)
  case 0
  then show ?case by auto
next
  case (Suc n)
  then obtain x ys where xs: "xs = x # ys" "length ys = n" by (cases xs) auto
  then obtain xs' where d: "fst (pq_dequeue pq) = Some (fst x)" "pq_rep (snd (pq_dequeue pq)) xs'"
    "mset xs' = mset ys" using pq_dequeue_rep [of pq x ys] Suc.prems(1) by auto
  have "length xs' = n" using arg_cong [OF d(3), of size] xs(2) by simp
  from Suc.hyps [OF d(2) this] obtain zs where
    zs: "fst (pq_serve n (snd (pq_dequeue pq))) = map (Some \<circ> fst) zs"
    "pq_rep (snd (pq_serve n (snd (pq_dequeue pq)))) []" "mset zs = mset xs'" "sorted (map snd zs)" by blast
  have "\<forall>y \<in> set zs. snd x \<le> snd y"
    using pq_rep_first [of pq x ys] Suc.prems(1) xs(1) zs(3) d(3) by (metis set_mset_mset)
  then show ?case using zs d xs
    by (intro exI [of _ "x # zs"]) (auto simp: split_beta Let_def)
qed

text \<open>
  C31: items enqueued in any order, with any priorities below 2^30 in absolute value, are dequeued
  each exactly once, in the order of their priorities, smallest value first.
\<close>

theorem pq_serves_by_priority:
  assumes "\<forall>x \<in> set xs. prio_ok (snd x)" "length xs \<le> 1073741824"
  shows "\<exists>zs. fst (pq_serve (length xs) (pq_fill priority_queue xs)) = map (Some \<circ> fst) zs \<and>
    mset zs = mset xs \<and> map snd zs = sort (map snd xs) \<and>
    pq_is_empty (snd (pq_serve (length xs) (pq_fill priority_queue xs)))"
proof -
  obtain ys where ys: "pq_rep (pq_fill priority_queue xs) ys" "mset ys = mset xs"
    using pq_fill_rep [OF pq_rep_init assms(1)] assms(2) by auto
  have "length ys = length xs" using ys(2) by (metis size_mset)
  with pq_serve_rep [OF ys(1)] ys(2) obtain zs where
    zs: "fst (pq_serve (length xs) (pq_fill priority_queue xs)) = map (Some \<circ> fst) zs" "mset zs = mset xs"
    "sorted (map snd zs)" "pq_is_empty (snd (pq_serve (length xs) (pq_fill priority_queue xs)))"
    using pq_rep_empty by metis
  have "sort (map snd xs) = map snd zs" by (rule properties_for_sort) (simp_all add: zs)
  with zs show ?thesis by metis
qed

theorem pq_serves_by_priority_witness:
  "\<exists>zs. fst (pq_serve 3 (pq_fill priority_queue [(''a'', 5), (''b'', - 2), (''c'', 3)])) = map (Some \<circ> fst) zs \<and>
     mset zs = {# (''a'', 5 :: int), (''b'', - 2), (''c'', 3) #} \<and> map snd zs = [- 2, 3, 5]"
proof -
  define xs where "xs = [(''a'', 5 :: int), (''b'', - 2), (''c'', 3)]"
  have "\<forall>x \<in> set xs. prio_ok (snd x)" "length xs = 3" "mset xs = {# (''a'', 5), (''b'', - 2), (''c'', 3) #}"
    "sort (map snd xs) = [- 2, 3, 5]" by (simp_all add: xs_def prio_ok_def)
  with pq_serves_by_priority [of xs] show ?thesis unfolding xs_def [symmetric] by auto
qed

text \<open>
  \<open>pq_change_priority\<close> gives one entry, wherever it stands in the array, the new priority, keeps
  the other entries, and restores the heap order, so that the front is again a smallest one.
\<close>

theorem pq_change_priority_correct:
  assumes "pq_rep pq xs" "i < length xs" "prio_ok p"
  shows "\<exists>ys. pq_rep (pq_change_priority pq (int i) p) ys \<and> mset ys = mset (xs[i := (fst (xs ! i), p)]) \<and>
    pq_front (pq_change_priority pq (int i) p) = Some (fst (hd ys)) \<and> (\<forall>y \<in> set ys. snd (hd ys) \<le> snd y)"
proof -
  obtain ys where ys: "pq_rep (pq_change_priority pq (int i) p) ys"
    "mset ys = mset (xs[i := (fst (xs ! i), p)])" using pq_change_priority_rep [OF assms] by blast
  have "length ys = length xs" using arg_cong [OF ys(2), of size] by simp
  then obtain y zs where c: "ys = y # zs" using assms(2) by (cases ys) auto
  have "\<forall>z \<in> set ys. snd y \<le> snd z" using pq_rep_first [of _ y zs] ys(1) c by auto
  then show ?thesis using ys c pq_rep_front [OF ys(1)] by (intro exI [of _ ys]) simp
qed

theorem pq_change_priority_correct_witness:
  "\<exists>ys. pq_rep (pq_change_priority (pq_enqueue priority_queue ''a'' 5) 0 9) ys \<and> mset ys = {# (''a'', 9) #}"
proof -
  obtain xs where xs: "pq_rep (pq_enqueue priority_queue ''a'' 5) xs" "mset xs = {# (''a'', 5) #}"
    using pq_enqueue_rep [OF pq_rep_init, of 5 "''a''"] by (auto simp: prio_ok_def)
  then have "xs = [(''a'', 5)]" by simp
  with xs(1) pq_change_priority_correct [of "pq_enqueue priority_queue ''a'' 5" xs 0 9] show ?thesis
    by (auto simp: prio_ok_def)
qed

end
