(* ===== verification/IQueue.thy ===== *)
theory IQueue
  imports Queue_Interface Circular_Queue Priority_Queue
begin

text \<open>
  DS/IQueue.c: the queue the scheduler sees, a tag and a pointer to one of the two queues, with
  every operation dispatched on the tag; Algorithms/utils.h names the scheduling algorithms. The
  \<open>default\<close> branches of the \<open>switch\<close>es are for tags outside the enumerations and have no counterpart.
\<close>

datatype SchedulingAlgorithm = RR | HPF | SRTN

datatype 'a IQueue = CIRCULAR_QUEUE "'a CircularQueue" | PRIORITY_QUEUE "'a pqueue"

definition init_queue :: "SchedulingAlgorithm \<Rightarrow> 'a IQueue" where
  "init_queue algType =
     (case algType of
        RR \<Rightarrow> CIRCULAR_QUEUE circular_queue
      | HPF \<Rightarrow> PRIORITY_QUEUE priority_queue
      | SRTN \<Rightarrow> PRIORITY_QUEUE priority_queue)"

fun enqueue :: "'a IQueue \<Rightarrow> 'a \<Rightarrow> int \<Rightarrow> 'a IQueue option" where
  "enqueue (CIRCULAR_QUEUE q) obj prio = map_option CIRCULAR_QUEUE (cq_enqueue q obj)"
| "enqueue (PRIORITY_QUEUE q) obj prio = Some (PRIORITY_QUEUE (pq_enqueue q obj prio))"

fun dequeue :: "'a IQueue \<Rightarrow> int \<Rightarrow> ('a option \<times> 'a IQueue) option" where
  "dequeue (CIRCULAR_QUEUE q) remove =
     map_option (map_prod id CIRCULAR_QUEUE)
       (if remove \<noteq> 0 then cq_dequeue_and_remove q else cq_dequeue q)"
| "dequeue (PRIORITY_QUEUE q) remove = Some (map_prod id PRIORITY_QUEUE (pq_dequeue q))"

fun front :: "'a IQueue \<Rightarrow> 'a option option" where
  "front (CIRCULAR_QUEUE q) = cq_front q"
| "front (PRIORITY_QUEUE q) = Some (pq_front q)"

fun is_empty :: "'a IQueue \<Rightarrow> bool" where
  "is_empty (CIRCULAR_QUEUE q) = cq_is_empty q"
| "is_empty (PRIORITY_QUEUE q) = pq_is_empty q"

fun queue_size :: "'a IQueue \<Rightarrow> int" where
  "queue_size (CIRCULAR_QUEUE q) = cq_size q"
| "queue_size (PRIORITY_QUEUE q) = pq_size q"

fun change_priority :: "'a IQueue \<Rightarrow> int \<Rightarrow> int \<Rightarrow> 'a IQueue" where
  "change_priority (CIRCULAR_QUEUE q) index new_priority = CIRCULAR_QUEUE q"
| "change_priority (PRIORITY_QUEUE q) index new_priority =
     PRIORITY_QUEUE (pq_change_priority q index new_priority)"

text \<open>\<open>free_queue\<close>: the heap of nodes left, or the objects freed. The \<open>IQueue\<close> itself is not freed.\<close>

fun free_queue :: "'a IQueue \<Rightarrow> ('a heap + part list) option" where
  "free_queue (CIRCULAR_QUEUE q) = map_option Inl (cq_free q)"
| "free_queue (PRIORITY_QUEUE q) = Some (Inr (pq_free q))"

section \<open>The queues keep the interface\<close>

definition cq_pairs :: "'a CircularQueue \<Rightarrow> ('a \<times> int) list \<Rightarrow> bool" where
  "cq_pairs q xs \<longleftrightarrow> cq_items q (map fst xs)"

lemma cq_pairs_enq:
  assumes "cq_pairs q xs" "length xs < queue_limit"
  shows "\<exists>q' xs'. cq_enqueue q x = Some q' \<and> cq_pairs q' xs' \<and>
    mset (map fst xs') = add_mset x (mset (map fst xs))"
proof -
  from assms(1) obtain as bs where r: "cq_rep q as bs" "map fst xs = map snd (bs @ as)"
    by (auto simp: cq_pairs_def cq_items_def)
  have "length (as @ bs) = length xs" using arg_cong [OF r(2), of length] by simp
  with cq_enqueue_rep [OF r(1), of x] assms(2) obtain q' where
    q': "cq_enqueue q x = Some q'" "cq_rep q' as (bs @ [(brk (cq_heap q), x)])" by auto
  let ?ys = "map snd ((bs @ [(brk (cq_heap q), x)]) @ as)"
  have "cq_pairs q' (map (\<lambda>y. (y, 0)) ?ys)"
    using cq_items_nodes [OF q'(2)] by (simp add: cq_pairs_def comp_def)
  moreover have "mset (map fst (map (\<lambda>y. (y, 0::int)) ?ys)) = add_mset x (mset (map fst xs))"
    by (simp add: comp_def r(2))
  ultimately show ?thesis using q'(1) by blast
qed

interpretation cq: rotating_queue cq_pairs "\<lambda>q x p. cq_enqueue q x" cq_dequeue_and_remove cq_front
  cq_is_empty cq_size prio_ok cq_dequeue
proof unfold_locales
  fix q :: "'a CircularQueue" and x :: "'a \<times> int" and xs
  assume "cq_pairs q (x # xs)"
  then show "\<exists>q' xs'. cq_dequeue_and_remove q = Some (Some (fst x), q') \<and> cq_pairs q' xs' \<and>
      mset xs' = mset xs"
    and "\<exists>q'. cq_dequeue q = Some (Some (fst x), q') \<and> cq_pairs q' (xs @ [x])"
    using cq_remove_items [of q "fst x" "map fst xs"] cq_dequeue_items [of q "fst x" "map fst xs"]
    by (auto simp: cq_pairs_def)
next
  fix q :: "'a CircularQueue" and v p xs
  assume "cq_pairs q xs" "length xs < queue_limit"
  then show "\<exists>q' xs'. cq_enqueue q v = Some q' \<and> cq_pairs q' xs' \<and>
      mset (map fst xs') = add_mset v (mset (map fst xs))" by (rule cq_pairs_enq)
qed (auto simp: cq_pairs_def cq_front_items cq_is_empty_def cq_size_def
    cq_items_length cq_remove_empty dest: cq_items_NilE split: if_splits simp: hd_map)

interpretation pq: priority_ready_queue pq_rep "\<lambda>q x p. Some (pq_enqueue q x p)"
  "\<lambda>q. Some (pq_dequeue q)" "\<lambda>q. Some (pq_front q)" pq_is_empty pq_size prio_ok
proof unfold_locales
  fix q :: "'a pqueue" and x :: 'a and xs p
  assume "pq_rep q xs" "prio_ok p" "length xs < queue_limit"
  from pq_enqueue_rep [OF this, of x]
  show "\<exists>q' xs'. Some (pq_enqueue q x p) = Some q' \<and> pq_rep q' xs' \<and>
      mset (map fst xs') = add_mset x (mset (map fst xs))" by fastforce
next
  fix q :: "'a pqueue" and x xs
  assume "pq_rep q (x # xs)"
  from pq_dequeue_rep [OF this]
  show "\<exists>q' xs'. Some (pq_dequeue q) = Some (Some (fst x), q') \<and> pq_rep q' xs' \<and> mset xs' = mset xs"
    by (cases "pq_dequeue q") auto
next
  fix q :: "'a pqueue"
  assume "pq_rep q []"
  then show "Some (pq_dequeue q) = Some (None, q)" by (simp add: pq_dequeue_def pq_rep_empty)
qed (auto simp: pq_rep_front pq_rep_empty pq_rep_size pq_rep_first)

text \<open>The tagged queue satisfies the interface because both of its variants do.\<close>

fun iq_rep :: "'a IQueue \<Rightarrow> ('a \<times> int) list \<Rightarrow> bool" where
  "iq_rep (CIRCULAR_QUEUE q) xs = cq_pairs q xs"
| "iq_rep (PRIORITY_QUEUE q) xs = pq_rep q xs"

interpretation iq: ready_queue iq_rep enqueue "\<lambda>q. dequeue q 1" front is_empty queue_size prio_ok
proof unfold_locales
  fix q :: "'a IQueue" and x :: 'a and xs p
  assume a: "iq_rep q xs" "prio_ok p" "length xs < queue_limit"
  show "\<exists>q' xs'. enqueue q x p = Some q' \<and> iq_rep q' xs' \<and>
      mset (map fst xs') = add_mset x (mset (map fst xs))"
  proof (cases q)
    case (CIRCULAR_QUEUE c)
    with cq.enq_ok [of c xs p x] a obtain c' xs' where "cq_enqueue c x = Some c'" "cq_pairs c' xs'"
      "mset (map fst xs') = add_mset x (mset (map fst xs))" by auto
    with CIRCULAR_QUEUE show ?thesis by (intro exI [of _ "IQueue.CIRCULAR_QUEUE c'"]) auto
  next
    case (PRIORITY_QUEUE c)
    with pq.enq_ok [of c xs p x] a obtain xs' where "pq_rep (pq_enqueue c x p) xs'"
      "mset (map fst xs') = add_mset x (mset (map fst xs))" by auto
    with PRIORITY_QUEUE show ?thesis by (intro exI [of _ "IQueue.PRIORITY_QUEUE (pq_enqueue c x p)"]) auto
  qed
next
  fix q :: "'a IQueue" and x xs
  assume a: "iq_rep q (x # xs)"
  show "\<exists>q' xs'. dequeue q 1 = Some (Some (fst x), q') \<and> iq_rep q' xs' \<and> mset xs' = mset xs"
  proof (cases q)
    case (CIRCULAR_QUEUE c)
    with cq.deq_ok [of c x xs] a obtain c' xs' where
      "cq_dequeue_and_remove c = Some (Some (fst x), c')" "cq_pairs c' xs'" "mset xs' = mset xs" by auto
    with CIRCULAR_QUEUE show ?thesis by (intro exI [of _ "IQueue.CIRCULAR_QUEUE c'"]) auto
  next
    case (PRIORITY_QUEUE c)
    with pq.deq_ok [of c x xs] a obtain c' xs' where
      "pq_dequeue c = (Some (fst x), c')" "pq_rep c' xs'" "mset xs' = mset xs" by auto
    with PRIORITY_QUEUE show ?thesis by (intro exI [of _ "IQueue.PRIORITY_QUEUE c'"]) auto
  qed
next
  fix q :: "'a IQueue" and xs
  show "iq_rep q [] \<Longrightarrow> dequeue q 1 = Some (None, q)"
    by (cases q) (auto simp: cq.deq_nil dest: pq.deq_nil)
  show "iq_rep q xs \<Longrightarrow> front q = Some (if xs = [] then None else Some (fst (hd xs)))"
    by (cases q) (auto simp: cq.frnt_ok pq_rep_front)
  show "iq_rep q xs \<Longrightarrow> is_empty q = (xs = [])"
    by (cases q) (auto simp: cq.emp_ok pq.emp_ok)
  show "iq_rep q xs \<Longrightarrow> queue_size q = int (length xs)"
    by (cases q) (auto simp: cq.cnt_ok pq.cnt_ok)
qed

lemma iq_rep_init: "iq_rep (init_queue alg) []"
  by (cases alg) (simp_all add: init_queue_def cq_pairs_def cq_items_init pq_rep_init)

section \<open>Properties\<close>

text \<open>The interface used from a client: enqueueing a list of items, removing a number of them.\<close>

primrec iq_fill :: "'a IQueue \<Rightarrow> ('a \<times> int) list \<Rightarrow> 'a IQueue option" where
  "iq_fill q [] = Some q"
| "iq_fill q (x # xs) = do { q \<leftarrow> enqueue q (fst x) (snd x); iq_fill q xs }"

primrec iq_drain :: "nat \<Rightarrow> 'a IQueue \<Rightarrow> ('a list \<times> 'a IQueue) option" where
  "iq_drain 0 q = Some ([], q)"
| "iq_drain (Suc n) q = do {
     (r, q) \<leftarrow> dequeue q 1;
     (ys, q) \<leftarrow> iq_drain n q;
     Some (case r of None \<Rightarrow> ys | Some y \<Rightarrow> y # ys, q)
   }"

lemma iq_fill_eq: "iq_fill q xs = iq.enq_all q xs"
  by (induct xs arbitrary: q) simp_all

lemma iq_drain_eq: "iq_drain n q = iq.drain n q"
  by (induct n arbitrary: q) simp_all

text \<open>
  Whichever algorithm the queue was initialised for, items enqueued through the interface come
  out again, each exactly once, and the queue is then empty.
\<close>

theorem iq_conserves:
  assumes "\<forall>x \<in> set xs. prio_ok (snd x)" "length xs \<le> queue_limit"
  shows "\<exists>q ys q'. iq_fill (init_queue alg) xs = Some q \<and> iq_drain (length xs) q = Some (ys, q') \<and>
    mset ys = mset (map fst xs) \<and> is_empty q'"
  using iq.enq_all_drain [OF iq_rep_init assms(1,2)] iq.emp_ok
  unfolding iq_fill_eq iq_drain_eq by metis

theorem iq_conserves_witness:
  "\<exists>q ys q'. iq_fill (init_queue SRTN) [(''a'', 5), (''b'', 2)] = Some q \<and> iq_drain 2 q = Some (ys, q') \<and>
     mset ys = {# ''a'', ''b'' #} \<and> is_empty q'"
  using iq_conserves [of "[(''a'', 5), (''b'', 2)]" SRTN] by (simp add: prio_ok_def numeral_2_eq_2)

end
