(* ===== verification/Scheduler.thy ===== *)
theory Scheduler
  imports IQueue File_Handlers
begin

text \<open>
  scheduler.c: the scheduler's global variables as a record, and one definition per function. PCBs
  live on a heap of their own, since the ready queue and \<open>current_pcb\<close> hold pointers to them. What the
  scheduler exchanges with other processes is part of the state: the shared clock, the two kinds of
  messages waiting in the queue, and the signals it has sent with \<open>kill\<close>.

  Each function runs as one step: it reads the clock once, and signals arrive between functions.
\<close>

datatype signal = SIGCONT | SIGSTOP

text \<open>The entries of \<open>execution_log.txt\<close>.\<close>

datatype execution_entry =
  Idle int int
| Runs int int int int int  (* process id, burst, from, to, remaining time *)
| Finishes int int int int  (* process id, burst, from, to *)

record sched =
  pcb_heap :: "ptr \<rightharpoonup> PCB"
  pcb_brk :: ptr
  rdy_queue :: "ptr IQueue"
  current_pcb :: ptr
  quantum :: int
  last_remain_time :: int
  log_start_time :: int
  last_process_end_time :: int
  idle_time :: int
  no_more_processes :: int
  selected_algorithm :: SchedulingAlgorithm
  clk :: int
  msgs_pcb :: "PCB list"
  msgs_str :: "string list"
  kills :: "(int \<times> signal) list"
  execution_log :: "execution_entry list"
  files :: log_files

definition get_pcb :: "sched \<Rightarrow> ptr \<Rightarrow> PCB option" where
  "get_pcb s p = (if p = NULL then None else pcb_heap s p)"

definition put_pcb :: "sched \<Rightarrow> ptr \<Rightarrow> PCB \<Rightarrow> sched" where
  "put_pcb s p pcb = s\<lparr>pcb_heap := (pcb_heap s)(p \<mapsto> pcb)\<rparr>"

text \<open>A pointer result of a queue operation: the stored pointer, or NULL.\<close>

definition ptr_of :: "ptr option \<Rightarrow> ptr" where
  "ptr_of r = (case r of None \<Rightarrow> NULL | Some p \<Rightarrow> p)"

text \<open>\<open>fprintf(execution_log, ...)\<close> and \<open>log_event(pcb)\<close>.\<close>

definition log_execution :: "execution_entry \<Rightarrow> sched \<Rightarrow> sched" where
  "log_execution e s = s\<lparr>execution_log := execution_log s @ [e]\<rparr>"

definition log_pcb :: "PCB \<Rightarrow> sched \<Rightarrow> sched option" where
  "log_pcb pcb s = do { f \<leftarrow> log_event (clk s) pcb (files s); Some (s\<lparr>files := f\<rparr>) }"

definition kill_pcb :: "int \<Rightarrow> signal \<Rightarrow> sched \<Rightarrow> sched" where
  "kill_pcb p sig s = s\<lparr>kills := kills s @ [(p, sig)]\<rparr>"

section \<open>Starting\<close>

text \<open>\<open>set_selected_algorithm\<close>: a name it does not know leaves the variable as it is.\<close>

definition set_selected_algorithm :: "string \<Rightarrow> SchedulingAlgorithm \<Rightarrow> SchedulingAlgorithm" where
  "set_selected_algorithm name old =
     (let a = if name = ''rr'' then RR else old;
          a = if name = ''hpf'' then HPF else a
      in if name = ''srtn'' then SRTN else a)"

text \<open>
  \<open>run_scheduler\<close> up to the loop, \<open>n\<close> being the \<open>proc_count\<close> the scheduler inherits; the globals start
  as C initialises them.
\<close>

definition run_scheduler :: "string \<Rightarrow> int \<Rightarrow> int \<Rightarrow> int \<Rightarrow> sched" where
  "run_scheduler sch_algo q n now =
     (let alg = set_selected_algorithm sch_algo RR in
      \<lparr>pcb_heap = Map.empty, pcb_brk = 1, rdy_queue = init_queue alg, current_pcb = NULL,
       quantum = q, last_remain_time = 0, log_start_time = 0, last_process_end_time = now,
       idle_time = 0, no_more_processes = 0, selected_algorithm = alg, clk = now,
       msgs_pcb = [], msgs_str = [], kills = [], execution_log = [], files = init_scheduler_log n\<rparr>)"

section \<open>New processes\<close>

definition valid_pcb :: "PCB \<Rightarrow> bool" where
  "valid_pcb m \<longleftrightarrow> \<not> (pid m \<le> 0 \<or> proc_id (PDATA m) \<le> 0 \<or> runtime (PDATA m) \<le> 0)"

definition queue_priority :: "SchedulingAlgorithm \<Rightarrow> PCB \<Rightarrow> int" where
  "queue_priority alg pcb =
     (case alg of SRTN \<Rightarrow> remaining_time pcb | HPF \<Rightarrow> proc_priority (PDATA pcb) | RR \<Rightarrow> 0)"

definition admit :: "PCB \<Rightarrow> sched \<Rightarrow> sched option" where
  "admit m s = do {
     let new_pcb = pcb_brk s;
     let s = s\<lparr>pcb_heap := (pcb_heap s)(new_pcb \<mapsto> m), pcb_brk := Suc new_pcb\<rparr>;
     q \<leftarrow> enqueue (rdy_queue s) new_pcb (queue_priority (selected_algorithm s) m);
     Some (s\<lparr>rdy_queue := q\<rparr>)
   }"

text \<open>
  The receiving loop: it ends when no message is left, and at the first invalid one, which is
  consumed.
\<close>

primrec receive_all :: "PCB list \<Rightarrow> sched \<Rightarrow> sched option" where
  "receive_all [] s = Some (s\<lparr>msgs_pcb := []\<rparr>)"
| "receive_all (m # ms) s =
     (if valid_pcb m then do { s \<leftarrow> admit m s; receive_all ms s }
      else Some (s\<lparr>msgs_pcb := ms\<rparr>))"

definition check_for_new_processes :: "sched \<Rightarrow> sched option" where
  "check_for_new_processes s = receive_all (msgs_pcb s) s"

section \<open>Dispatching\<close>

definition schedule_next_process :: "sched \<Rightarrow> sched option" where
  "schedule_next_process s =
     (if is_empty (rdy_queue s) then Some s
      else do {
        s \<leftarrow> (if selected_algorithm s = HPF then do {
                (r, q) \<leftarrow> dequeue (rdy_queue s) 1;
                Some (s\<lparr>current_pcb := ptr_of r, rdy_queue := q\<rparr>) }
              else do { r \<leftarrow> front (rdy_queue s); Some (s\<lparr>current_pcb := ptr_of r\<rparr>) });
        pcb \<leftarrow> get_pcb s (current_pcb s);
        let now = clk s;
        let pcb =
          (if start_time pcb = - 1 then
             pcb\<lparr>state := Some ''started'', start_time := now,
                 wait_time := wrap32 (now - arrival_time (PDATA pcb))\<rparr>
           else
             pcb\<lparr>state := Some ''resumed'',
                 wait_time := wrap32 (wrap32 (now - arrival_time (PDATA pcb)) -
                   wrap32 (runtime (PDATA pcb) - remaining_time pcb))\<rparr>);
        let s = put_pcb s (current_pcb s) pcb;
        let s = kill_pcb (pid pcb) SIGCONT s;
        let s = s\<lparr>last_remain_time := remaining_time pcb, log_start_time := now\<rparr>;
        log_pcb pcb s
      })"

section \<open>Signal handlers\<close>

text \<open>The traces of both handlers read \<open>current_pcb\<close> before any check for NULL.\<close>

definition handle_process_termination :: "sched \<Rightarrow> sched option" where
  "handle_process_termination s = do {
     let now = clk s;
     pcb \<leftarrow> get_pcb s (current_pcb s);
     let s = log_execution (Finishes (proc_id (PDATA pcb)) (runtime (PDATA pcb)) (log_start_time s) now) s;
     let s = s\<lparr>last_process_end_time := now\<rparr>;
     s \<leftarrow> (if selected_algorithm s \<noteq> HPF then do {
             (r, q) \<leftarrow> dequeue (rdy_queue s) 1; Some (s\<lparr>rdy_queue := q\<rparr>) }
           else Some s);
     _ \<leftarrow> (if \<not> is_empty (rdy_queue s) then do {
             r \<leftarrow> front (rdy_queue s); next_pcb \<leftarrow> get_pcb s (ptr_of r); Some () }
           else Some ());
     let pcb = pcb\<lparr>remaining_time := wrap32 (remaining_time pcb - 1), state := Some ''finished''\<rparr>;
     let s = put_pcb s (current_pcb s) pcb;
     s \<leftarrow> log_pcb pcb s;
     Some (s\<lparr>current_pcb := NULL, last_remain_time := 0, log_start_time := 0\<rparr>)
   }"

definition handle_process_tick :: "sched \<Rightarrow> sched option" where
  "handle_process_tick s = do {
     pcb \<leftarrow> get_pcb s (current_pcb s);
     let pcb = pcb\<lparr>remaining_time := wrap32 (remaining_time pcb - 1)\<rparr>;
     let s = put_pcb s (current_pcb s) pcb;
     Some (if selected_algorithm s = SRTN
           then s\<lparr>rdy_queue := change_priority (rdy_queue s) 0 (remaining_time pcb)\<rparr> else s)
   }"

definition handle_quantum_expiration :: "sched \<Rightarrow> sched option" where
  "handle_quantum_expiration s =
     (if current_pcb s = NULL then Some s
      else do {
        let now = clk s;
        pcb \<leftarrow> get_pcb s (current_pcb s);
        let s = log_execution
          (Runs (proc_id (PDATA pcb)) (runtime (PDATA pcb)) (log_start_time s) now (remaining_time pcb)) s;
        let s = s\<lparr>last_process_end_time := now\<rparr>;
        let s = kill_pcb (pid pcb) SIGSTOP s;
        let pcb = pcb\<lparr>state := Some ''stopped''\<rparr>;
        let s = put_pcb s (current_pcb s) pcb;
        s \<leftarrow> log_pcb pcb s;
        let s = s\<lparr>current_pcb := NULL\<rparr>;
        s \<leftarrow> (if selected_algorithm s = RR then do {
                (r, q) \<leftarrow> dequeue (rdy_queue s) 0; Some (s\<lparr>rdy_queue := q\<rparr>) }
              else Some s);
        Some (s\<lparr>log_start_time := 0\<rparr>)
      })"

section \<open>The main loop\<close>

definition handle_current_running_process :: "sched \<Rightarrow> sched option" where
  "handle_current_running_process s =
     (case selected_algorithm s of
        RR \<Rightarrow>
          if current_pcb s \<noteq> NULL then do {
            pcb \<leftarrow> get_pcb s (current_pcb s);
            let limit = wrap32 (last_remain_time s - quantum s);
            if remaining_time pcb \<le> limit
            then handle_quantum_expiration (put_pcb s (current_pcb s) (pcb\<lparr>remaining_time := limit\<rparr>))
            else Some s
          } else Some s
      | HPF \<Rightarrow> if current_pcb s = NULL then schedule_next_process s else Some s
      | SRTN \<Rightarrow> do {
          r \<leftarrow> front (rdy_queue s);
          let next_pcb = ptr_of r;
          if next_pcb = NULL then Some s
          else do {
            _ \<leftarrow> get_pcb s next_pcb;
            if current_pcb s \<noteq> NULL \<and> next_pcb \<noteq> current_pcb s then do {
              _ \<leftarrow> get_pcb s (current_pcb s);
              handle_quantum_expiration s
            } else Some s
          }
        })"

definition check_no_more_processes :: "sched \<Rightarrow> sched" where
  "check_no_more_processes s =
     (case msgs_str s of
        [] \<Rightarrow> s
      | m # ms \<Rightarrow>
          (let s = s\<lparr>msgs_str := ms\<rparr> in
           if m = ''no_more_processes'' then s\<lparr>no_more_processes := 1\<rparr> else s))"

definition loop_guard :: "sched \<Rightarrow> bool" where
  "loop_guard s \<longleftrightarrow> no_more_processes s = 0 \<or> \<not> is_empty (rdy_queue s) \<or> current_pcb s \<noteq> NULL"

text \<open>The middle of the body: with no process running, idle time is accounted and one is scheduled.\<close>

definition dispatch :: "sched \<Rightarrow> sched option" where
  "dispatch s =
     (if current_pcb s = NULL then
        schedule_next_process
          (if clk s > last_process_end_time s \<and> \<not> is_empty (rdy_queue s) then
             log_execution (Idle (last_process_end_time s) (clk s))
               (s\<lparr>idle_time := wrap32 (idle_time s + wrap32 (clk s - last_process_end_time s))\<rparr>)
           else s)
      else Some s)"

end
