(* ===== verification/Scheduler_Invariant.thy ===== *)
theory Scheduler_Invariant
  imports Scheduler
begin

text \<open>
  What holds of the scheduler's state between its functions: the ready queue holds valid, distinct
  PCB pointers with the priority each algorithm gives them, the running process stands where the
  algorithm keeps it, and exactly the PCBs that are neither queued nor running are finished. Every
  function of scheduler.c is shown to keep it and to return.
\<close>

section \<open>The queue of each algorithm\<close>

definition queue_is :: "SchedulingAlgorithm \<Rightarrow> ptr IQueue \<Rightarrow> (ptr \<times> int) list \<Rightarrow> bool" where
  "queue_is alg q xs \<longleftrightarrow>
     (case q of CIRCULAR_QUEUE c \<Rightarrow> alg = RR \<and> cq_pairs c xs
      | PRIORITY_QUEUE c \<Rightarrow> alg \<noteq> RR \<and> pq_rep c xs)"

lemma queue_is_iq_rep: "queue_is alg q xs \<Longrightarrow> iq_rep q xs"
  by (cases q) (auto simp: queue_is_def)

lemma queue_is_init: "queue_is alg (init_queue alg) []"
  by (cases alg) (simp_all add: queue_is_def init_queue_def cq_pairs_def cq_items_init pq_rep_init)

lemma queue_is_empty: "queue_is alg q xs \<Longrightarrow> is_empty q = (xs = [])"
  using iq.emp_ok [of q xs] queue_is_iq_rep by blast

lemma queue_is_front: "queue_is alg q xs \<Longrightarrow> front q = Some (if xs = [] then None else Some (fst (hd xs)))"
  using iq.frnt_ok [of q xs] queue_is_iq_rep by blast

text \<open>A new entry, with its priority, joins the others; in the circular queue never in front of them.\<close>

lemma queue_is_enqueue:
  assumes q: "queue_is alg q xs" and p: "prio_ok p" and len: "length xs < queue_limit"
    and rr: "alg = RR \<Longrightarrow> p = 0 \<and> (\<forall>x \<in> set xs. snd x = 0)"
  shows "\<exists>q' xs'. enqueue q v p = Some q' \<and> queue_is alg q' xs' \<and> mset xs' = add_mset (v, p) (mset xs) \<and>
    (alg = RR \<longrightarrow> xs \<noteq> [] \<longrightarrow> hd xs' = hd xs)"
proof (cases q)
  case (CIRCULAR_QUEUE c)
  with q have a: "alg = RR" and "cq_items c (map fst xs)" by (auto simp: queue_is_def cq_pairs_def)
  then obtain as bs where r: "cq_rep c as bs" "map fst xs = map snd (bs @ as)"
    by (auto simp: cq_items_def)
  have "length (as @ bs) = length xs" using arg_cong [OF r(2), of length] by simp
  with cq_enqueue_rep [OF r(1), of v] len obtain c' n where
    c': "cq_enqueue c v = Some c'" "cq_rep c' as (bs @ [(n, v)])" by auto
  let ?z = "\<lambda>y. (snd y, 0 :: int)"
  have xs: "xs = map ?z (bs @ as)"
  proof -
    have "xs = map (\<lambda>y. (y, 0)) (map fst xs)"
      using rr [OF a] by (induct xs) (auto intro: prod_eqI)
    then show ?thesis by (simp only: r(2)) simp
  qed
  have "cq_pairs c' (map ?z ((bs @ [(n, v)]) @ as))"
    using cq_items_nodes [OF c'(2)] by (simp add: cq_pairs_def comp_def)
  moreover have "bs = [] \<longrightarrow> xs = []" using r(1) xs by (simp add: cq_rep_def)
  ultimately show ?thesis using CIRCULAR_QUEUE a c'(1) rr [OF a] xs
    by (intro exI [of _ "IQueue.CIRCULAR_QUEUE c'"] exI [of _ "map ?z ((bs @ [(n, v)]) @ as)"])
      (auto simp: queue_is_def hd_append)
next
  case (PRIORITY_QUEUE c)
  with q have a: "alg \<noteq> RR" "pq_rep c xs" by (auto simp: queue_is_def)
  from pq_enqueue_rep [OF a(2) p len, of v] obtain xs' where
    "pq_rep (pq_enqueue c v p) xs'" "mset xs' = add_mset (v, p) (mset xs)" by blast
  with PRIORITY_QUEUE a show ?thesis
    by (intro exI [of _ "IQueue.PRIORITY_QUEUE (pq_enqueue c v p)"]) (auto simp: queue_is_def)
qed

lemma queue_is_remove:
  assumes "queue_is alg q (x # xs)"
  shows "\<exists>q' xs'. dequeue q 1 = Some (Some (fst x), q') \<and> queue_is alg q' xs' \<and> mset xs' = mset xs"
proof (cases q)
  case (CIRCULAR_QUEUE c)
  with assms have a: "alg = RR" "cq_items c (fst x # map fst xs)" by (auto simp: queue_is_def cq_pairs_def)
  from cq_remove_items [OF a(2)] obtain c' where
    "cq_dequeue_and_remove c = Some (Some (fst x), c')" "cq_pairs c' xs" by (auto simp: cq_pairs_def)
  with a CIRCULAR_QUEUE show ?thesis
    by (intro exI [of _ "IQueue.CIRCULAR_QUEUE c'"]) (auto simp: queue_is_def)
next
  case (PRIORITY_QUEUE c)
  with assms have a: "alg \<noteq> RR" "pq_rep c (x # xs)" by (auto simp: queue_is_def)
  from pq_dequeue_rep [OF a(2)] obtain xs' where
    "fst (pq_dequeue c) = Some (fst x)" "pq_rep (snd (pq_dequeue c)) xs'" "mset xs' = mset xs" by blast
  with a PRIORITY_QUEUE show ?thesis
    by (intro exI [of _ "IQueue.PRIORITY_QUEUE (snd (pq_dequeue c))"])
      (cases "pq_dequeue c", auto simp: queue_is_def)
qed

lemma queue_is_rotate:
  assumes "queue_is RR q (x # xs)"
  shows "\<exists>q'. dequeue q 0 = Some (Some (fst x), q') \<and> queue_is RR q' (xs @ [x])"
proof -
  from assms obtain c where c: "q = CIRCULAR_QUEUE c" "cq_pairs c (x # xs)"
    by (auto simp: queue_is_def split: IQueue.splits)
  from cq.rot_ok [OF c(2)] obtain c' where
    "cq_dequeue c = Some (Some (fst x), c')" "cq_pairs c' (xs @ [x])" by blast
  with c(1) show ?thesis
    by (intro exI [of _ "IQueue.CIRCULAR_QUEUE c'"]) (auto simp: queue_is_def)
qed

lemma queue_is_first_min:
  "queue_is alg q (x # xs) \<Longrightarrow> alg \<noteq> RR \<Longrightarrow> y \<in> set xs \<Longrightarrow> snd x \<le> snd y"
  by (cases q) (auto simp: queue_is_def dest: pq_rep_first)

lemma queue_is_lower:
  assumes "queue_is alg q (x # xs)" "alg \<noteq> RR" "prio_ok p" "p \<le> snd x"
  shows "queue_is alg (change_priority q 0 p) ((fst x, p) # xs)"
  using assms pq_change_root_lower [of _ x xs p] by (cases q) (auto simp: queue_is_def)

section \<open>The invariant\<close>

text \<open>
  The PCBs: never freed, so the addresses given out are exactly those below the next one. The bound
  on the run time is that of \<open>prio_ok\<close>, under which the priority queue compares correctly.
\<close>

definition pcb_ok :: "PCB \<Rightarrow> bool" where
  "pcb_ok pcb \<longleftrightarrow> valid_pcb pcb \<and> prio_ok (runtime (PDATA pcb)) \<and> prio_ok (proc_priority (PDATA pcb)) \<and>
     0 \<le> remaining_time pcb \<and> remaining_time pcb \<le> runtime (PDATA pcb)"

definition pcbs_ok :: "(ptr \<rightharpoonup> PCB) \<Rightarrow> ptr \<Rightarrow> bool" where
  "pcbs_ok H b \<longleftrightarrow> 0 < b \<and> dom H = {0<..<b} \<and> (\<forall>p pcb. H p = Some pcb \<longrightarrow> pcb_ok pcb)"

definition entries_ok :: "SchedulingAlgorithm \<Rightarrow> (ptr \<rightharpoonup> PCB) \<Rightarrow> (ptr \<times> int) list \<Rightarrow> bool" where
  "entries_ok alg H xs \<longleftrightarrow> distinct (map fst xs) \<and>
     (\<forall>x \<in> set xs. \<exists>pcb. H (fst x) = Some pcb \<and> snd x = queue_priority alg pcb)"

text \<open>Where the running process stands: at the front (RR), outside (HPF), somewhere in the queue (SRTN).\<close>

definition current_ok :: "SchedulingAlgorithm \<Rightarrow> (ptr \<rightharpoonup> PCB) \<Rightarrow> ptr \<Rightarrow> int \<Rightarrow> (ptr \<times> int) list \<Rightarrow> bool" where
  "current_ok alg H cur lrt xs \<longleftrightarrow> cur = NULL \<or>
     (case alg of RR \<Rightarrow> xs \<noteq> [] \<and> fst (hd xs) = cur | HPF \<Rightarrow> cur \<notin> fst ` set xs | SRTN \<Rightarrow> cur \<in> fst ` set xs) \<and>
     (\<exists>pcb. H cur = Some pcb \<and> state pcb \<in> {Some ''started'', Some ''resumed''} \<and>
        remaining_time pcb \<le> lrt \<and> lrt \<le> runtime (PDATA pcb))"

text \<open>Exactly the processes that are neither queued nor running have finished.\<close>

definition finished_ok :: "(ptr \<rightharpoonup> PCB) \<Rightarrow> ptr \<Rightarrow> (ptr \<times> int) list \<Rightarrow> bool" where
  "finished_ok H cur xs \<longleftrightarrow>
     (\<forall>p pcb. H p = Some pcb \<longrightarrow> (state pcb = Some ''finished'') = (p \<notin> fst ` set xs \<and> p \<noteq> cur))"

text \<open>
  The C ints of a PCB that is received are in range; the pid, which is only compared and passed on, is
  whatever \<open>fork\<close> returned.
\<close>

definition pcb_typed :: "PCB \<Rightarrow> bool" where
  "pcb_typed c \<longleftrightarrow> in_int (start_time c) \<and> in_int (wait_time c) \<and> in_int (remaining_time c) \<and>
     process_in_int (PDATA c)"

text \<open>A message as \<open>fork_and_send\<close> makes it, for a process of the sizes above.\<close>

definition msg_ok :: "PCB \<Rightarrow> bool" where
  "msg_ok m \<longleftrightarrow> pcb_typed m \<and> state m = None \<and> start_time m = - 1 \<and> remaining_time m = runtime (PDATA m) \<and>
     prio_ok (runtime (PDATA m)) \<and> prio_ok (proc_priority (PDATA m))"

text \<open>Only round robin has a quantum; under the other algorithms \<open>main\<close> leaves the variable unset.\<close>

definition quantum_ok :: "SchedulingAlgorithm \<Rightarrow> int \<Rightarrow> bool" where
  "quantum_ok alg q \<longleftrightarrow> (alg = RR \<longrightarrow> 0 < q) \<and> in_int q"

abbreviation slice_ok :: "string \<Rightarrow> int \<Rightarrow> bool" where
  "slice_ok name q \<equiv> set_selected_algorithm name RR = RR \<longrightarrow> 0 < q"

definition sched_core :: "sched \<Rightarrow> (ptr \<times> int) list \<Rightarrow> bool" where
  "sched_core s xs \<longleftrightarrow>
     queue_is (selected_algorithm s) (rdy_queue s) xs \<and>
     pcbs_ok (pcb_heap s) (pcb_brk s) \<and>
     entries_ok (selected_algorithm s) (pcb_heap s) xs \<and>
     current_ok (selected_algorithm s) (pcb_heap s) (current_pcb s) (last_remain_time s) xs \<and>
     finished_ok (pcb_heap s) (current_pcb s) xs \<and>
     quantum_ok (selected_algorithm s) (quantum s)"

definition sched_rep :: "sched \<Rightarrow> (ptr \<times> int) list \<Rightarrow> bool" where
  "sched_rep s xs \<longleftrightarrow> sched_core s xs \<and> (\<forall>m \<in> set (msgs_pcb s). msg_ok m) \<and>
     pcb_brk s + length (msgs_pcb s) \<le> queue_limit"

definition sched_inv :: "sched \<Rightarrow> bool" where
  "sched_inv s \<longleftrightarrow> (\<exists>xs. sched_rep s xs)"

lemmas sched_rep_defs = sched_rep_def sched_core_def entries_ok_def current_ok_def finished_ok_def

lemma sched_inv_start:
  "slice_ok name q \<Longrightarrow> in_int q \<Longrightarrow> sched_inv (run_scheduler name q n now)"
  by (auto simp: sched_inv_def quantum_ok_def sched_rep_defs run_scheduler_def Let_def queue_is_init pcbs_ok_def
      intro!: exI [of _ "[]"])

lemma entries_ok_mset:
  assumes "mset xs' = mset xs" "entries_ok alg H xs"
  shows "entries_ok alg H xs'"
proof -
  have "set xs' = set xs" using assms(1) by (rule mset_eq_setD)
  moreover have "distinct (map fst xs') = distinct (map fst xs)"
    using assms(1) mset_eq_imp_distinct_iff [of "map fst xs'" "map fst xs"] by simp
  ultimately show ?thesis using assms(2) by (simp add: entries_ok_def)
qed

lemma entries_ok_tl: "entries_ok alg H (x # xs) \<Longrightarrow> entries_ok alg H xs"
  by (simp add: entries_ok_def)

lemma entries_length:
  assumes "entries_ok alg H xs" "pcbs_ok H b"
  shows "length xs < b"
proof -
  have "fst ` set xs \<subseteq> dom H" using assms(1) by (auto simp: entries_ok_def)
  then have "card (fst ` set xs) \<le> card {0<..<b}"
    using assms(2) by (intro card_mono) (auto simp: pcbs_ok_def)
  moreover have "card (fst ` set xs) = length xs"
    using assms(1) distinct_card [of "map fst xs"] by (simp add: entries_ok_def)
  moreover have "0 < b" using assms(2) by (simp add: pcbs_ok_def)
  ultimately show ?thesis by simp
qed

lemma pcbs_ok_get:
  assumes "pcbs_ok H b" "H p = Some pcb"
  shows "pcb_ok pcb" "p \<noteq> NULL" "p < b"
proof -
  have "p \<in> {0<..<b}" using assms by (auto simp: pcbs_ok_def)
  then show "p \<noteq> NULL" "p < b" by auto
  show "pcb_ok pcb" using assms by (auto simp: pcbs_ok_def)
qed

lemma pcbs_ok_upd: "pcbs_ok H b \<Longrightarrow> H p \<noteq> None \<Longrightarrow> pcb_ok pcb \<Longrightarrow> pcbs_ok (H(p \<mapsto> pcb)) b"
  by (auto simp: pcbs_ok_def)

lemma entries_ok_upd:
  "entries_ok alg H xs \<Longrightarrow> p \<notin> fst ` set xs \<or> H p = Some old \<and> queue_priority alg pcb = queue_priority alg old \<Longrightarrow>
   entries_ok alg (H(p \<mapsto> pcb)) xs"
  by (auto simp: entries_ok_def image_iff)

lemma sched_core_current:
  assumes "sched_core s xs" "current_pcb s \<noteq> NULL"
  obtains pcb where "get_pcb s (current_pcb s) = Some pcb" "pcb_heap s (current_pcb s) = Some pcb"
    "pcb_ok pcb" "state pcb \<in> {Some ''started'', Some ''resumed''}"
    "remaining_time pcb \<le> last_remain_time s" "last_remain_time s \<le> runtime (PDATA pcb)"
  using assms by (auto simp: sched_rep_defs get_pcb_def pcbs_ok_def)

lemma pcb_ok_runtime: "pcb_ok pcb \<Longrightarrow> runtime (PDATA pcb) \<noteq> 0"
  by (simp add: pcb_ok_def valid_pcb_def)

lemma log_event_ok:
  "pcb_ok pcb \<Longrightarrow> state pcb \<noteq> None \<Longrightarrow> \<exists>f'. log_event now pcb f = Some f'"
  by (auto simp: log_event_def double_div_def Let_def dest: pcb_ok_runtime)

lemma log_pcb_ok:
  "pcb_ok pcb \<Longrightarrow> state pcb \<noteq> None \<Longrightarrow> \<exists>f. log_pcb pcb s = Some (s\<lparr>files := f\<rparr>)"
  using log_event_ok [of pcb "clk s" "files s"] by (auto simp: log_pcb_def)

section \<open>Receiving\<close>

lemma admit_core:
  assumes core: "sched_core s xs" and m: "valid_pcb m" "msg_ok m" and b: "pcb_brk s < queue_limit"
  shows "\<exists>q xs'. admit m s = Some (s\<lparr>pcb_heap := (pcb_heap s)(pcb_brk s \<mapsto> m),
      pcb_brk := Suc (pcb_brk s), rdy_queue := q\<rparr>) \<and>
    sched_core (s\<lparr>pcb_heap := (pcb_heap s)(pcb_brk s \<mapsto> m), pcb_brk := Suc (pcb_brk s), rdy_queue := q\<rparr>) xs'"
proof -
  let ?alg = "selected_algorithm s" and ?H = "pcb_heap s" and ?b = "pcb_brk s"
  let ?H' = "?H(?b \<mapsto> m)" and ?k = "queue_priority ?alg m"
  have q: "queue_is ?alg (rdy_queue s) xs" and ok: "pcbs_ok ?H ?b" and ent: "entries_ok ?alg ?H xs"
    and cur: "current_ok ?alg ?H (current_pcb s) (last_remain_time s) xs"
    and fin: "finished_ok ?H (current_pcb s) xs" and quant: "quantum_ok (selected_algorithm s) (quantum s)"
    using core by (simp_all add: sched_core_def)
  have "prio_ok ?k" using m(2) by (auto simp: queue_priority_def msg_ok_def prio_ok_def split: SchedulingAlgorithm.splits)
  moreover have "?alg = RR \<Longrightarrow> ?k = 0 \<and> (\<forall>x \<in> set xs. snd x = 0)"
    using ent by (auto simp: queue_priority_def entries_ok_def)
  moreover have "length xs < queue_limit" using entries_length [OF ent ok] b by simp
  ultimately obtain q' xs' where q': "enqueue (rdy_queue s) ?b ?k = Some q'" "queue_is ?alg q' xs'"
    "mset xs' = add_mset (?b, ?k) (mset xs)" "?alg = RR \<longrightarrow> xs \<noteq> [] \<longrightarrow> hd xs' = hd xs"
    using queue_is_enqueue [OF q] by blast
  have none: "?H ?b = None" and nn: "?b \<noteq> NULL" using ok by (auto simp: pcbs_ok_def)
  have "?b \<notin> fst ` set xs" using none ent by (fastforce simp: entries_ok_def)
  note fresh = none this nn
  have "set xs' = set ((?b, ?k) # xs)" using q'(3) by (intro mset_eq_setD) simp
  then have set': "fst ` set xs' = insert ?b (fst ` set xs)" by simp
  have ok': "pcb_ok m" using m by (auto simp: pcb_ok_def msg_ok_def valid_pcb_def)
  have "pcbs_ok ?H' (Suc ?b)" using ok ok' by (auto simp: pcbs_ok_def)
  moreover have "entries_ok ?alg ?H' ((?b, ?k) # xs)"
    using entries_ok_upd [OF ent, of ?b] fresh(2) by (auto simp: entries_ok_def)
  then have "entries_ok ?alg ?H' xs'" using q'(3) by (intro entries_ok_mset [of xs' "(?b, ?k) # xs"]) auto
  moreover have "current_pcb s \<noteq> ?b" using cur fresh by (auto simp: current_ok_def)
  then have "current_ok ?alg ?H' (current_pcb s) (last_remain_time s) xs'"
    using cur set' q'(4) by (auto simp: current_ok_def split: SchedulingAlgorithm.splits)
  moreover have "finished_ok ?H' (current_pcb s) xs'"
    using fin set' m(2) fresh by (auto simp: finished_ok_def msg_ok_def)
  ultimately have "sched_core (s\<lparr>pcb_heap := ?H', pcb_brk := Suc ?b, rdy_queue := q'\<rparr>) xs'"
    using q'(2) quant by (simp add: sched_core_def)
  then show ?thesis using q'(1) by (auto simp: admit_def Let_def)
qed

lemma receive_all_core:
  assumes "sched_core s xs" "\<forall>m \<in> set ms. msg_ok m" "pcb_brk s + length ms \<le> queue_limit"
  shows "\<exists>s' xs'. receive_all ms s = Some s' \<and> sched_rep s' xs'"
  using assms
proof (induct ms arbitrary: s xs)
  case Nil
  then show ?case by (auto simp: sched_rep_def sched_core_def)
next
  case (Cons m ms)
  show ?case
  proof (cases "valid_pcb m")
    case False
    then show ?thesis using Cons.prems by (auto simp: sched_rep_def sched_core_def)
  next
    case True
    with admit_core [OF Cons.prems(1) True] Cons.prems obtain s' xs' where
      "admit m s = Some s'" "sched_core s' xs'" "pcb_brk s' = Suc (pcb_brk s)" by fastforce
    with Cons.hyps [of s' xs'] Cons.prems True show ?thesis by auto
  qed
qed

lemma check_for_new_inv:
  "sched_inv s \<Longrightarrow> \<exists>s'. check_for_new_processes s = Some s' \<and> sched_inv s'"
  using receive_all_core [of s _ "msgs_pcb s"]
  unfolding check_for_new_processes_def sched_inv_def sched_rep_def by blast

section \<open>Dispatching\<close>

text \<open>How \<open>schedule_next_process\<close> changes the PCB it picks.\<close>

definition dispatched :: "int \<Rightarrow> PCB \<Rightarrow> PCB" where
  "dispatched now pcb =
     (if start_time pcb = - 1 then
        pcb\<lparr>state := Some ''started'', start_time := now,
            wait_time := wrap32 (now - arrival_time (PDATA pcb))\<rparr>
      else
        pcb\<lparr>state := Some ''resumed'',
            wait_time := wrap32 (wrap32 (now - arrival_time (PDATA pcb)) -
              wrap32 (runtime (PDATA pcb) - remaining_time pcb))\<rparr>)"

lemma dispatched_simps [simp]:
  "PDATA (dispatched now pcb) = PDATA pcb" "remaining_time (dispatched now pcb) = remaining_time pcb"
  "pid (dispatched now pcb) = pid pcb"
  "state (dispatched now pcb) = Some (if start_time pcb = - 1 then ''started'' else ''resumed'')"
  by (simp_all add: dispatched_def)

lemma dispatched_ok [simp]:
  "pcb_ok (dispatched now pcb) = pcb_ok pcb"
  "queue_priority alg (dispatched now pcb) = queue_priority alg pcb"
  by (simp_all add: pcb_ok_def valid_pcb_def queue_priority_def split: SchedulingAlgorithm.split)

lemma schedule_next_Nil: "sched_core s [] \<Longrightarrow> schedule_next_process s = Some s"
  by (auto simp: schedule_next_process_def sched_core_def queue_is_empty)

lemma schedule_next_Cons:
  assumes core: "sched_core s (x # xs)" and null: "current_pcb s = NULL"
  shows "\<exists>pcb q f xs'. pcb_heap s (fst x) = Some pcb \<and> pcb_ok pcb \<and>
    log_event (clk s) (dispatched (clk s) pcb) (files s) = Some f \<and>
    schedule_next_process s = Some (s\<lparr>current_pcb := fst x, rdy_queue := q,
      pcb_heap := (pcb_heap s)(fst x \<mapsto> dispatched (clk s) pcb),
      kills := kills s @ [(pid pcb, SIGCONT)], last_remain_time := remaining_time pcb,
      log_start_time := clk s, files := f\<rparr>) \<and>
    queue_is (selected_algorithm s) q xs' \<and>
    (if selected_algorithm s = HPF then mset xs' = mset xs else xs' = x # xs)"
proof -
  let ?alg = "selected_algorithm s"
  have q: "queue_is ?alg (rdy_queue s) (x # xs)" and ok: "pcbs_ok (pcb_heap s) (pcb_brk s)"
    and ent: "entries_ok ?alg (pcb_heap s) (x # xs)"
    using core by (simp_all add: sched_core_def)
  obtain pcb where pcb: "pcb_heap s (fst x) = Some pcb" "pcb_ok pcb" "fst x \<noteq> NULL"
    using ent pcbs_ok_get [OF ok, of "fst x"] by (auto simp: entries_ok_def)
  obtain f where f: "log_event (clk s) (dispatched (clk s) pcb) (files s) = Some f"
    using log_event_ok [of "dispatched (clk s) pcb"] pcb(2) by auto
  have ne: "\<not> is_empty (rdy_queue s)" and fr: "front (rdy_queue s) = Some (Some (fst x))"
    using queue_is_empty [OF q] queue_is_front [OF q] by auto
  note run = schedule_next_process_def ne fr pcb f get_pcb_def put_pcb_def kill_pcb_def log_pcb_def
    ptr_of_def Let_def dispatched_def [symmetric]
  show ?thesis
  proof (cases "?alg = HPF")
    case True
    obtain q' xs' where "dequeue (rdy_queue s) 1 = Some (Some (fst x), q')" "queue_is ?alg q' xs'"
      "mset xs' = mset xs" using queue_is_remove [OF q] by blast
    with True pcb f show ?thesis
      by (intro exI [of _ pcb] exI [of _ q'] exI [of _ f] exI [of _ xs']) (simp add: run)
  next
    case False
    with q pcb f show ?thesis
      by (intro exI [of _ pcb] exI [of _ "rdy_queue s"] exI [of _ f] exI [of _ "x # xs"]) (simp add: run)
  qed
qed

lemma schedule_next_core:
  assumes core: "sched_core s xs" and null: "current_pcb s = NULL"
  shows "\<exists>s' xs'. schedule_next_process s = Some s' \<and> sched_core s' xs' \<and>
    msgs_pcb s' = msgs_pcb s \<and> pcb_brk s' = pcb_brk s"
proof (cases xs)
  case Nil
  then show ?thesis using core schedule_next_Nil [of s] by auto
next
  case (Cons x ys)
  let ?alg = "selected_algorithm s" and ?H = "pcb_heap s"
  obtain pcb q f xs' s' where pcb: "?H (fst x) = Some pcb" "pcb_ok pcb"
    and run: "schedule_next_process s = Some s'" and s': "s' = (s\<lparr>current_pcb := fst x, rdy_queue := q,
      pcb_heap := ?H(fst x \<mapsto> dispatched (clk s) pcb),
      kills := kills s @ [(pid pcb, SIGCONT)], last_remain_time := remaining_time pcb,
      log_start_time := clk s, files := f\<rparr>)"
    and q: "queue_is ?alg q xs'" "if ?alg = HPF then mset xs' = mset ys else xs' = x # ys"
    using schedule_next_Cons [OF core [unfolded Cons] null] by blast
  let ?H' = "?H(fst x \<mapsto> dispatched (clk s) pcb)"
  have ok: "pcbs_ok ?H (pcb_brk s)" and ent: "entries_ok ?alg ?H (x # ys)"
    and fin: "finished_ok ?H NULL (x # ys)" and quant: "quantum_ok (selected_algorithm s) (quantum s)"
    using core Cons null by (simp_all add: sched_core_def)
  have nn: "fst x \<noteq> NULL" using pcbs_ok_get [OF ok pcb(1)] by simp
  have set': "fst ` set xs' = (if ?alg = HPF then fst ` set ys else fst ` set (x # ys))"
    using q(2) by (auto split: if_splits dest: mset_eq_setD)
  have x: "fst x \<notin> fst ` set ys" using ent by (auto simp: entries_ok_def)
  have "entries_ok ?alg ?H' (x # ys)" using pcb by (intro entries_ok_upd [OF ent]) auto
  then have "entries_ok ?alg ?H' xs'"
    using q(2) entries_ok_mset [of xs' ys] entries_ok_tl by (metis (full_types))
  moreover have "pcbs_ok ?H' (pcb_brk s)" using pcbs_ok_upd [OF ok] pcb by simp
  moreover have "current_ok ?alg ?H' (fst x) (remaining_time pcb) xs'"
    using set' x q(2) pcb(2) by (auto simp: current_ok_def pcb_ok_def split: SchedulingAlgorithm.splits)
  moreover have "finished_ok ?H' (fst x) xs'"
    using fin set' nn pcb(1) pcbs_ok_get(2) [OF ok] by (auto simp: finished_ok_def split: if_splits)
  ultimately have "sched_core s' xs'" using q(1) quant by (simp add: sched_core_def s')
  then show ?thesis using run s' by auto
qed

lemma dispatch_inv:
  assumes "sched_inv s"
  shows "\<exists>s'. dispatch s = Some s' \<and> sched_inv s'"
proof -
  obtain xs where rep: "sched_rep s xs" using assms by (auto simp: sched_inv_def)
  let ?i = "if clk s > last_process_end_time s \<and> \<not> is_empty (rdy_queue s) then
             log_execution (Idle (last_process_end_time s) (clk s))
               (s\<lparr>idle_time := wrap32 (idle_time s + wrap32 (clk s - last_process_end_time s))\<rparr>)
           else s"
  have core: "sched_core ?i xs" and eq: "current_pcb ?i = current_pcb s" "msgs_pcb ?i = msgs_pcb s"
    "pcb_brk ?i = pcb_brk s"
    using rep by (auto simp: sched_rep_def sched_core_def log_execution_def)
  show ?thesis
  proof (cases "current_pcb s = NULL")
    case True
    with schedule_next_core [OF core] eq obtain s' xs' where "schedule_next_process ?i = Some s'"
      "sched_core s' xs'" "msgs_pcb s' = msgs_pcb s" "pcb_brk s' = pcb_brk s" by auto
    with True rep show ?thesis by (auto simp: dispatch_def sched_inv_def sched_rep_def)
  next
    case False
    with assms show ?thesis by (simp add: dispatch_def)
  qed
qed

section \<open>Signals\<close>

text \<open>
  When the scheduler may get a signal of the running process: some process is running and has time
  left. Under SRTN the running process must also be the front of the queue: it is from the dispatch
  on until a process with less remaining time is received, and until then the handlers, which work
  on the front of the queue, touch the right entry.
\<close>

definition signal_ok :: "sched \<Rightarrow> bool" where
  "signal_ok s \<longleftrightarrow> current_pcb s \<noteq> NULL \<and>
     (\<exists>pcb. pcb_heap s (current_pcb s) = Some pcb \<and> 0 < remaining_time pcb) \<and>
     (selected_algorithm s = SRTN \<longrightarrow> front (rdy_queue s) = Some (Some (current_pcb s)))"

lemma signal_front:
  assumes "sched_core s xs" "signal_ok s" "selected_algorithm s \<noteq> HPF"
  obtains x ys where "xs = x # ys" "fst x = current_pcb s"
proof -
  have "queue_is (selected_algorithm s) (rdy_queue s) xs"
    and "current_ok (selected_algorithm s) (pcb_heap s) (current_pcb s) (last_remain_time s) xs"
    using assms(1) by (simp_all add: sched_core_def)
  with assms(2,3) have "xs \<noteq> [] \<and> fst (hd xs) = current_pcb s"
    using queue_is_front [of "selected_algorithm s" "rdy_queue s" xs]
    by (cases "selected_algorithm s"; cases "xs = []") (auto simp: signal_ok_def current_ok_def)
  then show thesis using that [of "hd xs" "tl xs"] by simp
qed

lemma prio_ok_pred: "pcb_ok pcb \<Longrightarrow> 0 < remaining_time pcb \<Longrightarrow>
  prio_ok (remaining_time pcb - 1) \<and> wrap32 (remaining_time pcb - 1) = remaining_time pcb - 1 \<and>
  pcb_ok (pcb\<lparr>remaining_time := remaining_time pcb - 1\<rparr>)"
  by (auto simp: pcb_ok_def prio_ok_def valid_pcb_def c_int)

lemma handle_process_tick_core:
  assumes core: "sched_core s xs" and sig: "signal_ok s"
  shows "\<exists>s' xs'. handle_process_tick s = Some s' \<and> sched_core s' xs' \<and>
    msgs_pcb s' = msgs_pcb s \<and> pcb_brk s' = pcb_brk s"
proof -
  let ?alg = "selected_algorithm s" and ?H = "pcb_heap s" and ?c = "current_pcb s"
  have q: "queue_is ?alg (rdy_queue s) xs" and ok: "pcbs_ok ?H (pcb_brk s)"
    and ent: "entries_ok ?alg ?H xs" and cur: "current_ok ?alg ?H ?c (last_remain_time s) xs"
    and fin: "finished_ok ?H ?c xs" and quant: "quantum_ok (selected_algorithm s) (quantum s)"
    using core by (simp_all add: sched_core_def)
  obtain pcb where pcb: "?H ?c = Some pcb" "0 < remaining_time pcb" and c: "?c \<noteq> NULL"
    using sig by (auto simp: signal_ok_def)
  define pcb' where "pcb' = pcb\<lparr>remaining_time := remaining_time pcb - 1\<rparr>"
  note dec = prio_ok_pred [OF pcbs_ok_get(1) [OF ok pcb(1)] pcb(2)]
  let ?H' = "?H(?c \<mapsto> pcb')"
  let ?q = "if ?alg = SRTN then change_priority (rdy_queue s) 0 (remaining_time pcb') else rdy_queue s"
  have run: "handle_process_tick s = Some (s\<lparr>pcb_heap := ?H', rdy_queue := ?q\<rparr>)"
    using pcb c dec by (auto simp: handle_process_tick_def get_pcb_def put_pcb_def Let_def pcb'_def)
  have ok': "pcbs_ok ?H' (pcb_brk s)" using pcbs_ok_upd [OF ok] pcb(1) dec by (simp add: pcb'_def)
  have fin': "finished_ok ?H' ?c ys" if "fst ` set ys = fst ` set xs" for ys
    using fin cur c pcb(1) that by (auto simp: finished_ok_def current_ok_def pcb'_def)
  have cur': "current_ok ?alg ?H' ?c (last_remain_time s) ys"
    if "fst ` set ys = fst ` set xs" "fst (hd ys) = fst (hd xs)" for ys
    using cur pcb(1) that
    by (auto simp: current_ok_def pcb'_def split: SchedulingAlgorithm.splits)
  show ?thesis
  proof (cases "?alg = SRTN")
    case True
    then obtain x ys where xs: "xs = x # ys" "fst x = ?c"
      using signal_front [OF core sig] by auto
    have sx: "snd x = remaining_time pcb" using ent xs pcb(1) True by (auto simp: entries_ok_def queue_priority_def)
    have "queue_is ?alg ?q ((?c, remaining_time pcb') # ys)"
      using queue_is_lower [of ?alg "rdy_queue s" x ys "remaining_time pcb'"] q xs True dec sx
      by (simp add: pcb'_def)
    moreover have "entries_ok ?alg ?H' ((?c, remaining_time pcb') # ys)"
      using ent xs True by (auto simp: entries_ok_def queue_priority_def image_iff)
    ultimately have "sched_core (s\<lparr>pcb_heap := ?H', rdy_queue := ?q\<rparr>) ((?c, remaining_time pcb') # ys)"
      using ok' quant xs cur' [of "(?c, remaining_time pcb') # ys"] fin' [of "(?c, remaining_time pcb') # ys"]
      by (auto simp: sched_core_def)
    then show ?thesis using run by fastforce
  next
    case False
    then have "entries_ok ?alg ?H' xs"
      using pcb(1) by (intro entries_ok_upd [OF ent]) (auto simp: queue_priority_def pcb'_def split: SchedulingAlgorithm.splits)
    then have "sched_core (s\<lparr>pcb_heap := ?H', rdy_queue := ?q\<rparr>) xs"
      using False q ok' quant cur' [of xs] fin' [of xs] by (auto simp: sched_core_def)
    then show ?thesis using run by fastforce
  qed
qed

text \<open>The part of the termination handler that takes the process out of the queue.\<close>

lemma unqueue_current:
  assumes core: "sched_core s xs" and sig: "signal_ok s"
  shows "\<exists>r q zs. (if selected_algorithm s \<noteq> HPF then dequeue (rdy_queue s) 1 else Some (None, rdy_queue s)) = Some (r, q) \<and>
    queue_is (selected_algorithm s) q zs \<and> entries_ok (selected_algorithm s) (pcb_heap s) zs \<and>
    fst ` set zs = fst ` set xs - {current_pcb s}"
proof -
  let ?alg = "selected_algorithm s"
  have q: "queue_is ?alg (rdy_queue s) xs" and ent: "entries_ok ?alg (pcb_heap s) xs"
    and cur: "current_ok ?alg (pcb_heap s) (current_pcb s) (last_remain_time s) xs"
    using core by (simp_all add: sched_core_def)
  show ?thesis
  proof (cases "?alg = HPF")
    case True
    moreover have "current_pcb s \<notin> fst ` set xs" using cur sig True by (auto simp: current_ok_def signal_ok_def)
    ultimately show ?thesis using q ent by auto
  next
    case False
    obtain x ys where xs: "xs = x # ys" "fst x = current_pcb s" by (rule signal_front [OF core sig False])
    obtain q' zs where q': "dequeue (rdy_queue s) 1 = Some (Some (fst x), q')" "queue_is ?alg q' zs"
      "mset zs = mset ys" using queue_is_remove q xs(1) by blast
    have "fst ` set zs = fst ` set ys" using q'(3) by (auto dest: mset_eq_setD)
    moreover have "entries_ok ?alg (pcb_heap s) zs"
      using entries_ok_mset [OF q'(3)] entries_ok_tl [of ?alg "pcb_heap s" x ys] ent xs(1) by blast
    moreover have "current_pcb s \<notin> fst ` set ys" using ent xs by (auto simp: entries_ok_def)
    ultimately show ?thesis using q' False xs by (auto intro!: exI [of _ zs])
  qed
qed

definition terminated :: "PCB \<Rightarrow> PCB" where
  "terminated pcb = pcb\<lparr>remaining_time := remaining_time pcb - 1, state := Some ''finished''\<rparr>"

lemma handle_process_termination_run:
  assumes core: "sched_core s xs" and sig: "signal_ok s" and pcb: "pcb_heap s (current_pcb s) = Some pcb"
  shows "\<exists>q zs f. queue_is (selected_algorithm s) q zs \<and>
    entries_ok (selected_algorithm s) (pcb_heap s) zs \<and> fst ` set zs = fst ` set xs - {current_pcb s} \<and>
    log_event (clk s) (terminated pcb) (files s) = Some f \<and>
    handle_process_termination s = Some (s\<lparr>
      execution_log := execution_log s @
        [Finishes (proc_id (PDATA pcb)) (runtime (PDATA pcb)) (log_start_time s) (clk s)],
      last_process_end_time := clk s, rdy_queue := q,
      pcb_heap := (pcb_heap s)(current_pcb s \<mapsto> terminated pcb), files := f,
      current_pcb := NULL, last_remain_time := 0, log_start_time := 0\<rparr>)"
proof -
  let ?alg = "selected_algorithm s" and ?c = "current_pcb s"
  have ok: "pcbs_ok (pcb_heap s) (pcb_brk s)" using core by (simp add: sched_core_def)
  have c: "?c \<noteq> NULL" "0 < remaining_time pcb" using sig pcb by (auto simp: signal_ok_def)
  note dec = prio_ok_pred [OF pcbs_ok_get(1) [OF ok pcb] c(2)]
  have "pcb_ok (terminated pcb)" using dec by (simp add: terminated_def pcb_ok_def valid_pcb_def)
  from log_event_ok [OF this, of "clk s" "files s"] obtain f where
    f: "log_event (clk s) (terminated pcb) (files s) = Some f" by (auto simp: terminated_def)
  obtain r q zs where q: "(if ?alg \<noteq> HPF then dequeue (rdy_queue s) 1 else Some (None, rdy_queue s)) = Some (r, q)"
    "queue_is ?alg q zs" "entries_ok ?alg (pcb_heap s) zs" "fst ` set zs = fst ` set xs - {?c}"
    using unqueue_current [OF core sig] by blast
  have front: "\<exists>y np. front q = Some y \<and> (\<not> is_empty q \<longrightarrow>
      (\<forall>s'. pcb_heap s' = pcb_heap s \<longrightarrow> get_pcb s' (ptr_of y) = Some np))"
  proof (cases zs)
    case Nil
    then show ?thesis using queue_is_empty [OF q(2)] queue_is_front [OF q(2)] by simp
  next
    case (Cons z zs')
    then obtain np where "pcb_heap s (fst z) = Some np" using q(3) by (auto simp: entries_ok_def)
    with Cons pcbs_ok_get(2) [OF ok this] show ?thesis
      using queue_is_front [OF q(2)] by (auto simp: get_pcb_def ptr_of_def)
  qed
  then obtain y np where y: "front q = Some y"
    "\<And>s'. \<not> is_empty q \<Longrightarrow> pcb_heap s' = pcb_heap s \<Longrightarrow> get_pcb s' (ptr_of y) = Some np" by blast
  have term': "pcb\<lparr>remaining_time := wrap32 (remaining_time pcb - 1), state := Some ''finished''\<rparr> = terminated pcb"
    using dec by (simp add: terminated_def)
  have "handle_process_termination s = Some (s\<lparr>
      execution_log := execution_log s @
        [Finishes (proc_id (PDATA pcb)) (runtime (PDATA pcb)) (log_start_time s) (clk s)],
      last_process_end_time := clk s, rdy_queue := q,
      pcb_heap := (pcb_heap s)(?c \<mapsto> terminated pcb), files := f,
      current_pcb := NULL, last_remain_time := 0, log_start_time := 0\<rparr>)"
  proof -
    have g: "get_pcb s' ?c = Some pcb" if "pcb_heap s' = pcb_heap s" for s'
      using that pcb c(1) by (simp add: get_pcb_def)
    note run = handle_process_termination_def g y term' f log_execution_def put_pcb_def log_pcb_def Let_def
    show ?thesis using q(1)
      by (cases "?alg = HPF"; cases "is_empty q") (simp_all add: run)
  qed
  then show ?thesis using q f by blast
qed

lemma terminated_ok: "pcb_ok pcb \<Longrightarrow> 0 < remaining_time pcb \<Longrightarrow> pcb_ok (terminated pcb)"
  by (simp add: terminated_def pcb_ok_def valid_pcb_def)

lemma handle_process_termination_core:
  assumes core: "sched_core s xs" and sig: "signal_ok s"
  shows "\<exists>s' xs'. handle_process_termination s = Some s' \<and> sched_core s' xs' \<and>
    msgs_pcb s' = msgs_pcb s \<and> pcb_brk s' = pcb_brk s"
proof -
  let ?alg = "selected_algorithm s" and ?c = "current_pcb s" and ?H = "pcb_heap s"
  obtain pcb where pcb: "?H ?c = Some pcb" "0 < remaining_time pcb" using sig by (auto simp: signal_ok_def)
  obtain q zs f s' where q: "queue_is ?alg q zs" "entries_ok ?alg ?H zs" "fst ` set zs = fst ` set xs - {?c}"
    and run: "handle_process_termination s = Some s'" and s': "s' = s\<lparr>
      execution_log := execution_log s @
        [Finishes (proc_id (PDATA pcb)) (runtime (PDATA pcb)) (log_start_time s) (clk s)],
      last_process_end_time := clk s, rdy_queue := q, pcb_heap := ?H(?c \<mapsto> terminated pcb), files := f,
      current_pcb := NULL, last_remain_time := 0, log_start_time := 0\<rparr>"
    using handle_process_termination_run [OF core sig pcb(1)] by blast
  have ok: "pcbs_ok ?H (pcb_brk s)" and fin: "finished_ok ?H ?c xs" and quant: "quantum_ok (selected_algorithm s) (quantum s)"
    using core by (simp_all add: sched_core_def)
  have "pcbs_ok (?H(?c \<mapsto> terminated pcb)) (pcb_brk s)"
    using pcbs_ok_upd [OF ok] pcb terminated_ok [OF pcbs_ok_get(1) [OF ok pcb(1)] pcb(2)] by simp
  moreover have "entries_ok ?alg (?H(?c \<mapsto> terminated pcb)) zs"
    using q(3) by (intro entries_ok_upd [OF q(2)]) auto
  moreover have "finished_ok (?H(?c \<mapsto> terminated pcb)) NULL zs"
    using fin q(3) pcb pcbs_ok_get(2) [OF ok]
    by (auto simp: finished_ok_def terminated_def)
  ultimately have "sched_core s' zs" using q(1) quant by (simp add: sched_core_def s' current_ok_def)
  then show ?thesis using run s' by auto
qed

section \<open>The end of a quantum, and preemption\<close>

lemma handle_quantum_expiration_run:
  assumes core: "sched_core s xs" and c: "current_pcb s \<noteq> NULL" and alg: "selected_algorithm s \<noteq> HPF"
  shows "\<exists>pcb q f. pcb_heap s (current_pcb s) = Some pcb \<and>
    queue_is (selected_algorithm s) q (if selected_algorithm s = RR then tl xs @ [hd xs] else xs) \<and>
    log_event (clk s) (pcb\<lparr>state := Some ''stopped''\<rparr>) (files s) = Some f \<and>
    handle_quantum_expiration s = Some (s\<lparr>
      execution_log := execution_log s @ [Runs (proc_id (PDATA pcb)) (runtime (PDATA pcb)) (log_start_time s)
        (clk s) (remaining_time pcb)],
      last_process_end_time := clk s, kills := kills s @ [(pid pcb, SIGSTOP)],
      pcb_heap := (pcb_heap s)(current_pcb s \<mapsto> pcb\<lparr>state := Some ''stopped''\<rparr>), files := f,
      current_pcb := NULL, rdy_queue := q, log_start_time := 0\<rparr>)"
proof -
  let ?alg = "selected_algorithm s" and ?c = "current_pcb s"
  obtain pcb where pcb: "get_pcb s ?c = Some pcb" "pcb_heap s ?c = Some pcb" "pcb_ok pcb"
    by (rule sched_core_current [OF core c])
  have "pcb_ok (pcb\<lparr>state := Some ''stopped''\<rparr>)" using pcb(3) by (simp add: pcb_ok_def valid_pcb_def)
  from log_event_ok [OF this, of "clk s" "files s"] obtain f where
    f: "log_event (clk s) (pcb\<lparr>state := Some ''stopped''\<rparr>) (files s) = Some f" by auto
  have q: "queue_is ?alg (rdy_queue s) xs"
    and cur: "current_ok ?alg (pcb_heap s) ?c (last_remain_time s) xs"
    using core by (simp_all add: sched_core_def)
  note run = handle_quantum_expiration_def pcb f c kill_pcb_def log_execution_def put_pcb_def log_pcb_def Let_def
  show ?thesis
  proof (cases "?alg = RR")
    case True
    with cur c have "xs = hd xs # tl xs" by (auto simp: current_ok_def)
    with q True obtain r q' where "dequeue (rdy_queue s) 0 = Some (r, q')" "queue_is RR q' (tl xs @ [hd xs])"
      using queue_is_rotate by metis
    with True pcb f show ?thesis by (intro exI [of _ pcb] exI [of _ q'] exI [of _ f]) (simp add: run)
  next
    case False
    with pcb f q show ?thesis
      by (intro exI [of _ pcb] exI [of _ "rdy_queue s"] exI [of _ f]) (simp add: run)
  qed
qed

lemma handle_quantum_expiration_core:
  assumes core: "sched_core s xs" and alg: "selected_algorithm s \<noteq> HPF"
  shows "\<exists>s' xs'. handle_quantum_expiration s = Some s' \<and> sched_core s' xs' \<and>
    msgs_pcb s' = msgs_pcb s \<and> pcb_brk s' = pcb_brk s"
proof (cases "current_pcb s = NULL")
  case True
  then show ?thesis using core by (auto simp: handle_quantum_expiration_def)
next
  case False
  let ?alg = "selected_algorithm s" and ?c = "current_pcb s" and ?H = "pcb_heap s"
  let ?xs = "if ?alg = RR then tl xs @ [hd xs] else xs"
  obtain pcb q f s' where pcb: "?H ?c = Some pcb" and q: "queue_is ?alg q ?xs"
    and run: "handle_quantum_expiration s = Some s'" and s': "s' = s\<lparr>
      execution_log := execution_log s @ [Runs (proc_id (PDATA pcb)) (runtime (PDATA pcb)) (log_start_time s)
        (clk s) (remaining_time pcb)],
      last_process_end_time := clk s, kills := kills s @ [(pid pcb, SIGSTOP)],
      pcb_heap := ?H(?c \<mapsto> pcb\<lparr>state := Some ''stopped''\<rparr>), files := f,
      current_pcb := NULL, rdy_queue := q, log_start_time := 0\<rparr>"
    using handle_quantum_expiration_run [OF core False alg] by blast
  have ok: "pcbs_ok ?H (pcb_brk s)" and fin: "finished_ok ?H ?c xs" and ent: "entries_ok ?alg ?H xs"
    and cur: "current_ok ?alg ?H ?c (last_remain_time s) xs" and quant: "quantum_ok (selected_algorithm s) (quantum s)"
    using core by (simp_all add: sched_core_def)
  let ?pcb = "pcb\<lparr>state := Some ''stopped''\<rparr>"
  have "xs \<noteq> []" "?c \<in> fst ` set xs"
    using cur False alg by (cases xs; auto simp: current_ok_def split: SchedulingAlgorithm.splits)+
  then have m: "mset ?xs = mset xs" "?c \<in> fst ` set ?xs" "set ?xs = set xs" by (cases xs; auto)+
  have "pcbs_ok (?H(?c \<mapsto> ?pcb)) (pcb_brk s)"
    using pcbs_ok_upd [OF ok] pcb pcbs_ok_get(1) [OF ok pcb] by (simp add: pcb_ok_def valid_pcb_def)
  moreover have "entries_ok ?alg (?H(?c \<mapsto> ?pcb)) ?xs"
    using entries_ok_upd [OF ent, of ?c pcb ?pcb] entries_ok_mset [OF m(1)] pcb
    by (auto simp: queue_priority_def split: SchedulingAlgorithm.splits)
  moreover have "finished_ok (?H(?c \<mapsto> ?pcb)) NULL ?xs"
    using fin m(2,3) pcb pcbs_ok_get(2) [OF ok] by (auto simp: finished_ok_def simp del: set_append)
  ultimately have "sched_core s' ?xs" using q quant by (simp add: sched_core_def s' current_ok_def)
  then show ?thesis using run s' by auto
qed

lemma put_pcb_core:
  assumes core: "sched_core s xs" and rr: "selected_algorithm s = RR" and p: "current_pcb s \<noteq> NULL"
    "pcb_heap s (current_pcb s) = Some pcb" and r: "remaining_time pcb \<le> r" "r \<le> last_remain_time s"
  shows "sched_core (put_pcb s (current_pcb s) (pcb\<lparr>remaining_time := r\<rparr>)) xs"
proof -
  let ?H = "pcb_heap s" and ?c = "current_pcb s" and ?pcb = "pcb\<lparr>remaining_time := r\<rparr>"
  have ok: "pcbs_ok ?H (pcb_brk s)" and ent: "entries_ok RR ?H xs" and fin: "finished_ok ?H ?c xs"
    and cur: "current_ok RR ?H ?c (last_remain_time s) xs"
    using core rr by (simp_all add: sched_core_def)
  have "last_remain_time s \<le> runtime (PDATA pcb)" using cur p by (auto simp: current_ok_def)
  then have "pcbs_ok (?H(?c \<mapsto> ?pcb)) (pcb_brk s)"
    using pcbs_ok_upd [OF ok] p(2) pcbs_ok_get(1) [OF ok p(2)] r by (auto simp: pcb_ok_def valid_pcb_def)
  moreover have "entries_ok RR (?H(?c \<mapsto> ?pcb)) xs"
    using p(2) by (intro entries_ok_upd [OF ent]) (auto simp: queue_priority_def)
  moreover have "current_ok RR (?H(?c \<mapsto> ?pcb)) ?c (last_remain_time s) xs"
    using cur p r by (auto simp: current_ok_def)
  moreover have "finished_ok (?H(?c \<mapsto> ?pcb)) ?c xs" using fin p(2) by (auto simp: finished_ok_def)
  ultimately show ?thesis using core rr by (simp add: sched_core_def put_pcb_def)
qed

text \<open>The quantum never wraps the remaining time it is subtracted from.\<close>

lemma quantum_limit:
  assumes "sched_core s xs" "current_pcb s \<noteq> NULL" "selected_algorithm s = RR"
  shows "wrap32 (last_remain_time s - quantum s) = last_remain_time s - quantum s"
proof -
  obtain pcb where "pcb_ok pcb" "remaining_time pcb \<le> last_remain_time s" "last_remain_time s \<le> runtime (PDATA pcb)"
    by (rule sched_core_current [OF assms(1,2)])
  then show ?thesis using assms(1,3)
    by (intro wrap32_id) (auto simp: sched_core_def quantum_ok_def pcb_ok_def prio_ok_def in_int_def)
qed

lemma handle_current_core:
  assumes core: "sched_core s xs"
  shows "\<exists>s' xs'. handle_current_running_process s = Some s' \<and> sched_core s' xs' \<and>
    msgs_pcb s' = msgs_pcb s \<and> pcb_brk s' = pcb_brk s"
proof (cases "selected_algorithm s")
  case RR
  show ?thesis
  proof (cases "current_pcb s = NULL")
    case True
    then show ?thesis using RR core by (auto simp: handle_current_running_process_def)
  next
    case False
    obtain pcb where pcb: "get_pcb s (current_pcb s) = Some pcb" "pcb_heap s (current_pcb s) = Some pcb"
      by (rule sched_core_current [OF core False])
    let ?r = "last_remain_time s - quantum s"
    let ?s = "put_pcb s (current_pcb s) (pcb\<lparr>remaining_time := ?r\<rparr>)"
    have "0 < quantum s" using core RR by (simp add: sched_core_def quantum_ok_def)
    then have c: "remaining_time pcb \<le> ?r \<Longrightarrow> sched_core ?s xs"
      using put_pcb_core [OF core RR False pcb(2)] by simp
    have "selected_algorithm ?s = RR" "msgs_pcb ?s = msgs_pcb s" "pcb_brk ?s = pcb_brk s"
      using RR by (simp_all add: put_pcb_def)
    then show ?thesis
      using handle_quantum_expiration_core [OF c] RR False pcb(1) core quantum_limit [OF core False RR]
      by (auto simp: handle_current_running_process_def Let_def)
  qed
next
  case HPF
  then show ?thesis using core schedule_next_core [OF core]
    by (auto simp: handle_current_running_process_def)
next
  case SRTN
  have q: "queue_is SRTN (rdy_queue s) xs" and ent: "entries_ok SRTN (pcb_heap s) xs"
    and ok: "pcbs_ok (pcb_heap s) (pcb_brk s)"
    using core SRTN by (simp_all add: sched_core_def)
  show ?thesis
  proof (cases xs)
    case Nil
    then show ?thesis using queue_is_front [OF q] SRTN core
      by (auto simp: handle_current_running_process_def ptr_of_def)
  next
    case (Cons x ys)
    then obtain np where np: "pcb_heap s (fst x) = Some np" using ent by (auto simp: entries_ok_def)
    then have "get_pcb s (fst x) = Some np" "fst x \<noteq> NULL"
      using pcbs_ok_get(2) [OF ok np] by (simp_all add: get_pcb_def)
    moreover have "current_pcb s \<noteq> NULL \<Longrightarrow> \<exists>pcb. get_pcb s (current_pcb s) = Some pcb"
      using sched_core_current [OF core] by metis
    moreover obtain s' xs' where "handle_quantum_expiration s = Some s'" "sched_core s' xs'"
      "msgs_pcb s' = msgs_pcb s" "pcb_brk s' = pcb_brk s"
      using handle_quantum_expiration_core [OF core] SRTN by auto
    ultimately show ?thesis
      using queue_is_front [OF q] Cons SRTN core
      by (cases "current_pcb s \<noteq> NULL \<and> fst x \<noteq> current_pcb s")
        (auto simp: handle_current_running_process_def ptr_of_def)
  qed
qed

text \<open>
  The ways \<open>handle_current_running_process\<close> ends. In the last one a process is taken off the CPU;
  under round robin its remaining time is first set to what the quantum leaves of it.
\<close>

lemma handle_current_cases:
  assumes core: "sched_core s xs" and run: "handle_current_running_process s = Some s'"
  obtains (same) "s' = s"
  | (schedule) "selected_algorithm s = HPF" "current_pcb s = NULL" "schedule_next_process s = Some s'"
  | (expire) pcb r t where "selected_algorithm s \<noteq> HPF" "current_pcb s \<noteq> NULL"
    "pcb_heap s (current_pcb s) = Some pcb" "remaining_time pcb \<le> r" "r \<le> last_remain_time s"
    "selected_algorithm s = RR \<Longrightarrow> r = last_remain_time s - quantum s"
    "t = put_pcb s (current_pcb s) (pcb\<lparr>remaining_time := r\<rparr>)" "sched_core t xs"
    "handle_quantum_expiration t = Some s'"
proof (cases "selected_algorithm s")
  case RR
  show ?thesis
  proof (cases "current_pcb s = NULL")
    case True
    then show ?thesis using RR run same by (simp add: handle_current_running_process_def)
  next
    case False
    obtain pcb where pcb: "get_pcb s (current_pcb s) = Some pcb" "pcb_heap s (current_pcb s) = Some pcb"
      by (rule sched_core_current [OF core False])
    let ?r = "last_remain_time s - quantum s"
    have q: "0 < quantum s" using core RR by (simp add: sched_core_def quantum_ok_def)
    show ?thesis
    proof (cases "remaining_time pcb \<le> ?r")
      case True
      have "handle_quantum_expiration (put_pcb s (current_pcb s) (pcb\<lparr>remaining_time := ?r\<rparr>)) = Some s'"
        using run RR False pcb(1) quantum_limit [OF core False RR] True
        by (simp add: handle_current_running_process_def Let_def)
      then show ?thesis using True q RR False pcb(2) put_pcb_core [OF core RR False pcb(2) True]
        by (intro expire) auto
    next
      case less: False
      then show ?thesis using run RR False pcb(1) quantum_limit [OF core False RR] same
        by (simp add: handle_current_running_process_def Let_def)
    qed
  qed
next
  case HPF
  then show ?thesis using run same schedule
    by (auto simp: handle_current_running_process_def split: if_splits)
next
  case SRTN
  then consider "s' = s" | "current_pcb s \<noteq> NULL" "handle_quantum_expiration s = Some s'"
    using run by (auto simp: handle_current_running_process_def Let_def bind_eq_Some_conv split: if_splits)
  then show ?thesis
  proof cases
    case 2
    obtain pcb where pcb: "pcb_heap s (current_pcb s) = Some pcb" "remaining_time pcb \<le> last_remain_time s"
      by (rule sched_core_current [OF core 2(1)])
    then have "put_pcb s (current_pcb s) (pcb\<lparr>remaining_time := remaining_time pcb\<rparr>) = s"
      by (simp add: put_pcb_def fun_upd_idem)
    then show ?thesis using 2 pcb SRTN core by (intro expire [of pcb "remaining_time pcb" s]) auto
  qed (rule same)
qed

text \<open>The functions keep the invariant.\<close>

lemma core_inv:
  assumes "\<And>xs. sched_core s xs \<Longrightarrow> \<exists>s' xs'. g s = Some s' \<and> sched_core s' xs' \<and>
      msgs_pcb s' = msgs_pcb s \<and> pcb_brk s' = pcb_brk s" "sched_inv s"
  shows "\<exists>s'. g s = Some s' \<and> sched_inv s'"
  using assms(2) assms(1) unfolding sched_inv_def sched_rep_def by metis

lemma handle_process_tick_inv:
  "sched_inv s \<Longrightarrow> signal_ok s \<Longrightarrow> \<exists>s'. handle_process_tick s = Some s' \<and> sched_inv s'"
  by (rule core_inv) (rule handle_process_tick_core)

lemma handle_process_termination_inv:
  "sched_inv s \<Longrightarrow> signal_ok s \<Longrightarrow> \<exists>s'. handle_process_termination s = Some s' \<and> sched_inv s'"
  by (rule core_inv) (rule handle_process_termination_core)

lemma handle_current_inv:
  "sched_inv s \<Longrightarrow> \<exists>s'. handle_current_running_process s = Some s' \<and> sched_inv s'"
  by (rule core_inv) (rule handle_current_core)

lemma check_no_more_inv: "sched_inv s \<Longrightarrow> sched_inv (check_no_more_processes s)"
  by (auto simp: sched_inv_def sched_rep_def sched_core_def check_no_more_processes_def Let_def split: list.splits)

end
