(* ===== verification/Process_Generator.thy ===== *)
theory Process_Generator
  imports Memory_Manager Scheduler_Invariant
begin

text \<open>
  process_generator.c: the arguments of the program, the loop that lets the processes of the input
  file arrive and wait for memory, the forking of each with its memory block and its message to the
  scheduler, and the handlers that free the memory of a process that has exited and clean up.

  What the kernel answers is a parameter: \<open>fork_result k i\<close> is what the \<open>i\<close>-th \<open>fork\<close> returns in the
  parent and \<open>msgsnd_result k i\<close> what the \<open>i\<close>-th \<open>msgsnd\<close> returns. The children that have not been
  waited for are part of the state, as is the clock. One pass of a loop runs as one step; SIGCHLD,
  SIGINT and the clock come between the steps.
\<close>

section \<open>The arguments\<close>

text \<open>
  \<open>Usage\<close> is an exit with a message; otherwise the algorithm, the input file and the quantum, which
  only round robin sets. \<open>argv\<close> holds \<open>argc\<close> strings.
\<close>

datatype arguments = Usage | Args string string "int option"

definition parse_args :: "string list \<Rightarrow> arguments option" where
  "parse_args argv =
     (let argc = length argv in
      if argc \<noteq> 5 \<and> argc \<noteq> 7 \<or> argv ! 1 \<noteq> ''-s'' then Some Usage
      else
        let algo = argv ! 2 in
        if algo \<noteq> ''rr'' \<and> algo \<noteq> ''hpf'' \<and> algo \<noteq> ''srtn'' then Some Usage
        else if algo = ''rr'' then
          (if argc \<noteq> 7 \<or> argv ! 3 \<noteq> ''-q'' \<or> argv ! 5 \<noteq> ''-f'' then Some Usage
           else do {
             q \<leftarrow> atoi (argv ! 4);
             if q \<le> 0 then Some Usage else Some (Args algo (argv ! 6) (Some q))
           })
        else if argc \<noteq> 5 \<or> argv ! 3 \<noteq> ''-f'' then Some Usage
        else Some (Args algo (argv ! 4) None))"

section \<open>The state\<close>

record kernel =
  fork_result :: "nat \<Rightarrow> int"
  msgsnd_result :: "nat \<Rightarrow> int"

record generator =
  mm :: memory_manager
  process_list :: "Process list"
  waiting_list :: "Process linked_list"
  processed :: "int list"
  idx :: int
  interrupted :: int
  gen_clk :: int
  clk_pid :: int
  sch_pid :: int
  forks :: nat
  sends :: nat
  children :: "int list"
  pcb_sent :: "PCB list"
  str_sent :: "string list"
  killed :: "int list"

text \<open>\<open>main\<close> up to \<open>create_processes\<close>, and the first lines of the latter.\<close>

definition start_generator :: "Process list \<Rightarrow> int \<Rightarrow> int \<Rightarrow> int \<Rightarrow> generator" where
  "start_generator ps c d now =
     \<lparr>mm = init_memory_manager, process_list = ps, waiting_list = create_linked_list,
      processed = replicate (length ps) 0, idx = 0, interrupted = 0, gen_clk = now, clk_pid = c,
      sch_pid = d, forks = 0, sends = 0, children = [c, d], pcb_sent = [], str_sent = [],
      killed = []\<rparr>"

section \<open>Forking a process\<close>

text \<open>The PCB the parent fills in; \<open>state\<close> and \<open>memory_block\<close> are left uninitialised.\<close>

definition new_pcb :: "Process \<Rightarrow> int \<Rightarrow> PCB" where
  "new_pcb proc child =
     \<lparr>pid = child, start_time = - 1, wait_time = 0, remaining_time = runtime proc, state = None,
      memory_block = None, PDATA = proc\<rparr>"

definition fork_and_send :: "kernel \<Rightarrow> Process \<Rightarrow> ptr \<Rightarrow> generator \<Rightarrow> generator option" where
  "fork_and_send k proc allocated_block g = do {
     let child = fork_result k (forks g);
     let g = g\<lparr>forks := Suc (forks g)\<rparr>;
     if child = - 1 then Some g
     else do {
       let g = g\<lparr>children := children g @ [child]\<rparr>;
       (pcb, m) \<leftarrow> assign_memory_block_to_process (gen_clk g) (new_pcb proc child) allocated_block (mm g);
       let r = msgsnd_result k (sends g);
       let g = g\<lparr>mm := m, sends := Suc (sends g)\<rparr>;
       Some (if r = - 1 then g\<lparr>killed := killed g @ [child]\<rparr> else g\<lparr>pcb_sent := pcb_sent g @ [pcb]\<rparr>)
     }
   }"

section \<open>The loop\<close>

definition create_guard :: "generator \<Rightarrow> bool" where
  "create_guard g \<longleftrightarrow>
     (idx g < int (length (process_list g)) \<or> ll_size (waiting_list g) \<noteq> 0) \<and> interrupted g = 0"

text \<open>
  One pass of the inner loop, with the search that gives it its \<open>waited_fit\<close>; \<open>False\<close> is the end of the
  loop.
\<close>

definition send_waiting :: "kernel \<Rightarrow> generator \<Rightarrow> (bool \<times> generator) option" where
  "send_waiting k g = do {
     (waited_fit, l) \<leftarrow> get_oldest_fit (mm g) (waiting_list g);
     let g = g\<lparr>waiting_list := l\<rparr>;
     case waited_fit of
       None \<Rightarrow> Some (False, g)
     | Some proc \<Rightarrow> do {
         fit_memory_block \<leftarrow> get_smallest_block proc (mm g);
         g \<leftarrow> (if fit_memory_block \<noteq> NULL then do {
                 (allocated_block, m) \<leftarrow> allocate_process_memory (memory_size proc) (mm g);
                 fork_and_send k proc fit_memory_block (g\<lparr>mm := m\<rparr>)
               } else Some g);
         Some (True, g)
       }
   }"

text \<open>The second half of the body: the next process of the file, if this is its arrival time.\<close>

definition arrive :: "kernel \<Rightarrow> generator \<Rightarrow> generator option" where
  "arrive k g =
     (let i = nat (idx g) in
      if idx g < int (length (process_list g)) \<and> gen_clk g = arrival_time (process_list g ! i) \<and>
         processed g ! i = 0
      then do {
        let g = g\<lparr>processed := (processed g)[i := 1]\<rparr>;
        let proc = process_list g ! i;
        (allocated_block, m) \<leftarrow> allocate_process_memory (memory_size proc) (mm g);
        let g = g\<lparr>mm := m\<rparr>;
        if allocated_block = NULL then do {
          let (node, l) = create_node proc (waiting_list g);
          l \<leftarrow> add_node_to_back l node;
          Some (g\<lparr>waiting_list := l, idx := wrap32 (idx g + 1)\<rparr>)
        } else do {
          g \<leftarrow> fork_and_send k proc allocated_block g;
          Some (g\<lparr>idx := wrap32 (idx g + 1)\<rparr>)
        }
      } else Some g)"

text \<open>After the loop.\<close>

definition finish_creating :: "generator \<Rightarrow> generator" where
  "finish_creating g =
     (if ll_size (waiting_list g) = 0 then g\<lparr>str_sent := str_sent g @ [''no_more_processes'']\<rparr> else g)"

section \<open>The handlers\<close>

text \<open>The loop of \<open>handle_child_exit\<close> on the pids \<open>waitpid\<close> returns, one by one.\<close>

primrec handle_child_exit :: "int list \<Rightarrow> generator \<Rightarrow> generator option" where
  "handle_child_exit [] g = Some g"
| "handle_child_exit (exited_pid # ps) g = do {
     let g = g\<lparr>children := remove1 exited_pid (children g)\<rparr>;
     g \<leftarrow> (if exited_pid \<noteq> clk_pid g \<and> exited_pid \<noteq> sch_pid g then do {
             (r, m) \<leftarrow> deallocate_process_memory (gen_clk g) exited_pid (mm g);
             Some (g\<lparr>mm := m\<rparr>)
           } else Some g);
     handle_child_exit ps g
   }"

text \<open>
  What \<open>clear_and_exit\<close> leaves behind: the exit code, the heaps of the waiting list and of the blocks,
  the objects of the map that were freed, and the children that \<open>killpg\<close> has interrupted. \<open>ctl\<close> is what
  \<open>msgctl\<close> returns.
\<close>

record cleanup =
  exit_code :: int
  left_nodes :: "Process heap"
  left_blocks :: bheap
  freed_map :: "part list"
  interrupts :: "int list"

definition clear_and_exit :: "int \<Rightarrow> generator \<Rightarrow> cleanup option" where
  "clear_and_exit ctl g = do {
     let g = g\<lparr>interrupted := 1\<rparr>;
     h \<leftarrow> free_linked_list (waiting_list g);
     let hit = children g;
     (b, ps) \<leftarrow> free_memory_manager (mm g);
     Some \<lparr>exit_code = (if ctl = - 1 then 1 else 0), left_nodes = h, left_blocks = b, freed_map = ps,
       interrupts = hit\<rparr>
   }"

section \<open>The process generator as a step relation\<close>

datatype gphase = Outer | Inner | Arrival | Sent

datatype gconfig = Broken | Gen gphase generator

definition goutcome :: "gphase \<Rightarrow> generator option \<Rightarrow> gconfig" where
  "goutcome ph r = (case r of None \<Rightarrow> Broken | Some g \<Rightarrow> Gen ph g)"

inductive gen_step :: "kernel \<Rightarrow> gconfig \<Rightarrow> gconfig \<Rightarrow> bool" for k where
  enter: "create_guard g \<Longrightarrow> gen_step k (Gen Outer g) (Gen Inner g)"
| leave: "\<not> create_guard g \<Longrightarrow> gen_step k (Gen Outer g) (Gen Sent (finish_creating g))"
| waiting: "send_waiting k g = Some (b, g') \<Longrightarrow>
    gen_step k (Gen Inner g) (Gen (if b then Inner else Arrival) g')"
| waiting_broken: "send_waiting k g = None \<Longrightarrow> gen_step k (Gen Inner g) Broken"
| arrival: "gen_step k (Gen Arrival g) (goutcome Outer (arrive k g))"
| child_exit: "distinct ps \<Longrightarrow> set ps \<subseteq> set (children g) \<Longrightarrow>
    gen_step k (Gen ph g) (goutcome ph (handle_child_exit ps g))"
| clock: "gen_clk g < 2147483647 \<Longrightarrow> gen_step k (Gen ph g) (Gen ph (g\<lparr>gen_clk := gen_clk g + 1\<rparr>))"

inductive_cases gen_stepE: "gen_step k (Gen ph g) c"
inductive_simps gen_step_Broken [simp]: "gen_step k Broken c"

inductive gen_reachable :: "kernel \<Rightarrow> gconfig \<Rightarrow> gconfig \<Rightarrow> bool" for k c where
  start: "gen_reachable k c c"
| step: "gen_reachable k c d \<Longrightarrow> gen_step k d e \<Longrightarrow> gen_reachable k c e"

section \<open>The invariant\<close>

text \<open>
  What is relied on of the kernel: a \<open>fork\<close> that succeeds returns the positive id of a new process,
  no id twice, and none of the ids \<open>A\<close> that were given before.
\<close>

definition kernel_ok :: "kernel \<Rightarrow> int set \<Rightarrow> bool" where
  "kernel_ok k A \<longleftrightarrow>
     (\<forall>i. fork_result k i \<noteq> - 1 \<longrightarrow> 0 < fork_result k i \<and> fork_result k i \<notin> A) \<and>
     (\<forall>i j. fork_result k i \<noteq> - 1 \<longrightarrow> fork_result k i = fork_result k j \<longrightarrow> i = j)"

definition no_failure :: "kernel \<Rightarrow> bool" where
  "no_failure k \<longleftrightarrow> (\<forall>i. fork_result k i \<noteq> - 1 \<and> msgsnd_result k i \<noteq> - 1)"

text \<open>The ids the first \<open>n\<close> forks returned.\<close>

definition pids :: "kernel \<Rightarrow> nat \<Rightarrow> int set" where
  "pids k n = {c. c \<noteq> - 1 \<and> (\<exists>i<n. fork_result k i = c)}"

lemma pids_Suc: "pids k (Suc n) = (if fork_result k n = - 1 then pids k n else insert (fork_result k n) (pids k n))"
  by (auto simp: pids_def less_Suc_eq)

lemma pids_fresh: "kernel_ok k A \<Longrightarrow> fork_result k n \<noteq> - 1 \<Longrightarrow> fork_result k n \<notin> A \<union> pids k n"
  unfolding kernel_ok_def pids_def by (auto, metis less_irrefl)

text \<open>
  A PCB that was sent: it is the one of a process of the file, and as long as that process lives, the
  block the PCB names is the one it holds, with the units the file asks for. The map keeps the entry
  for ever.
\<close>

definition sent_ok :: "kernel \<Rightarrow> generator \<Rightarrow> (int \<rightharpoonup> ptr \<times> int) \<Rightarrow> PCB \<Rightarrow> bool" where
  "sent_ok k g own pcb \<longleftrightarrow> PDATA pcb \<in> set (process_list g) \<and>
     pcb\<lparr>memory_block := None\<rparr> = new_pcb (PDATA pcb) (pid pcb) \<and> pid pcb \<in> pids k (forks g) \<and>
     (pid pcb \<in> set (children g) \<longrightarrow>
        own (pid pcb) = map_option (\<lambda>p. (p, memory_size (PDATA pcb))) (memory_block pcb)) \<and>
     (memory_block pcb \<noteq> None \<longrightarrow> pid pcb \<in> dom (lookup (memory_map (mm g))))"

text \<open>
  \<open>ws\<close> are the waiting processes, and \<open>acc\<close> those that have arrived: unless a fork or a message
  failed, each has been sent or waits.
\<close>

definition gen_rep ::
  "kernel \<Rightarrow> generator \<Rightarrow> (ptr \<times> block) list \<Rightarrow> (int \<rightharpoonup> ptr \<times> int) \<Rightarrow> (ptr \<times> int) set \<Rightarrow>
   (ptr \<times> Process) list \<Rightarrow> Process multiset \<Rightarrow> bool" where
  "gen_rep k g xs own lost ws acc \<longleftrightarrow>
     mm_ok (mm g) xs own lost \<and> ll_rep (waiting_list g) ws \<and> snd ` set ws \<subseteq> set (process_list g) \<and>
     distinct (children g) \<and> dom own \<subseteq> set (children g) \<and>
     (\<forall>c \<in> set (children g). own c = None \<longrightarrow> lookup (memory_map (mm g)) c = None) \<and>
     dom (lookup (memory_map (mm g))) \<subseteq> pids k (forks g) \<and>
     set (children g) \<subseteq> {clk_pid g, sch_pid g} \<union> pids k (forks g) \<and>
     (\<forall>pcb \<in> set (pcb_sent g). sent_ok k g own pcb) \<and> distinct (map pid (pcb_sent g)) \<and>
     image_mset snd (mset ws) + image_mset PDATA (mset (pcb_sent g)) \<subseteq># acc \<and>
     (no_failure k \<longrightarrow> acc = image_mset snd (mset ws) + image_mset PDATA (mset (pcb_sent g)))"

text \<open>
  Without failures a block is lost, allocated but held by no process, only if it was not recorded in
  the PCB of its process.
\<close>

definition leak_ok :: "kernel \<Rightarrow> generator \<Rightarrow> (ptr \<times> int) set \<Rightarrow> bool" where
  "leak_ok k g lost \<longleftrightarrow>
     no_failure k \<longrightarrow> (\<forall>pcb \<in> set (pcb_sent g). memory_block pcb \<noteq> None) \<longrightarrow> lost = {}"

lemma leak_ok_frame [simp]:
  "leak_ok k (g\<lparr>processed := x\<rparr>) = leak_ok k g" "leak_ok k (g\<lparr>idx := i\<rparr>) = leak_ok k g"
  "leak_ok k (g\<lparr>gen_clk := t\<rparr>) = leak_ok k g" "leak_ok k (g\<lparr>str_sent := s\<rparr>) = leak_ok k g"
  "leak_ok k (g\<lparr>waiting_list := l\<rparr>) = leak_ok k g" "leak_ok k (g\<lparr>mm := m\<rparr>) = leak_ok k g"
  by (simp_all add: leak_ok_def fun_eq_iff)

text \<open>The place in the file; the processes that are too big for the memory wait once they have arrived.\<close>

definition file_ok :: "generator \<Rightarrow> (ptr \<times> Process) list \<Rightarrow> bool" where
  "file_ok g ws \<longleftrightarrow> 0 \<le> idx g \<and> idx g \<le> int (length (process_list g)) \<and>
     length (process_list g) < 2147483646 \<and> length ws \<le> nat (idx g) \<and>
     processed g = replicate (nat (idx g)) 1 @ replicate (length (process_list g) - nat (idx g)) 0 \<and>
     (\<forall>proc \<in> set (process_list g). 0 < memory_size proc) \<and>
     (\<forall>proc \<in> set (take (nat (idx g)) (process_list g)). 1024 < memory_size proc \<longrightarrow> proc \<in> snd ` set ws)"

definition gen_inv :: "kernel \<Rightarrow> generator \<Rightarrow> bool" where
  "gen_inv k g \<longleftrightarrow> (\<exists>xs own lost ws.
     gen_rep k g xs own lost ws (mset (take (nat (idx g)) (process_list g))) \<and> file_ok g ws \<and>
     leak_ok k g lost)"

lemma gen_inv_start:
  assumes "c \<noteq> d" "length ps < 2147483646" "\<forall>proc \<in> set ps. 0 < memory_size proc"
  shows "gen_inv k (start_generator ps c d now)"
proof -
  have l: "lookup (memory_map init_memory_manager) x = None" for x
    using hm_ok_create(2) [of 100 x] by (simp add: init_memory_manager_def init_memory_def malloc_node_def)
  show ?thesis using assms init_memory_manager_ok ll_rep_create
    unfolding gen_inv_def
    by (intro exI [of _ "[(1, \<lparr>bsize = 1024, bstart = 0, ballocated = 0\<rparr>)]"] exI [of _ Map.empty]
          exI [of _ "{}"] exI [of _ "[]"])
      (auto simp: gen_rep_def file_ok_def leak_ok_def start_generator_def l)
qed

lemma subseteq_add_mset: "X \<subseteq># A \<Longrightarrow> X \<subseteq># add_mset x A"
  using subset_mset.order_trans [of X A "add_mset x A"] by simp

lemma fork_and_send_rep:
  assumes rep: "gen_rep k g xs own (insert (p, n) lost) ws acc" and nw: "(p, n) \<notin> lost" "p \<noteq> NULL"
    and k: "kernel_ok k {clk_pid g, sch_pid g}"
    and proc: "proc \<in> set (process_list g)" "n = memory_size proc"
  shows "\<exists>g' own' lost'. fork_and_send k proc p g = Some g' \<and>
    gen_rep k g' xs own' lost' ws (add_mset proc acc) \<and> process_list g' = process_list g \<and>
    waiting_list g' = waiting_list g \<and> idx g' = idx g \<and> processed g' = processed g \<and>
    clk_pid g' = clk_pid g \<and> sch_pid g' = sch_pid g \<and> interrupted g' = interrupted g \<and>
    gen_clk g' = gen_clk g \<and> (leak_ok k g lost \<longrightarrow> leak_ok k g' lost')"
proof (cases "fork_result k (forks g) = - 1")
  case True
  have "gen_rep k (g\<lparr>forks := Suc (forks g)\<rparr>) xs own (insert (p, n) lost) ws (add_mset proc acc)"
    using rep True by (auto simp: gen_rep_def sent_ok_def pids_Suc no_failure_def intro: subseteq_add_mset)
  moreover have "\<not> no_failure k" using True by (auto simp: no_failure_def)
  ultimately show ?thesis using True by (simp add: fork_and_send_def leak_ok_def) blast
next
  case False
  let ?c = "fork_result k (forks g)" and ?m = "memory_map (mm g)"
  have fresh: "?c \<notin> pids k (forks g)" "?c \<noteq> clk_pid g" "?c \<noteq> sch_pid g"
    using pids_fresh [OF k False] by auto
  then have c: "?c \<notin> set (children g)" "lookup ?m ?c = None"
    using rep by (auto simp: gen_rep_def)
  then have o: "?c \<notin> dom own" using rep by (auto simp: gen_rep_def)
  have ok: "mm_ok (mm g) xs own (insert (p, n) lost)" using rep by (simp add: gen_rep_def)
  obtain b s' lost' where a:
    "assign_memory_block_to_process (gen_clk g) (new_pcb proc ?c) p (mm g) = Some ((new_pcb proc ?c)\<lparr>memory_block := b\<rparr>, s')"
    "mm_ok s' xs (own(?c := map_option (\<lambda>q. (q, n)) b)) lost'"
    "lookup (memory_map s') = (lookup ?m)(?c := map_option (\<lambda>q. \<lparr>pm_memory = q, pm_id = proc_id proc\<rparr>) b)"
    "b \<noteq> None \<longrightarrow> lost' = lost"
    using assign_new [OF ok nw(1), of "new_pcb proc ?c" "gen_clk g"] o c(2) nw(2) by (auto simp: new_pcb_def)
  let ?g = "g\<lparr>forks := Suc (forks g), children := children g @ [?c], mm := s', sends := Suc (sends g)\<rparr>"
  let ?pcb = "(new_pcb proc ?c)\<lparr>memory_block := b\<rparr>" and ?own = "own(?c := map_option (\<lambda>q. (q, n)) b)"
  let ?g' = "if msgsnd_result k (sends g) = - 1 then ?g\<lparr>killed := killed g @ [?c]\<rparr>
    else ?g\<lparr>pcb_sent := pcb_sent g @ [?pcb]\<rparr>"
  have run: "fork_and_send k proc p g = Some ?g'"
    using False a(1) by (simp add: fork_and_send_def Let_def)
  have old: "sent_ok k ?g' ?own pcb" if "pcb \<in> set (pcb_sent g)" for pcb
  proof -
    have "sent_ok k g own pcb" using rep that by (simp add: gen_rep_def)
    moreover from this fresh(1) have "pid pcb \<noteq> ?c" by (auto simp: sent_ok_def)
    ultimately show ?thesis using False a(3) by (auto simp: sent_ok_def pids_Suc)
  qed
  have new: "sent_ok k ?g' ?own ?pcb" using proc False a(3)
    by (auto simp: sent_ok_def new_pcb_def pids_Suc)
  have "?c \<notin> pid ` set (pcb_sent g)" using rep fresh(1) by (auto simp: gen_rep_def sent_ok_def)
  then have "distinct (map pid (pcb_sent ?g'))" using rep by (simp add: gen_rep_def new_pcb_def)
  note new = new this
  have "gen_rep k ?g' xs ?own lost' ws (add_mset proc acc)"
    using rep a(2) c(1) False old new
    unfolding gen_rep_def a(3)
    by (auto simp: a(3) pids_Suc no_failure_def new_pcb_def intro: subseteq_add_mset split: if_splits)
  moreover have "leak_ok k g lost \<longrightarrow> leak_ok k ?g' lost'" using a(4) by (auto simp: leak_ok_def no_failure_def)
  ultimately show ?thesis unfolding run by (intro exI [of _ ?g'] exI [of _ ?own] exI [of _ lost']) simp
qed

section \<open>Every step keeps it\<close>

text \<open>What no step changes, and what an outer pass may.\<close>

definition same_file :: "generator \<Rightarrow> generator \<Rightarrow> bool" where
  "same_file g g' \<longleftrightarrow> process_list g' = process_list g \<and> idx g' = idx g \<and> processed g' = processed g \<and>
     clk_pid g' = clk_pid g \<and> sch_pid g' = sch_pid g \<and> interrupted g' = interrupted g \<and>
     gen_clk g' = gen_clk g"

lemma file_ok_same: "same_file g g' \<Longrightarrow> file_ok g' ws = file_ok g ws"
  by (simp add: same_file_def file_ok_def)

lemma gen_rep_waiting:
  assumes "gen_rep k g xs own lost ws acc" "ll_rep l vs" "snd ` set vs \<subseteq> set (process_list g)"
    "image_mset snd (mset vs) + d = image_mset snd (mset ws)"
  shows "\<exists>acc'. gen_rep k (g\<lparr>waiting_list := l\<rparr>) xs own lost vs acc' \<and> acc' + d \<subseteq># acc \<and>
    (no_failure k \<longrightarrow> acc' + d = acc)"
proof -
  let ?acc = "image_mset snd (mset vs) + image_mset PDATA (mset (pcb_sent g))"
  have "sent_ok k (g\<lparr>waiting_list := l\<rparr>) own pcb = sent_ok k g own pcb" for pcb
    by (simp add: sent_ok_def)
  then have "gen_rep k (g\<lparr>waiting_list := l\<rparr>) xs own lost vs ?acc"
    using assms(1-3) by (simp add: gen_rep_def)
  moreover have e: "?acc + d = image_mset snd (mset ws) + image_mset PDATA (mset (pcb_sent g))"
    unfolding assms(4) [symmetric] by simp
  have "?acc + d \<subseteq># acc" "no_failure k \<longrightarrow> ?acc + d = acc" unfolding e using assms(1) by (simp_all add: gen_rep_def)
  ultimately show ?thesis by blast
qed

lemma gen_rep_mm:
  assumes "gen_rep k g xs own lost ws acc" "mm_ok m ys own lost'" "memory_map m = memory_map (mm g)"
  shows "gen_rep k (g\<lparr>mm := m\<rparr>) ys own lost' ws acc"
proof -
  have "sent_ok k (g\<lparr>mm := m\<rparr>) own pcb = sent_ok k g own pcb" for pcb
    using assms(3) by (simp add: sent_ok_def)
  then show ?thesis using assms by (auto simp: gen_rep_def)
qed

lemma gen_rep_acc: "gen_rep k g xs own lost ws acc \<Longrightarrow> acc \<subseteq># acc' \<Longrightarrow> (no_failure k \<Longrightarrow> acc' = acc) \<Longrightarrow>
  gen_rep k g xs own lost ws acc'"
  by (auto simp: gen_rep_def intro: subset_mset.order_trans)

lemma send_waiting_rep:
  assumes rep: "gen_rep k g xs own lost ws acc" and k: "kernel_ok k {clk_pid g, sch_pid g}"
    and pos: "\<forall>proc \<in> set (process_list g). 0 < memory_size proc"
  shows "\<exists>b g' ys own' lost' vs. send_waiting k g = Some (b, g') \<and> gen_rep k g' ys own' lost' vs acc \<and>
    same_file g g' \<and> (leak_ok k g lost \<longrightarrow> leak_ok k g' lost') \<and>
    (if b then \<exists>w. mset ws = add_mset w (mset vs) \<and> room xs (memory_size (snd w))
     else (\<forall>w \<in> set ws. \<not> room xs (memory_size (snd w))) \<and> g' = g \<and> ys = xs \<and> vs = ws)"
proof -
  define P where "P = (\<lambda>w :: ptr \<times> Process. \<not> room xs (memory_size (snd w)))"
  have ok: "mm_ok (mm g) xs own lost" and l: "ll_rep (waiting_list g) ws"
    and sub: "snd ` set ws \<subseteq> set (process_list g)" using rep by (simp_all add: gen_rep_def)
  obtain r l' where f: "get_oldest_fit (mm g) (waiting_list g) = Some (r, l')"
    "case dropWhile P ws of [] \<Rightarrow> r = None \<and> l' = waiting_list g
     | w # vs \<Rightarrow> r = Some (snd w) \<and> ll_rep l' (takeWhile P ws @ vs)"
    using get_oldest_fit_ok [OF ok l] unfolding P_def by blast
  show ?thesis
  proof (cases "dropWhile P ws")
    case Nil
    then have "\<forall>w \<in> set ws. P w" by simp
    then have n: "\<forall>w \<in> set ws. \<not> room xs (memory_size (snd w))" unfolding P_def .
    have "r = None" "g\<lparr>waiting_list := l'\<rparr> = g" using f(2) unfolding Nil by auto
    then have "send_waiting k g = Some (False, g)" using f(1) by (simp add: send_waiting_def)
    then show ?thesis using rep n
      by (intro exI [of _ False] exI [of _ g] exI [of _ xs] exI [of _ own] exI [of _ lost] exI [of _ ws])
        (simp add: same_file_def)
  next
    case (Cons w us)
    let ?vs = "takeWhile P ws @ us" and ?sz = "memory_size (snd w)"
    have r: "r = Some (snd w)" "ll_rep l' ?vs" using f(2) unfolding Cons by auto
    have ws: "ws = takeWhile P ws @ w # us" using takeWhile_dropWhile_id [of P ws] Cons by simp
    have "\<not> P w" using Cons hd_dropWhile [of P ws] by simp
    then have w: "room xs ?sz" unfolding P_def by simp
    have "mset ws = mset (takeWhile P ws @ w # us)" using ws by simp
    then have m: "mset ws = add_mset w (mset ?vs)" by simp
    then have "set ws = insert w (set ?vs)" by (metis set_mset_mset set_mset_add_mset_insert)
    then have v: "snd ` set ?vs \<subseteq> set (process_list g)" "snd w \<in> set (process_list g)" using sub by auto
    obtain acc1 where rep1: "gen_rep k (g\<lparr>waiting_list := l'\<rparr>) xs own lost ?vs acc1"
      "acc1 + {#snd w#} \<subseteq># acc" "no_failure k \<longrightarrow> acc1 + {#snd w#} = acc"
      using gen_rep_waiting [OF rep r(2) v(1), of "{#snd w#}"] m by auto
    obtain p s' ys where a: "allocate_process_memory ?sz (mm g) = Some (p, s')" "p \<noteq> NULL"
      "mm_ok s' ys own (insert (p, ?sz) lost)" "(p, ?sz) \<notin> lost" "memory_map s' = memory_map (mm g)"
      using allocate_process_memory_ok [OF ok _ w] pos v(2) by blast
    have rep2: "gen_rep k (g\<lparr>waiting_list := l', mm := s'\<rparr>) ys own (insert (p, ?sz) lost) ?vs acc1"
      using gen_rep_mm [OF rep1(1) a(3)] a(5) by simp
    have k2: "kernel_ok k {clk_pid (g\<lparr>waiting_list := l', mm := s'\<rparr>), sch_pid (g\<lparr>waiting_list := l', mm := s'\<rparr>)}"
      using k by simp
    obtain g' own' lost' where g': "fork_and_send k (snd w) p (g\<lparr>waiting_list := l', mm := s'\<rparr>) = Some g'"
      "gen_rep k g' ys own' lost' ?vs (add_mset (snd w) acc1)" "same_file g g'"
      "leak_ok k g lost \<longrightarrow> leak_ok k g' lost'"
      using fork_and_send_rep [OF rep2 a(4,2) k2, of "snd w"] v(2) by (auto simp: same_file_def)
    have "send_waiting k g = Some (True, g')"
      using f(1) r(1) a(1,2) g'(1) allocate_is_smallest [OF a(1)]
      by (simp add: send_waiting_def get_smallest_block_def)
    moreover have "gen_rep k g' ys own' lost' ?vs acc"
      using gen_rep_acc [OF g'(2)] rep1(2,3) by auto
    ultimately show ?thesis using g'(3,4) m w
      by (intro exI [of _ True] exI [of _ g'] exI [of _ ys] exI [of _ own'] exI [of _ lost'] exI [of _ ?vs]) simp
  qed
qed

lemma gen_rep_frame [simp]:
  "gen_rep k (g\<lparr>processed := x\<rparr>) = gen_rep k g" "gen_rep k (g\<lparr>idx := i\<rparr>) = gen_rep k g"
  "gen_rep k (g\<lparr>gen_clk := t\<rparr>) = gen_rep k g" "gen_rep k (g\<lparr>str_sent := s\<rparr>) = gen_rep k g"
  by (simp_all add: gen_rep_def sent_ok_def fun_eq_iff)

lemma processed_step:
  assumes "file_ok g ws" "idx g < int (length (process_list g))"
  shows "(processed g)[nat (idx g) := 1] = replicate (Suc (nat (idx g))) 1 @
    replicate (length (process_list g) - Suc (nat (idx g))) 0"
proof -
  obtain m where m: "length (process_list g) - nat (idx g) = Suc m"
    using assms by (cases "length (process_list g) - nat (idx g)") (auto simp: file_ok_def)
  then have "length (process_list g) - Suc (nat (idx g)) = m" by simp
  moreover have "processed g = replicate (nat (idx g)) 1 @ 0 # replicate m 0"
    using assms(1) m by (simp add: file_ok_def)
  ultimately show ?thesis by (simp add: list_update_append replicate_app_Cons_same)
qed

lemma room_bound:
  assumes "mm_ok m xs own lost" "room xs sz"
  shows "sz \<le> 1024"
proof -
  obtain x where x: "x \<in> set xs" "sz \<le> bsize (snd x)" using assms(2) by (auto simp: fits_def)
  have "memory_inv (mm_heap m) (memory m) xs" using assms(1) by (simp add: mm_ok_def buddy_ok_def)
  from memory_inv_size [OF this x(1)] x(2) show ?thesis by simp
qed

lemma arrive_inv:
  assumes inv: "gen_inv k g" and k: "kernel_ok k {clk_pid g, sch_pid g}"
  shows "\<exists>g'. arrive k g = Some g' \<and> gen_inv k g' \<and> clk_pid g' = clk_pid g \<and> sch_pid g' = sch_pid g \<and>
    process_list g' = process_list g \<and> interrupted g' = interrupted g"
proof -
  obtain xs own lost ws where rep: "gen_rep k g xs own lost ws (mset (take (nat (idx g)) (process_list g)))"
    and fl: "file_ok g ws" and lk: "leak_ok k g lost" using inv by (auto simp: gen_inv_def)
  let ?i = "nat (idx g)" and ?ps = "process_list g"
  let ?due = "idx g < int (length ?ps) \<and> gen_clk g = arrival_time (?ps ! ?i) \<and> processed g ! ?i = 0"
  show ?thesis
  proof (cases ?due)
    case False
    then have "arrive k g = Some g" unfolding arrive_def Let_def by (rule if_not_P)
    then show ?thesis using inv by simp
  next
    case True
    let ?proc = "?ps ! ?i" and ?pr = "(processed g)[?i := 1]"
    let ?sz = "memory_size ?proc"
    have i: "?i < length ?ps" "?proc \<in> set ?ps" using True fl by (auto simp: file_ok_def)
    then have sz: "0 < ?sz" using fl by (simp add: file_ok_def)
    have take: "mset (take (Suc ?i) ?ps) = add_mset ?proc (mset (take ?i ?ps))"
      using i(1) by (simp add: take_Suc_conv_app_nth)
    have w: "wrap32 (idx g + 1) = idx g + 1" "nat (idx g + 1) = Suc ?i"
      using True fl by (auto simp: file_ok_def c_int)
    have ok: "mm_ok (mm g) xs own lost" and l: "ll_rep (waiting_list g) ws" using rep by (simp_all add: gen_rep_def)
    have next_file: "file_ok g' vs" if "process_list g' = ?ps" "idx g' = idx g + 1" "processed g' = ?pr"
      "length vs \<le> Suc (length ws)" "set ws \<subseteq> set vs" "1024 < ?sz \<longrightarrow> ?proc \<in> snd ` set vs" for g' vs
    proof -
      have "snd ` set ws \<subseteq> snd ` set vs" using that(5) by (rule image_mono)
      then have "\<forall>proc \<in> set (take (Suc ?i) ?ps). 1024 < memory_size proc \<longrightarrow> proc \<in> snd ` set vs"
        using fl that(6) i(1) by (auto simp: file_ok_def take_Suc_conv_app_nth simp del: image_iff)
      then show ?thesis using fl i(1) w(2) processed_step [OF fl] True that(1-4) by (simp add: file_ok_def)
    qed
    show ?thesis
    proof (cases "room xs ?sz")
      case room: True
      obtain p s' ys where a: "allocate_process_memory ?sz (mm g) = Some (p, s')" "p \<noteq> NULL"
        "mm_ok s' ys own (insert (p, ?sz) lost)" "(p, ?sz) \<notin> lost" "memory_map s' = memory_map (mm g)"
        using allocate_process_memory_ok [OF ok sz room] by blast
      let ?g = "g\<lparr>processed := ?pr, mm := s'\<rparr>"
      have "gen_rep k (g\<lparr>processed := ?pr\<rparr>) xs own lost ws (mset (take ?i ?ps))" using rep by simp
      from gen_rep_mm [OF this a(3)] a(5)
      have rep2: "gen_rep k ?g ys own (insert (p, ?sz) lost) ws (mset (take ?i ?ps))" by simp
      have k2: "kernel_ok k {clk_pid ?g, sch_pid ?g}" using k by simp
      obtain g' own' lost' where g': "fork_and_send k ?proc p ?g = Some g'"
        "gen_rep k g' ys own' lost' ws (mset (take (Suc ?i) ?ps))" "same_file ?g g'" "leak_ok k g' lost'"
        using fork_and_send_rep [OF rep2 a(4,2) k2, of ?proc] i(2) take lk by (auto simp: same_file_def)
      have "arrive k g = Some (g'\<lparr>idx := idx g + 1\<rparr>)"
        using True a(1,2) g'(1,3) w(1) by (simp add: arrive_def Let_def same_file_def)
      moreover have "gen_inv k (g'\<lparr>idx := idx g + 1\<rparr>)"
        using g'(2-4) w(2) next_file [of "g'\<lparr>idx := idx g + 1\<rparr>" ws] room_bound [OF ok room]
        by (auto simp: gen_inv_def same_file_def)
      ultimately show ?thesis using g'(3) by (simp add: same_file_def)
    next
      case full: False
      obtain p l1 where c: "create_node ?proc (waiting_list g) = (p, l1)" "ll_rep l1 ws" "loose l1 p ?proc"
        "p \<notin> addrs ws" using create_node_rep [OF l] by blast
      have "length ws < 2147483646" using fl by (auto simp: file_ok_def)
      from add_node_to_back_rep [OF c(2-4) this] obtain l2 where
        l2: "add_node_to_back l1 p = Some l2" "ll_rep l2 (ws @ [(p, ?proc)])" by blast
      let ?g = "g\<lparr>processed := ?pr, waiting_list := l2, idx := idx g + 1\<rparr>"
      have "arrive k g = Some ?g"
        using True allocate_process_memory_full [OF ok full] c(1) l2(1) w(1) by (simp add: arrive_def Let_def)
      moreover have "gen_rep k ?g xs own lost (ws @ [(p, ?proc)]) (mset (take (Suc ?i) ?ps))"
        using rep l2(2) i(2) take by (auto simp: gen_rep_def sent_ok_def)
      then have "gen_inv k ?g" using w(2) next_file [of ?g "ws @ [(p, ?proc)]"] lk
        by (auto simp: gen_inv_def)
      ultimately show ?thesis by simp
    qed
  qed
qed

lemma reap_rep:
  assumes rep: "gen_rep k g xs own lost ws acc" and k: "kernel_ok k {clk_pid g, sch_pid g}"
    and c: "c \<in> set (children g)"
  shows "\<exists>g' ys own'. (\<forall>ps. handle_child_exit (c # ps) g = handle_child_exit ps g') \<and>
    gen_rep k g' ys own' lost ws acc \<and> same_file g g' \<and> children g' = remove1 c (children g) \<and>
    pcb_sent g' = pcb_sent g"
proof -
  let ?g = "g\<lparr>children := remove1 c (children g)\<rparr>"
  have ok: "mm_ok (mm g) xs own lost" using rep by (simp add: gen_rep_def)
  have set: "set (remove1 c (children g)) = set (children g) - {c}" using rep by (simp add: gen_rep_def)
  have sent: "sent_ok k (?g\<lparr>mm := m\<rparr>) (own(c := x)) pcb"
    if "sent_ok k g own pcb" "memory_map m = memory_map (mm g)" for m x pcb
    using that set by (auto simp: sent_ok_def)
  have rest: "gen_rep k (?g\<lparr>mm := m\<rparr>) ys (own(c := None)) lost ws acc"
    if "mm_ok m ys (own(c := None)) lost" "memory_map m = memory_map (mm g)" for m ys
    using rep that set sent by (auto simp: gen_rep_def)
  show ?thesis
  proof (cases "own c")
    case None
    then have n: "own(c := None) = own" by auto
    have "lookup (memory_map (mm g)) c = None" using rep c None by (simp add: gen_rep_def)
    from deallocate_unknown [OF ok this] have
      "\<forall>ps. handle_child_exit (c # ps) g = handle_child_exit ps ?g" by (simp add: Let_def)
    moreover have "gen_rep k ?g xs own lost ws acc" using rest [of "mm g" xs] ok n by simp
    ultimately show ?thesis by (intro exI [of _ ?g]) (auto simp: same_file_def)
  next
    case (Some v)
    then obtain p n where o: "own c = Some (p, n)" by (cases v) auto
    have "c \<in> dom (lookup (memory_map (mm g)))" using ok o unfolding mm_ok_def by blast
    then have "c \<in> pids k (forks g)" using rep by (auto simp: gen_rep_def)
    then have ne: "c \<noteq> clk_pid g" "c \<noteq> sch_pid g" using k by (auto simp: kernel_ok_def pids_def)
    obtain m ys where d: "deallocate_process_memory (gen_clk g) c (mm g) = Some (1, m)"
      "mm_ok m ys (own(c := None)) lost" "memory_map m = memory_map (mm g)"
      using deallocate_process_memory_ok [OF ok o] by blast
    have "\<forall>ps. handle_child_exit (c # ps) g = handle_child_exit ps (?g\<lparr>mm := m\<rparr>)"
      using d(1) ne by (simp add: Let_def)
    then show ?thesis using rest [OF d(2,3)]
      by (intro exI [of _ "?g\<lparr>mm := m\<rparr>"]) (auto simp: same_file_def)
  qed
qed

lemma handle_child_exit_rep:
  "gen_rep k g xs own lost ws acc \<Longrightarrow> kernel_ok k {clk_pid g, sch_pid g} \<Longrightarrow> distinct ps \<Longrightarrow>
   set ps \<subseteq> set (children g) \<Longrightarrow>
   \<exists>g' ys own'. handle_child_exit ps g = Some g' \<and> gen_rep k g' ys own' lost ws acc \<and> same_file g g' \<and>
     pcb_sent g' = pcb_sent g"
proof (induct ps arbitrary: g xs own)
  case Nil
  then show ?case by (auto simp: same_file_def)
next
  case (Cons c ps)
  obtain g1 ys own' where g1: "handle_child_exit (c # ps) g = handle_child_exit ps g1"
    "gen_rep k g1 ys own' lost ws acc" "same_file g g1" "children g1 = remove1 c (children g)"
    "pcb_sent g1 = pcb_sent g" using reap_rep [OF Cons.prems(1,2), of c] Cons.prems(4) by auto
  have "kernel_ok k {clk_pid g1, sch_pid g1}" "distinct ps" "set ps \<subseteq> set (children g1)"
    using Cons.prems g1(3,4) by (auto simp: same_file_def gen_rep_def)
  from Cons.hyps [OF g1(2) this] g1(1,3,5) show ?case by (auto simp: same_file_def)
qed

text \<open>What every configuration the generator reaches from its start satisfies.\<close>

definition gen_good :: "kernel \<Rightarrow> Process list \<Rightarrow> int \<Rightarrow> int \<Rightarrow> gconfig \<Rightarrow> bool" where
  "gen_good k ps c d conf \<longleftrightarrow>
     (case conf of
        Broken \<Rightarrow> False
      | Gen ph g \<Rightarrow> gen_inv k g \<and> clk_pid g = c \<and> sch_pid g = d \<and> process_list g = ps \<and> interrupted g = 0)"

lemma gen_good_simps [simp]:
  "\<not> gen_good k ps c d Broken"
  "gen_good k ps c d (Gen ph g) \<longleftrightarrow>
     gen_inv k g \<and> clk_pid g = c \<and> sch_pid g = d \<and> process_list g = ps \<and> interrupted g = 0"
  by (simp_all add: gen_good_def)

lemma gen_inv_repI:
  assumes "gen_rep k g' ys own lost vs (mset (take (nat (idx g)) (process_list g)))" "same_file g g'"
    "file_ok g ws" "mset vs \<subseteq># mset ws" "\<forall>w \<in> set ws. 1024 < memory_size (snd w) \<longrightarrow> w \<in> set vs" "leak_ok k g' lost"
  shows "gen_inv k g'"
proof -
  have "length vs \<le> length ws" using size_mset_mono [OF assms(4)] by simp
  then have "file_ok g' vs" using assms(2,3,5) by (auto simp: file_ok_def same_file_def) blast
  then show ?thesis using assms(1,2,6) by (auto simp: gen_inv_def same_file_def)
qed

lemma send_waiting_inv:
  assumes "gen_inv k g" "kernel_ok k {clk_pid g, sch_pid g}"
  shows "\<exists>b g'. send_waiting k g = Some (b, g') \<and> gen_inv k g' \<and> same_file g g'"
proof -
  obtain xs own lost ws where rep: "gen_rep k g xs own lost ws (mset (take (nat (idx g)) (process_list g)))"
    and fl: "file_ok g ws" and lk: "leak_ok k g lost" using assms(1) by (auto simp: gen_inv_def)
  have ok: "mm_ok (mm g) xs own lost" using rep by (simp add: gen_rep_def)
  have "\<forall>proc \<in> set (process_list g). 0 < memory_size proc" using fl by (simp add: file_ok_def)
  from send_waiting_rep [OF rep assms(2) this] obtain b g' ys own' lost' vs where s:
    "send_waiting k g = Some (b, g')" "same_file g g'"
    "gen_rep k g' ys own' lost' vs (mset (take (nat (idx g)) (process_list g)))"
    "if b then \<exists>w. mset ws = add_mset w (mset vs) \<and> room xs (memory_size (snd w))
     else (\<forall>w \<in> set ws. \<not> room xs (memory_size (snd w))) \<and> g' = g \<and> ys = xs \<and> vs = ws"
    "leak_ok k g lost \<longrightarrow> leak_ok k g' lost'"
    by (elim exE conjE) (rule that; assumption)
  have "mset vs \<subseteq># mset ws \<and> (\<forall>w \<in> set ws. 1024 < memory_size (snd w) \<longrightarrow> w \<in> set vs)"
  proof (cases b)
    case True
    from s(4) [unfolded if_P [OF True]] obtain w where
      w: "mset ws = add_mset w (mset vs)" "room xs (memory_size (snd w))" by (elim exE conjE)
    then have "set ws = insert w (set vs)" by (metis set_mset_mset set_mset_add_mset_insert)
    then show ?thesis using w(1) room_bound [OF ok w(2)] by auto
  qed (use s(4) in simp)
  with gen_inv_repI [OF s(3,2) fl] s(1,2,5) lk show ?thesis by blast
qed

lemma handle_child_exit_inv:
  assumes "gen_inv k g" "kernel_ok k {clk_pid g, sch_pid g}" "distinct es" "set es \<subseteq> set (children g)"
  shows "\<exists>g'. handle_child_exit es g = Some g' \<and> gen_inv k g' \<and> same_file g g'"
proof -
  obtain xs own lost ws where rep: "gen_rep k g xs own lost ws (mset (take (nat (idx g)) (process_list g)))"
    and fl: "file_ok g ws" and lk: "leak_ok k g lost" using assms(1) by (auto simp: gen_inv_def)
  obtain g' ys own' where g': "handle_child_exit es g = Some g'" "same_file g g'" "pcb_sent g' = pcb_sent g"
    "gen_rep k g' ys own' lost ws (mset (take (nat (idx g)) (process_list g)))"
    using handle_child_exit_rep [OF rep assms(2-4)] by blast
  then have "gen_inv k g'" using lk by (intro gen_inv_repI [OF g'(4,2) fl]) (auto simp: leak_ok_def)
  with g' show ?thesis by blast
qed

lemma gen_step_good:
  "gen_step k x y \<Longrightarrow> gen_good k ps c d x \<Longrightarrow> kernel_ok k {c, d} \<Longrightarrow> gen_good k ps c d y"
proof (induct rule: gen_step.induct)
  case (leave g)
  then show ?case by (auto simp: finish_creating_def gen_inv_def file_ok_def)
next
  case (waiting g b g')
  then show ?case using send_waiting_inv [of k g] by (auto simp: same_file_def)
next
  case (waiting_broken g)
  then show ?case using send_waiting_inv [of k g] by auto
next
  case (arrival g)
  then show ?case using arrive_inv [of k g] by (auto simp: goutcome_def)
next
  case (child_exit es g ph)
  then show ?case using handle_child_exit_inv [of k g es] by (auto simp: goutcome_def same_file_def)
next
  case (clock g ph)
  then show ?case by (auto simp: gen_inv_def file_ok_def)
qed auto

lemma gen_reachable_good:
  "gen_reachable k x y \<Longrightarrow> gen_good k ps c d x \<Longrightarrow> kernel_ok k {c, d} \<Longrightarrow> gen_good k ps c d y"
  by (induct rule: gen_reachable.induct) (auto dest: gen_step_good)

lemma gen_start_good:
  "c \<noteq> d \<Longrightarrow> length ps < 2147483646 \<Longrightarrow> \<forall>proc \<in> set ps. 0 < memory_size proc \<Longrightarrow>
   gen_good k ps c d (Gen Outer (start_generator ps c d now))"
  using gen_inv_start by (auto simp: start_generator_def)

end
