(* ===== verification/Generator_Properties.thy ===== *)
theory Generator_Properties
  imports Process_Generator
begin

text \<open>
  What the invariant of the process generator says about its runs: the memory of the processes that
  live, the processes sent, the messages the scheduler gets, and two ways in which the loop does not
  end. A run of two processes that do not fit into the memory together serves as an example.
\<close>

section \<open>Executing the steps\<close>

datatype gevent = Go | Exits "int list" | Tick

fun gen_exec :: "kernel \<Rightarrow> gevent \<Rightarrow> gconfig \<Rightarrow> gconfig option" where
  "gen_exec k e Broken = None"
| "gen_exec k Go (Gen ph g) =
     (case ph of
        Outer \<Rightarrow> Some (if create_guard g then Gen Inner g else Gen Sent (finish_creating g))
      | Inner \<Rightarrow> Some (case send_waiting k g of None \<Rightarrow> Broken
                      | Some (b, g') \<Rightarrow> Gen (if b then Inner else Arrival) g')
      | Arrival \<Rightarrow> Some (goutcome Outer (arrive k g))
      | Sent \<Rightarrow> None)"
| "gen_exec k (Exits ps) (Gen ph g) =
     (if distinct ps \<and> set ps \<subseteq> set (children g) then Some (goutcome ph (handle_child_exit ps g)) else None)"
| "gen_exec k Tick (Gen ph g) =
     (if gen_clk g < 2147483647 then Some (Gen ph (g\<lparr>gen_clk := gen_clk g + 1\<rparr>)) else None)"

primrec gen_exec_all :: "kernel \<Rightarrow> gevent list \<Rightarrow> gconfig \<Rightarrow> gconfig option" where
  "gen_exec_all k [] c = Some c"
| "gen_exec_all k (e # es) c = do { d \<leftarrow> gen_exec k e c; gen_exec_all k es d }"

lemma gen_exec_step: "gen_exec k e c = Some d \<Longrightarrow> gen_step k c d"
  by (induct k e c rule: gen_exec.induct)
    (auto split: gphase.splits if_splits option.splits intro: gen_step.intros)

lemma gen_exec_all_reachable: "gen_exec_all k es c = Some d \<Longrightarrow> gen_reachable k b c \<Longrightarrow> gen_reachable k b d"
  by (induct es arbitrary: c) (auto simp: bind_eq_Some_conv dest: gen_exec_step intro: gen_reachable.step)

section \<open>A concrete run\<close>

text \<open>Two processes that arrive at time 1 and ask for 600 units each: the second waits for the first.\<close>

definition demo_kernel :: kernel where
  "demo_kernel = \<lparr>fork_result = (\<lambda>i. 1000 + int i), msgsnd_result = (\<lambda>i. 0)\<rparr>"

definition demo_file :: "Process list" where
  "demo_file =
     [\<lparr>proc_id = 1, arrival_time = 1, runtime = 3, proc_priority = 0, memory_size = 600\<rparr>,
      \<lparr>proc_id = 2, arrival_time = 1, runtime = 2, proc_priority = 1, memory_size = 600\<rparr>]"

abbreviation (input) demo_gen :: gconfig where
  "demo_gen \<equiv> Gen Outer (start_generator demo_file 500 501 0)"

definition gen_events :: "gevent list" where
  "gen_events = [Tick, Go, Go, Go, Go, Go, Go, Go, Go, Exits [1000], Go, Go, Go, Go, Go, Go,
     Exits [1001]]"

definition gen_at :: "nat \<Rightarrow> gconfig" where
  "gen_at n = (case gen_exec_all demo_kernel (take n gen_events) demo_gen of None \<Rightarrow> Broken | Some c \<Rightarrow> c)"

definition gen_state :: "nat \<Rightarrow> generator" where
  "gen_state n = (case gen_at n of Gen ph g \<Rightarrow> g | Broken \<Rightarrow> start_generator demo_file 500 501 0)"

primrec gphase_of :: "gconfig \<Rightarrow> gphase option" where
  "gphase_of Broken = None"
| "gphase_of (Gen ph g) = Some ph"

lemma gen_demo_reachable:
  "gphase_of (gen_at n) = Some ph \<Longrightarrow> gen_reachable demo_kernel demo_gen (Gen ph (gen_state n))"
  by (auto simp: gen_state_def gen_at_def split: option.splits gconfig.splits
      intro: gen_exec_all_reachable gen_reachable.start)

lemma gen_demo_phases: "gphase_of (gen_at 16) = Some Sent" "gphase_of (gen_at 9) = Some Arrival"
  by code_simp+

lemma gen_demo_values:
  "map (\<lambda>pcb. (pid pcb, proc_id (PDATA pcb))) (pcb_sent (gen_state 9)) = [(1000, 1)]"
  "map (\<lambda>pcb. (pid pcb, proc_id (PDATA pcb), memory_block pcb)) (pcb_sent (gen_state 16)) = [(1000, 1, Some 1), (1001, 2, Some 1)]"
  "str_sent (gen_state 16) = [''no_more_processes'']"
  by code_simp+

section \<open>Lemmas on reachable states\<close>

text \<open>What is asked of the input file and the kernel.\<close>

definition run_ok :: "kernel \<Rightarrow> Process list \<Rightarrow> int \<Rightarrow> int \<Rightarrow> bool" where
  "run_ok k ps c d \<longleftrightarrow> c \<noteq> d \<and> kernel_ok k {c, d} \<and> length ps < 2147483646 \<and>
     (\<forall>proc \<in> set ps. 0 < memory_size proc)"

abbreviation gen_starts :: "Process list \<Rightarrow> int \<Rightarrow> int \<Rightarrow> int \<Rightarrow> gconfig" where
  "gen_starts ps c d now \<equiv> Gen Outer (start_generator ps c d now)"

lemma demo_run_ok: "run_ok demo_kernel demo_file 500 501"
  by (auto simp: run_ok_def kernel_ok_def demo_kernel_def demo_file_def)

lemma run_good:
  assumes "run_ok k ps c d" "gen_reachable k (gen_starts ps c d now) conf"
  shows "gen_good k ps c d conf"
  using gen_reachable_good [OF assms(2)] gen_start_good assms(1) by (auto simp: run_ok_def)

lemma run_rep:
  assumes "run_ok k ps c d" "gen_reachable k (gen_starts ps c d now) (Gen ph g)"
  shows "\<exists>xs own lost ws. gen_rep k g xs own lost ws (mset (take (nat (idx g)) ps)) \<and> file_ok g ws \<and>
    process_list g = ps \<and> interrupted g = 0 \<and> clk_pid g = c \<and> sch_pid g = d \<and> leak_ok k g lost"
  using run_good [OF assms] by (auto simp: gen_inv_def)

lemma sent_owned:
  assumes "gen_rep k g xs own lost ws acc" "pcb \<in> set (pcb_sent g)" "pid pcb \<in> set (children g)"
    "memory_block pcb = Some p"
  shows "own (pid pcb) = Some (p, memory_size (PDATA pcb)) \<and> (p, memory_size (PDATA pcb)) \<in> grants xs"
proof -
  have "sent_ok k g own pcb" "mm_ok (mm g) xs own lost" using assms(1,2) by (simp_all add: gen_rep_def)
  then have o: "own (pid pcb) = Some (p, memory_size (PDATA pcb))" and "grants xs = ran own \<union> lost"
    using assms(3,4) by (simp_all add: sent_ok_def mm_ok_def)
  then have "(p, memory_size (PDATA pcb)) \<in> ran own" by (intro ranI)
  with o \<open>grants xs = _\<close> show ?thesis by simp
qed

lemma pids_pos: "kernel_ok k A \<Longrightarrow> c \<in> pids k n \<Longrightarrow> 0 < c"
  by (auto simp: kernel_ok_def pids_def)

lemma pids_new: "kernel_ok k A \<Longrightarrow> c \<in> pids k n \<Longrightarrow> c \<notin> A"
  unfolding kernel_ok_def pids_def by blast

section \<open>Properties\<close>

text \<open>
  C15: whatever processes arrive, wait, are forked and exit, in whatever order, no undefined operation
  is reached (a NULL or freed block, node or list is never used), the memory stays well formed, and
  every process sent to the scheduler that still lives owns, under the block its PCB names, an
  allocated block of exactly the units it asked for, which no other living process owns.
\<close>

theorem generator_memory_safe:
  assumes "run_ok k ps c d" "gen_reachable k (gen_starts ps c d now) conf"
  shows "\<exists>ph g xs. conf = Gen ph g \<and> buddy_ok (mm_heap (mm g)) (memory (mm g)) xs \<and>
    (\<forall>a \<in> set (pcb_sent g). \<forall>p. pid a \<in> set (children g) \<longrightarrow> memory_block a = Some p \<longrightarrow>
       (\<exists>blk. (p, blk) \<in> set xs \<and> ballocated blk = memory_size (PDATA a)) \<and>
       (\<forall>b \<in> set (pcb_sent g). pid b \<in> set (children g) \<longrightarrow> memory_block b = Some p \<longrightarrow> b = a))"
proof -
  have "gen_good k ps c d conf" by (rule run_good [OF assms])
  then obtain ph g where g: "conf = Gen ph g" by (cases conf) auto
  obtain xs own lost ws where rep: "gen_rep k g xs own lost ws (mset (take (nat (idx g)) ps))"
    using run_rep [OF assms(1) assms(2) [unfolded g]] by blast
  have ok: "mm_ok (mm g) xs own lost" and d: "distinct (map pid (pcb_sent g))"
    using rep by (simp_all add: gen_rep_def)
  then have buddy: "buddy_ok (mm_heap (mm g)) (memory (mm g)) xs" by (simp add: mm_ok_def)
  have one: "b = a" if a: "a \<in> set (pcb_sent g)" "pid a \<in> set (children g)" "memory_block a = Some p"
    and b: "b \<in> set (pcb_sent g)" "pid b \<in> set (children g)" "memory_block b = Some p" for a b p
  proof -
    from sent_owned [OF rep a] sent_owned [OF rep b] have
      o: "own (pid a) = Some (p, memory_size (PDATA a))" "own (pid b) = Some (p, memory_size (PDATA b))"
      and gr: "(p, memory_size (PDATA a)) \<in> grants xs" "(p, memory_size (PDATA b)) \<in> grants xs" by auto
    have "distinct (map fst xs)" using blocks_distinct buddy_ok_blocks [OF buddy] by blast
    moreover obtain ba bb where "(p, ba) \<in> set xs" "ballocated ba = memory_size (PDATA a)"
      "(p, bb) \<in> set xs" "ballocated bb = memory_size (PDATA b)" using gr by (auto simp: grants_def taken_def)
    ultimately have "memory_size (PDATA a) = memory_size (PDATA b)"
      using eq_key_imp_eq_value [of xs p ba bb] by simp
    then have "own (pid a) = own (pid b)" using o by simp
    moreover have "inj_on own (dom own)" using ok by (simp add: mm_ok_def)
    moreover have "pid a \<in> dom own" "pid b \<in> dom own" using o by (simp_all add: domI)
    ultimately have "pid a = pid b" using inj_onD [of own "dom own" "pid a" "pid b"] by simp
    moreover have "inj_on pid (set (pcb_sent g))" using d by (simp add: distinct_map)
    ultimately show "b = a" using inj_onD [of pid "set (pcb_sent g)" b a] a(1) b(1) by simp
  qed
  have blk: "\<exists>blk. (p, blk) \<in> set xs \<and> ballocated blk = memory_size (PDATA a)"
    if "a \<in> set (pcb_sent g)" "pid a \<in> set (children g)" "memory_block a = Some p" for a p
    using sent_owned [OF rep that] by (auto simp: grants_def taken_def)
  show ?thesis using g buddy blk one by (intro exI [of _ ph] exI [of _ g] exI [of _ xs]) blast
qed

theorem generator_memory_safe_witness:
  "\<exists>ph g xs. gen_at 16 = Gen ph g \<and> buddy_ok (mm_heap (mm g)) (memory (mm g)) xs"
proof -
  have "gen_at 16 = Gen Sent (gen_state 16)"
    using gen_demo_phases(1) by (cases "gen_at 16") (auto simp: gen_state_def)
  with generator_memory_safe [OF demo_run_ok gen_demo_reachable [OF gen_demo_phases(1)]] show ?thesis by fastforce
qed

text \<open>What \<open>clear_and_exit\<close> does to the parts of a reachable state.\<close>

lemma clear_parts:
  assumes "gen_rep k g xs own lost ws acc"
  shows "\<exists>fs. clear_and_exit ctl g = Some \<lparr>exit_code = (if ctl = - 1 then 1 else 0),
      left_nodes = (ll_heap (waiting_list g))\<lparr>mem := mem (ll_heap (waiting_list g)) |` (- addrs ws)\<rparr>,
      left_blocks = (mm_heap (mm g))\<lparr>mem := mem (mm_heap (mm g)) |` (- addrs xs)\<rparr>,
      freed_map = fs, interrupts = children g\<rparr> \<and>
    free_memory_manager (mm g) = Some ((mm_heap (mm g))\<lparr>mem := mem (mm_heap (mm g)) |` (- addrs xs)\<rparr>, fs) \<and>
    distinct fs \<and> set fs = {Whole, Array} \<union>
      Slot ` {i. i < length (buckets (memory_map (mm g))) \<and> buckets (memory_map (mm g)) ! i \<noteq> None}"
proof -
  have ll: "ll_rep (waiting_list g) ws" and b: "buddy_ok (mm_heap (mm g)) (memory (mm g)) xs"
    and hm: "hm_wf (memory_map (mm g))" using assms by (simp_all add: gen_rep_def mm_ok_def hm_ok_def)
  obtain fs where fs: "hashmap_free (memory_map (mm g)) = Some fs" "distinct fs" "set fs = {Whole, Array} \<union>
      Slot ` {i. i < length (buckets (memory_map (mm g))) \<and> buckets (memory_map (mm g)) ! i \<noteq> None}"
    using hashmap_free_frees [OF hm] by blast
  have "destroy_memory (mm_heap (mm g)) (memory (mm g)) =
      Some ((mm_heap (mm g))\<lparr>mem := mem (mm_heap (mm g)) |` (- addrs xs)\<rparr>)"
    using destroy_memory_blocks [OF buddy_ok_blocks [OF b]] .
  then have "free_memory_manager (mm g) = Some ((mm_heap (mm g))\<lparr>mem := mem (mm_heap (mm g)) |` (- addrs xs)\<rparr>, fs)"
    using fs(1) by (simp add: free_memory_manager_def)
  then show ?thesis using free_linked_list_rep [OF ll] fs(2,3) by (simp add: clear_and_exit_def)
qed

text \<open>
  C23: a SIGINT at any moment between the steps finds a state that \<open>clear_and_exit\<close> can release: no node
  or block is freed twice or used after it was freed, and afterwards no node of the waiting list, no
  block and no node of the map is left. Every child that has not been waited for is interrupted, and
  the exit code says whether the message queue could be removed.
\<close>

theorem interrupt_frees:
  assumes "run_ok k ps c d" "gen_reachable k (gen_starts ps c d now) (Gen ph g)"
  shows "\<exists>r ws xs. clear_and_exit ctl g = Some r \<and>
    ll_rep (waiting_list g) ws \<and> mem (left_nodes r) = mem (ll_heap (waiting_list g)) |` (- addrs ws) \<and>
    buddy_ok (mm_heap (mm g)) (memory (mm g)) xs \<and> mem (left_blocks r) = mem (mm_heap (mm g)) |` (- addrs xs) \<and>
    distinct (freed_map r) \<and> set (freed_map r) = {Whole, Array} \<union>
      Slot ` {i. i < length (buckets (memory_map (mm g))) \<and> buckets (memory_map (mm g)) ! i \<noteq> None} \<and>
    interrupts r = children g \<and> exit_code r = (if ctl = - 1 then 1 else 0)"
proof -
  obtain xs own lost ws where rep: "gen_rep k g xs own lost ws (mset (take (nat (idx g)) ps))"
    using run_rep [OF assms] by blast
  then have "ll_rep (waiting_list g) ws" "buddy_ok (mm_heap (mm g)) (memory (mm g)) xs"
    by (simp_all add: gen_rep_def mm_ok_def)
  with clear_parts [OF rep, of ctl] show ?thesis by fastforce
qed

theorem interrupt_frees_witness:
  "\<exists>r. clear_and_exit 0 (gen_state 12) = Some r \<and> distinct (freed_map r) \<and> exit_code r = 0"
proof -
  have "gphase_of (gen_at 12) = Some Inner" by code_simp
  from interrupt_frees [OF demo_run_ok gen_demo_reachable [OF this], of 0] show ?thesis by fastforce
qed

text \<open>
  C24: the SIGINT handler is not safe against a SIGCHLD in the middle: it interrupts the children before
  it frees the memory manager, and when the exit of a process that holds a block is handled after
  that, \<open>handle_child_exit\<close> reads a block that has been freed.
\<close>

theorem interrupt_use_after_free:
  assumes "run_ok k ps c d" "gen_reachable k (gen_starts ps c d now) (Gen ph g)"
    "pcb \<in> set (pcb_sent g)" "memory_block pcb = Some p" "pid pcb \<in> set (children g)"
  shows "\<exists>h fs. free_memory_manager (mm g) = Some (h, fs) \<and>
    handle_child_exit [pid pcb] (g\<lparr>mm := (mm g)\<lparr>mm_heap := h\<rparr>\<rparr>) = None"
proof -
  obtain xs own lost ws where rep: "gen_rep k g xs own lost ws (mset (take (nat (idx g)) ps))"
    and f: "clk_pid g = c" "sch_pid g = d" using run_rep [OF assms(1,2)] by blast
  have ok: "mm_ok (mm g) xs own lost" using rep by (simp add: gen_rep_def)
  let ?h = "(mm_heap (mm g))\<lparr>mem := mem (mm_heap (mm g)) |` (- addrs xs)\<rparr>"
  obtain fs where fs: "free_memory_manager (mm g) = Some (?h, fs)" using clear_parts [OF rep] by blast
  have o: "own (pid pcb) = Some (p, memory_size (PDATA pcb))" "(p, memory_size (PDATA pcb)) \<in> grants xs"
    using sent_owned [OF rep assms(3,5,4)] by auto
  have pid: "pid pcb \<in> pids k (forks g)" using rep assms(3) by (auto simp: gen_rep_def sent_ok_def)
  then have ncd: "pid pcb \<noteq> c" "pid pcb \<noteq> d" using pids_new [of k "{c, d}"] assms(1) by (auto simp: run_ok_def)
  have p: "p \<in> addrs xs" "p \<noteq> NULL" using grants_addrs [OF o(2)] buddy.granted_NULL [OF _ o(2)] ok
    by (auto simp: mm_ok_def)
  obtain i where l: "lookup (memory_map (mm g)) (pid pcb) = Some \<lparr>pm_memory = p, pm_id = i\<rparr>"
    using ok o(1) unfolding mm_ok_def by blast
  have hm: "hm_ok (memory_map (mm g))" using ok by (simp add: mm_ok_def)
  have "deallocate_process_memory t (pid pcb) ((mm g)\<lparr>mm_heap := ?h\<rparr>) = None" for t
    using hm.get_look [OF hm, of "pid pcb"] l p
    by (simp add: deallocate_process_memory_def log_memory_event_def get_node_def)
  then show ?thesis using fs f ncd by simp
qed

theorem interrupt_use_after_free_witness:
  "\<exists>h fs. free_memory_manager (mm (gen_state 9)) = Some (h, fs) \<and>
     handle_child_exit [1000] ((gen_state 9)\<lparr>mm := (mm (gen_state 9))\<lparr>mm_heap := h\<rparr>\<rparr>) = None"
proof -
  have v: "gphase_of (gen_at 9) = Some Arrival" "map (\<lambda>m. (pid m, memory_block m)) (pcb_sent (gen_state 9)) = [(1000, Some 1)]"
    "1000 \<in> set (children (gen_state 9))" by code_simp+
  then obtain pcb where "pcb \<in> set (pcb_sent (gen_state 9))" "pid pcb = 1000" "memory_block pcb = Some 1"
    by (cases "pcb_sent (gen_state 9)") auto
  with interrupt_use_after_free [OF demo_run_ok gen_demo_reachable [OF v(1)], of pcb 1] v(3) show ?thesis by simp
qed

lemma fork_and_send_frame:
  "fork_and_send k proc p g = Some g' \<Longrightarrow> str_sent g' = str_sent g"
  by (cases "fork_result k (forks g) = - 1") (auto simp: fork_and_send_def Let_def bind_eq_Some_conv)

lemma send_waiting_frame: "send_waiting k g = Some (b, g') \<Longrightarrow> str_sent g' = str_sent g"
  by (auto simp: send_waiting_def Let_def bind_eq_Some_conv split: if_splits option.splits dest!: fork_and_send_frame)

text \<open>What a turn of the generator sends is appended.\<close>

lemma sent_grows:
  "fork_and_send k proc p g = Some g' \<Longrightarrow> \<exists>new. pcb_sent g' = pcb_sent g @ new"
  "send_waiting k g = Some (b, g') \<Longrightarrow> \<exists>new. pcb_sent g' = pcb_sent g @ new"
  "arrive k g = Some g' \<Longrightarrow> \<exists>new. pcb_sent g' = pcb_sent g @ new"
proof -
  have f: "\<exists>new. pcb_sent v = pcb_sent u @ new" if "fork_and_send k proc p u = Some v" for proc p u v
    using that by (cases "fork_result k (forks u) = - 1") (auto simp: fork_and_send_def Let_def bind_eq_Some_conv)
  show "fork_and_send k proc p g = Some g' \<Longrightarrow> \<exists>new. pcb_sent g' = pcb_sent g @ new" by (rule f)
  show "send_waiting k g = Some (b, g') \<Longrightarrow> \<exists>new. pcb_sent g' = pcb_sent g @ new"
    by (auto simp: send_waiting_def Let_def bind_eq_Some_conv split: if_splits option.splits dest!: f)
  show "arrive k g = Some g' \<Longrightarrow> \<exists>new. pcb_sent g' = pcb_sent g @ new"
    by (auto simp: arrive_def Let_def bind_eq_Some_conv split: if_splits prod.splits dest!: f)
qed

lemma arrive_frame: "arrive k g = Some g' \<Longrightarrow> str_sent g' = str_sent g"
  by (auto simp: arrive_def Let_def bind_eq_Some_conv split: if_splits prod.splits dest!: fork_and_send_frame)

lemma handle_child_exit_frame:
  "handle_child_exit es g = Some g' \<Longrightarrow> str_sent g' = str_sent g \<and> waiting_list g' = waiting_list g \<and>
     idx g' = idx g \<and> process_list g' = process_list g \<and> gen_clk g' = gen_clk g \<and>
     interrupted g' = interrupted g \<and> pcb_sent g' = pcb_sent g"
  by (induct es arbitrary: g) (fastforce simp: Let_def bind_eq_Some_conv split: if_splits)+

text \<open>The string message is sent at the end of the loop, once.\<close>

definition at_end :: "gconfig \<Rightarrow> bool" where
  "at_end conf \<longleftrightarrow>
     (case conf of
        Broken \<Rightarrow> False
      | Gen ph g \<Rightarrow>
          if ph = Sent then idx g \<ge> int (length (process_list g)) \<and> ll_size (waiting_list g) = 0 \<and>
            str_sent g = [''no_more_processes'']
          else str_sent g = [])"

lemma gen_step_end:
  assumes "gen_step k x y" "gen_good k ps c d y" "at_end x" "gen_good k ps c d x"
  shows "at_end y"
  using assms
proof (induct rule: gen_step.induct)
  case (leave g)
  then show ?case by (auto simp: at_end_def create_guard_def finish_creating_def)
next
  case (waiting g b g')
  then show ?case by (auto simp: at_end_def dest!: send_waiting_frame)
next
  case (arrival g)
  then obtain g' where g': "arrive k g = Some g'" by (cases "arrive k g") (simp_all add: goutcome_def)
  with arrival arrive_frame [OF g'] show ?case by (simp add: at_end_def goutcome_def)
next
  case (child_exit es g ph)
  then obtain g' where g': "handle_child_exit es g = Some g'"
    by (cases "handle_child_exit es g") (simp_all add: goutcome_def)
  with child_exit handle_child_exit_frame [OF g'] show ?case
    by (cases "ph = Sent") (simp_all add: at_end_def goutcome_def)
qed (auto simp: at_end_def)

lemma run_end:
  assumes "run_ok k ps c d"
  shows "gen_reachable k x y \<Longrightarrow> x = gen_starts ps c d now \<Longrightarrow> at_end y \<and> gen_good k ps c d y"
proof (induct rule: gen_reachable.induct)
  case start
  then show ?case using run_good [OF assms gen_reachable.start]
    by (simp add: at_end_def start_generator_def)
next
  case (step y z)
  have "gen_reachable k (gen_starts ps c d now) z"
    using gen_reachable.step [OF step.hyps(1,3)] step.prems by simp
  then have "gen_good k ps c d z" by (rule run_good [OF assms])
  then show ?case using gen_step_end [OF step.hyps(3)] step by blast
qed

text \<open>What has been sent at the end.\<close>

lemma all_sent:
  assumes "run_ok k ps c d" "gen_reachable k (gen_starts ps c d now) (Gen Sent g)" "no_failure k"
  shows "mset (map PDATA (pcb_sent g)) = mset ps" "distinct (map pid (pcb_sent g))"
    "str_sent g = [''no_more_processes'']"
proof -
  have e: "idx g \<ge> int (length (process_list g))" "ll_size (waiting_list g) = 0"
    "str_sent g = [''no_more_processes'']" using run_end [OF assms(1,2) refl] by (auto simp: at_end_def)
  obtain xs own lost ws where rep: "gen_rep k g xs own lost ws (mset (take (nat (idx g)) ps))"
    and ps: "process_list g = ps" using run_rep [OF assms(1,2)] by blast
  have "ws = []" using rep e(2) by (auto simp: gen_rep_def ll_rep_def)
  moreover have "take (nat (idx g)) ps = ps" using e(1) ps by simp
  ultimately have "mset ps = image_mset PDATA (mset (pcb_sent g))" "distinct (map pid (pcb_sent g))"
    using rep assms(3) by (auto simp: gen_rep_def)
  with e(3) show "mset (map PDATA (pcb_sent g)) = mset ps" "distinct (map pid (pcb_sent g))"
    "str_sent g = [''no_more_processes'']" by simp_all
qed

text \<open>
  C17: if no fork and no message fails, then when \<open>create_processes\<close> ends every process of the input file
  has been sent to the scheduler exactly once, followed by a single "no_more_processes".
\<close>

theorem generator_sends_all:
  assumes "run_ok k ps c d" "gen_reachable k (gen_starts ps c d now) (Gen Sent g)" "no_failure k"
  shows "mset (map PDATA (pcb_sent g)) = mset ps \<and> distinct (map pid (pcb_sent g)) \<and>
    str_sent g = [''no_more_processes'']"
  using all_sent [OF assms] by blast

theorem generator_sends_all_witness:
  "mset (map PDATA (pcb_sent (gen_state 16))) = mset demo_file"
  using generator_sends_all [OF demo_run_ok gen_demo_reachable [OF gen_demo_phases(1)]]
  by (simp add: no_failure_def demo_kernel_def)

text \<open>The PCBs sent, for the scheduler: no more than the file has, with different ids, and valid.\<close>

lemma sent_bound: "gen_good k ps c d (Gen ph g) \<Longrightarrow> length (pcb_sent g) \<le> length ps"
proof -
  assume "gen_good k ps c d (Gen ph g)"
  then obtain xs own lost ws where "gen_rep k g xs own lost ws (mset (take (nat (idx g)) ps))"
    by (auto simp: gen_inv_def)
  then have "image_mset snd (mset ws) + image_mset PDATA (mset (pcb_sent g)) \<subseteq># mset (take (nat (idx g)) ps)"
    by (simp add: gen_rep_def)
  from size_mset_mono [OF this] show ?thesis by simp
qed

lemma sent_distinct: "gen_good k ps c d (Gen ph g) \<Longrightarrow> distinct (map pid (pcb_sent g))"
  by (auto simp: gen_inv_def gen_rep_def)

definition file_fine :: "Process list \<Rightarrow> bool" where
  "file_fine ps \<longleftrightarrow> Suc (length ps) < queue_limit \<and>
     (\<forall>proc \<in> set ps. process_in_int proc \<and> 0 < proc_id proc \<and> 0 < runtime proc \<and> prio_ok (runtime proc) \<and> prio_ok (proc_priority proc))"

lemma sent_accepted:
  assumes "gen_good k ps c d (Gen ph g)" "kernel_ok k {c, d}" "file_fine ps" "m \<in> set (pcb_sent g)"
  shows "valid_pcb m \<and> msg_ok m"
proof -
  obtain xs own lost ws acc where "gen_rep k g xs own lost ws acc" and ps: "process_list g = ps"
    using assms(1) by (auto simp: gen_inv_def)
  then have "sent_ok k g own m" using assms(4) by (simp add: gen_rep_def)
  then have m: "PDATA m \<in> set ps" "m\<lparr>memory_block := None\<rparr> = new_pcb (PDATA m) (pid m)"
    "pid m \<in> pids k (forks g)" using ps by (simp_all add: sent_ok_def)
  have "start_time m = - 1" "wait_time m = 0" "remaining_time m = runtime (PDATA m)" "state m = None"
    using arg_cong [OF m(2), of start_time] arg_cong [OF m(2), of wait_time]
      arg_cong [OF m(2), of remaining_time] arg_cong [OF m(2), of state] by (simp_all add: new_pcb_def)
  moreover have "0 < pid m" using pids_pos [OF assms(2)] m(3) by blast
  ultimately show ?thesis using assms(3) m(1) by (auto simp: valid_pcb_def msg_ok_def file_fine_def pcb_typed_def process_in_int_def in_int_def)
qed

text \<open>
  Every PCB the generator sends is one the scheduler accepts and its invariants rely on: valid
  ids, the state of a process that has not started and the full run time left, provided that the
  input file has positive ids and run times in range.
\<close>

theorem messages_accepted:
  assumes "run_ok k ps c d" "gen_reachable k (gen_starts ps c d now) (Gen ph g)" "file_fine ps"
    "m \<in> set (pcb_sent g)"
  shows "valid_pcb m \<and> msg_ok m"
  using sent_accepted [OF run_good [OF assms(1,2)] _ assms(3,4)] assms(1) by (simp add: run_ok_def)

theorem messages_accepted_witness:
  "\<exists>m. m \<in> set (pcb_sent (gen_state 16)) \<and> valid_pcb m \<and> msg_ok m"
proof -
  have "pcb_sent (gen_state 16) \<noteq> []" using gen_demo_values(2) by auto
  then have m: "hd (pcb_sent (gen_state 16)) \<in> set (pcb_sent (gen_state 16))" by (rule hd_in_set)
  have "file_fine demo_file" by (simp add: file_fine_def demo_file_def prio_ok_def process_in_int_def in_int_def)
  from messages_accepted [OF demo_run_ok gen_demo_reachable [OF gen_demo_phases(1)] this m] m
  show ?thesis by blast
qed

text \<open>The inner loop of \<open>create_processes\<close> as a whole, with no signal or tick in between.\<close>

partial_function (option) serve_waiting :: "kernel \<Rightarrow> generator \<Rightarrow> generator option" where
  "serve_waiting k g = do { (b, g) \<leftarrow> send_waiting k g; if b then serve_waiting k g else Some g }"

declare serve_waiting.simps [code]

lemma serve_waiting_rep:
  "gen_rep k g xs own lost ws acc \<Longrightarrow> kernel_ok k {clk_pid g, sch_pid g} \<Longrightarrow>
   \<forall>proc \<in> set (process_list g). 0 < memory_size proc \<Longrightarrow>
   \<exists>g' ys own' lost' vs. serve_waiting k g = Some g' \<and> gen_rep k g' ys own' lost' vs acc \<and>
     same_file g g' \<and> (\<forall>w \<in> set vs. \<not> room ys (memory_size (snd w)))"
proof (induct "length ws" arbitrary: g xs own lost ws rule: less_induct)
  case less
  obtain b g1 ys own' lost' vs where s: "send_waiting k g = Some (b, g1)" "gen_rep k g1 ys own' lost' vs acc"
    "same_file g g1" "if b then \<exists>w. mset ws = add_mset w (mset vs) \<and> room xs (memory_size (snd w))
     else (\<forall>w \<in> set ws. \<not> room xs (memory_size (snd w))) \<and> g1 = g \<and> ys = xs \<and> vs = ws"
    using send_waiting_rep [OF less.prems] by blast
  show ?case
  proof (cases b)
    case True
    have "kernel_ok k {clk_pid g1, sch_pid g1}" "\<forall>proc \<in> set (process_list g1). 0 < memory_size proc"
      using less.prems(2,3) s(3) by (simp_all add: same_file_def)
    moreover have "length vs < length ws" using s(4) True by (auto dest: arg_cong [of _ _ size])
    ultimately obtain g' zs own2 lost2 us where g': "serve_waiting k g1 = Some g'"
      "gen_rep k g' zs own2 lost2 us acc" "same_file g1 g'" "\<forall>w \<in> set us. \<not> room zs (memory_size (snd w))"
      using less.hyps [OF _ s(2)] by blast
    have "serve_waiting k g = Some g'" using s(1) True g'(1) by (simp add: serve_waiting.simps [of k g])
    moreover have "same_file g g'" using s(3) g'(3) by (simp add: same_file_def)
    ultimately show ?thesis using g'(2,4) by blast
  next
    case False
    then have "serve_waiting k g = Some g" using s(1,4) by (simp add: serve_waiting.simps [of k g])
    moreover have "\<forall>w \<in> set ws. \<not> room xs (memory_size (snd w))" "same_file g g"
      using s(4) False by (auto simp: same_file_def)
    ultimately show ?thesis using less.prems(1) by blast
  qed
qed

text \<open>
  C27: the inner loop ends, whatever the kernel answers, and when it does no process that still waits
  fits into the memory that is free.
\<close>

theorem serve_waiting_returns:
  assumes "run_ok k ps c d" "gen_reachable k (gen_starts ps c d now) (Gen Inner g)"
  shows "\<exists>g' xs ws. serve_waiting k g = Some g' \<and> buddy_ok (mm_heap (mm g')) (memory (mm g')) xs \<and>
    ll_rep (waiting_list g') ws \<and> (\<forall>w \<in> set ws. \<not> room xs (memory_size (snd w)))"
proof -
  obtain xs own lost ws where rep: "gen_rep k g xs own lost ws (mset (take (nat (idx g)) ps))"
    and f: "process_list g = ps" "clk_pid g = c" "sch_pid g = d" using run_rep [OF assms] by blast
  have "kernel_ok k {clk_pid g, sch_pid g}" "\<forall>proc \<in> set (process_list g). 0 < memory_size proc"
    using assms(1) f by (simp_all add: run_ok_def)
  from serve_waiting_rep [OF rep this] obtain g' ys own' lost' vs where
    s: "serve_waiting k g = Some g'" "gen_rep k g' ys own' lost' vs (mset (take (nat (idx g)) ps))"
    "\<forall>w \<in> set vs. \<not> room ys (memory_size (snd w))" by blast
  have "buddy_ok (mm_heap (mm g')) (memory (mm g')) ys" "ll_rep (waiting_list g') vs"
    using s(2) by (simp_all add: gen_rep_def mm_ok_def)
  then show ?thesis using s(1,3) by (intro exI [of _ g'] exI [of _ ys] exI [of _ vs] conjI)
qed

lemma gen_demo_inner: "gphase_of (gen_at 12) = Some Inner" by code_simp

theorem serve_waiting_returns_witness:
  "\<exists>g'. serve_waiting demo_kernel (gen_state 12) = Some g'"
  using serve_waiting_returns [OF demo_run_ok gen_demo_reachable [OF gen_demo_inner]] by blast

text \<open>
  C38: the map from process ids to blocks forgets no id, so over a whole run at most 100 processes ever
  get their block recorded, however many have exited since.
\<close>

theorem blocks_recorded_bound:
  assumes "run_ok k ps c d" "gen_reachable k (gen_starts ps c d now) (Gen ph g)"
  shows "length (filter (\<lambda>pcb. memory_block pcb \<noteq> None) (pcb_sent g)) \<le> 100"
proof -
  let ?r = "filter (\<lambda>pcb. memory_block pcb \<noteq> None) (pcb_sent g)" and ?m = "memory_map (mm g)"
  obtain xs own lost ws where rep: "gen_rep k g xs own lost ws (mset (take (nat (idx g)) ps))"
    using run_rep [OF assms] by blast
  have "hm_ok ?m" "capacity ?m = 100" using rep by (simp_all add: gen_rep_def mm_ok_def)
  moreover have "set (map pid ?r) \<subseteq> dom (lookup ?m)" using rep by (auto simp: gen_rep_def sent_ok_def)
  ultimately have "card (set (map pid ?r)) \<le> 100"
    using hm.owners_bound [of ?m "set (map pid ?r)"] by (simp add: domIff subset_iff)
  moreover have "distinct (map pid ?r)" using rep by (simp add: gen_rep_def distinct_map_filter)
  ultimately show ?thesis using distinct_card [of "map pid ?r"] by simp
qed

theorem blocks_recorded_bound_witness:
  "length (filter (\<lambda>pcb. memory_block pcb \<noteq> None) (pcb_sent (gen_state 16))) \<le> 100"
  by (rule blocks_recorded_bound [OF demo_run_ok gen_demo_reachable [OF gen_demo_phases(1)]])

text \<open>
  C16: the memory is not leaked: without failing calls, when every process that was sent has exited and
  each had its block recorded in its PCB, the memory is again one free block of 1024 units.
\<close>

theorem memory_returned:
  assumes "run_ok k ps c d" "gen_reachable k (gen_starts ps c d now) (Gen ph g)" "no_failure k"
    "\<forall>pcb \<in> set (pcb_sent g). memory_block pcb \<noteq> None" "set (children g) \<subseteq> {c, d}"
  shows "\<exists>p. buddy_ok (mm_heap (mm g)) (memory (mm g)) [(p, \<lparr>bsize = MAX_SIZE, bstart = 0, ballocated = 0\<rparr>)]"
proof -
  obtain xs own lost ws where rep: "gen_rep k g xs own lost ws (mset (take (nat (idx g)) ps))"
    and lk: "leak_ok k g lost" using run_rep [OF assms(1,2)] by blast
  have k: "kernel_ok k {c, d}" using assms(1) by (simp add: run_ok_def)
  have ok: "mm_ok (mm g) xs own lost" using rep by (simp add: gen_rep_def)
  have "own i = None" for i
  proof (rule ccontr)
    assume "own i \<noteq> None"
    then obtain p n where o: "own i = Some (p, n)" by auto
    then have "i \<in> {c, d}" using rep assms(5) by (auto simp: gen_rep_def)
    moreover have "i \<in> dom (lookup (memory_map (mm g)))" using ok o unfolding mm_ok_def by blast
    then have "i \<in> pids k (forks g)" using rep by (auto simp: gen_rep_def)
    ultimately show False using k by (auto simp: kernel_ok_def pids_def)
  qed
  then have "own = Map.empty" by (rule ext)
  moreover have "lost = {}" using lk assms(3,4) by (simp add: leak_ok_def)
  ultimately have "grants xs = {}" using ok by (simp add: mm_ok_def)
  then have "taken xs = []" by (simp add: grants_def)
  moreover have b: "buddy_ok (mm_heap (mm g)) (memory (mm g)) xs" using ok by (simp add: mm_ok_def)
  ultimately have "map snd xs = [\<lparr>bsize = MAX_SIZE, bstart = 0, ballocated = 0\<rparr>]" by (intro all_free_single)
  then obtain p where "xs = [(p, \<lparr>bsize = MAX_SIZE, bstart = 0, ballocated = 0\<rparr>)]" by (auto simp: map_eq_Cons_conv)
  with b show ?thesis by blast
qed

theorem memory_returned_witness:
  "\<exists>p. buddy_ok (mm_heap (mm (gen_state 17))) (memory (mm (gen_state 17)))
     [(p, \<lparr>bsize = MAX_SIZE, bstart = 0, ballocated = 0\<rparr>)]"
proof -
  have v: "gphase_of (gen_at 17) = Some Sent" "children (gen_state 17) = [500, 501]"
    "map memory_block (pcb_sent (gen_state 17)) = [Some 1, Some 1]" by code_simp+
  then have "\<forall>pcb \<in> set (pcb_sent (gen_state 17)). memory_block pcb \<noteq> None"
    by (metis (no_types, lifting) list.set_map image_eqI list.set(1,2) insert_iff empty_iff option.distinct(1))
  with memory_returned [OF demo_run_ok gen_demo_reachable [OF v(1)]] v(2) show ?thesis
    by (simp add: no_failure_def demo_kernel_def)
qed

text \<open>The clock has passed the arrival time of the next process of the file.\<close>

definition missed :: "int \<Rightarrow> Process list \<Rightarrow> gconfig \<Rightarrow> bool" where
  "missed i ps conf \<longleftrightarrow>
     (case conf of
        Broken \<Rightarrow> False
      | Gen ph g \<Rightarrow> ph \<noteq> Sent \<and> idx g = i \<and> process_list g = ps \<and> 0 \<le> i \<and> i < int (length ps) \<and>
          interrupted g = 0 \<and> arrival_time (ps ! nat i) < gen_clk g)"

lemma send_waiting_missed: "send_waiting k g = Some (b, g') \<Longrightarrow> idx g' = idx g \<and> process_list g' = process_list g \<and>
    interrupted g' = interrupted g \<and> gen_clk g' = gen_clk g"
proof -
  have f: "idx v = idx u \<and> process_list v = process_list u \<and> interrupted v = interrupted u \<and> gen_clk v = gen_clk u"
    if "fork_and_send k proc p u = Some v" for proc p u v
    using that by (cases "fork_result k (forks u) = - 1") (auto simp: fork_and_send_def Let_def bind_eq_Some_conv)
  show "send_waiting k g = Some (b, g') \<Longrightarrow> idx g' = idx g \<and> process_list g' = process_list g \<and>
    interrupted g' = interrupted g \<and> gen_clk g' = gen_clk g"
    by (auto simp: send_waiting_def Let_def bind_eq_Some_conv split: if_splits option.splits dest!: f)
qed

lemma missed_step:
  assumes "gen_step k x y" "missed i ps x" "y \<noteq> Broken"
  shows "missed i ps y"
  using assms
proof (induct rule: gen_step.induct)
  case (waiting g b g')
  then show ?case using send_waiting_missed [OF waiting(1)] by (auto simp: missed_def)
next
  case (arrival g)
  then have "arrive k g = Some g" by (auto simp: missed_def arrive_def)
  with arrival show ?case by (simp add: missed_def goutcome_def)
next
  case (child_exit es g ph)
  then obtain g' where g': "handle_child_exit es g = Some g'"
    by (cases "handle_child_exit es g") (simp_all add: goutcome_def)
  with child_exit handle_child_exit_frame [OF g'] show ?case by (simp add: missed_def goutcome_def)
qed (auto simp: missed_def create_guard_def)

text \<open>
  C28: the next process of the file is created only at exactly its arrival time: once the clock has
  passed it, the loop never gets further in the file and never ends, so neither this process nor a
  later one nor "no_more_processes" is ever sent.
\<close>

theorem missed_arrival_blocks:
  assumes "run_ok k ps c d" "gen_reachable k (gen_starts ps c d now) (Gen ph g)" "ph \<noteq> Sent"
    "idx g < int (length ps)" "arrival_time (ps ! nat (idx g)) < gen_clk g"
    "gen_reachable k (Gen ph g) conf"
  shows "\<exists>ph' g'. conf = Gen ph' g' \<and> ph' \<noteq> Sent \<and> idx g' = idx g"
proof -
  obtain xs own lost ws where "file_ok g ws" "process_list g = ps" "interrupted g = 0"
    using run_rep [OF assms(1,2)] by blast
  then have m: "missed (idx g) ps (Gen ph g)" using assms(3-5) by (simp add: missed_def file_ok_def)
  have "missed (idx g) ps conf \<and> gen_good k ps c d conf" using assms(6)
  proof (induct rule: gen_reachable.induct)
    case start
    then show ?case using m run_good [OF assms(1,2)] by simp
  next
    case (step y z)
    moreover have "kernel_ok k {c, d}" using assms(1) by (simp add: run_ok_def)
    ultimately have "gen_good k ps c d z" using gen_step_good by blast
    moreover from this have "z \<noteq> Broken" by auto
    ultimately show ?case using missed_step [OF step.hyps(3)] step.hyps(2) by blast
  qed
  then show ?thesis by (auto simp: missed_def split: gconfig.splits)
qed

text \<open>A clock that starts after the arrival of the first process.\<close>

theorem missed_arrival_blocks_witness:
  "\<exists>ph' g'. Gen Outer (start_generator demo_file 500 501 2) = Gen ph' g' \<and> ph' \<noteq> Sent \<and> idx g' = 0"
  using missed_arrival_blocks [OF demo_run_ok gen_reachable.start _ _ _ gen_reachable.start, of 2]
  by (simp add: start_generator_def demo_file_def)

text \<open>
  The program accepts exactly two forms of arguments, round robin with a positive quantum and the
  two other algorithms without one, and exits with a message on all others.
\<close>

theorem parse_args_accepts:
  "parse_args argv = Some (Args algo file q) \<longleftrightarrow>
     (\<exists>prog n v. argv = [prog, ''-s'', ''rr'', ''-q'', n, ''-f'', file] \<and> algo = ''rr'' \<and>
        atoi n = Some v \<and> 0 < v \<and> q = Some v) \<or>
     (\<exists>prog. argv = [prog, ''-s'', algo, ''-f'', file] \<and> (algo = ''hpf'' \<or> algo = ''srtn'') \<and> q = None)"
proof -
  have five: "\<exists>a b x d e. argv = [a, b, x, d, e]" if "length argv = 5"
    using that by (auto simp: length_Suc_conv eval_nat_numeral)
  have seven: "\<exists>a b x d e f g. argv = [a, b, x, d, e, f, g]" if "length argv = 7"
    using that by (auto simp: length_Suc_conv eval_nat_numeral)
  show ?thesis
  proof (cases "length argv = 5 \<or> length argv = 7")
    case False
    then show ?thesis by (auto simp: parse_args_def Let_def)
  next
    case True
    then show ?thesis
    proof
      assume "length argv = 5"
      from five [OF this] show ?thesis by (elim exE) (auto simp: parse_args_def Let_def)
    next
      assume "length argv = 7"
      then obtain a b x d e f g where "argv = [a, b, x, d, e, f, g]" using seven by blast
      then show ?thesis by (cases "atoi e") (auto simp: parse_args_def Let_def split: if_splits)
    qed
  qed
qed

text \<open>
  A memory in which process 1000 holds the left half and process 1001 a quarter, with the last quarter
  free, and the two calls of the inner loop with the exit of process 1001 handled between them.
\<close>

definition race_process :: "int \<Rightarrow> int \<Rightarrow> Process" where
  "race_process i sz =
     \<lparr>proc_id = i, arrival_time = 0, runtime = 5, proc_priority = 0, memory_size = sz\<rparr>"

definition race_memory :: "memory_manager option" where
  "race_memory = do {
     (a, m) \<leftarrow> allocate_process_memory 500 init_memory_manager;
     (_, m) \<leftarrow> assign_memory_block_to_process 0 (new_pcb (race_process 1 500) 1000) a m;
     (b, m) \<leftarrow> allocate_process_memory 200 m;
     (_, m) \<leftarrow> assign_memory_block_to_process 0 (new_pcb (race_process 2 200) 1001) b m;
     Some m
   }"

definition race :: "memory_manager \<Rightarrow> (ptr \<times> ptr \<times> bool) option" where
  "race m = do {
     fit_memory_block \<leftarrow> get_smallest_block (race_process 3 200) m;
     (_, m) \<leftarrow> deallocate_process_memory 1 1001 m;
     (allocated_block, m) \<leftarrow> allocate_process_memory 200 m;
     let r = assign_memory_block_to_process 1 (new_pcb (race_process 3 200) 1002) fit_memory_block m;
     Some (fit_memory_block, allocated_block, Option.is_none r)
   }"

text \<open>
  The inner loop is not safe against a SIGCHLD in the middle: when the exit of a process is handled
  between \<open>get_smallest_block\<close> and \<open>allocate_process_memory\<close>, the block found first can be merged away.
  The block allocated is then another one, while the forked process is given the freed one, and
  logging that is a read of freed memory.
\<close>

theorem sigchld_race: "(do { m \<leftarrow> race_memory; race m }) = Some (3, 2, True)"
  by code_simp

end
