(* ===== verification/Scheduler_Loop.thy ===== *)
theory Scheduler_Loop
  imports Scheduler_Invariant
begin

text \<open>
  The scheduler process as a step relation: \<open>scheduler_loop\<close> goes round its body one function at a
  time, and between two functions the clock may advance, messages may arrive and the running process
  may send its two signals. A function whose run is undefined ends in \<open>Crashed\<close>. A signal is handled
  here only where \<open>signal_ok\<close> holds: a process with time left runs and, under SRTN, is the front of the
  ready queue. The code has no such condition; Scheduler_Signals drops it, and says what is left.
\<close>

datatype phase = Guard | Receive | Dispatch | Running | Notice | Done

datatype config = Crashed | At phase sched

definition outcome :: "phase \<Rightarrow> sched option \<Rightarrow> config" where
  "outcome ph r = (case r of None \<Rightarrow> Crashed | Some s \<Rightarrow> At ph s)"

inductive sched_step :: "config \<Rightarrow> config \<Rightarrow> bool" where
  enter: "loop_guard s \<Longrightarrow> sched_step (At Guard s) (At Receive s)"
| leave: "\<not> loop_guard s \<Longrightarrow> sched_step (At Guard s) (At Done s)"
| receive: "sched_step (At Receive s) (outcome Dispatch (check_for_new_processes s))"
| dispatch: "sched_step (At Dispatch s) (outcome Running (dispatch s))"
| running: "sched_step (At Running s) (outcome Notice (handle_current_running_process s))"
| notice: "sched_step (At Notice s) (At Guard (check_no_more_processes s))"
| sigusr2: "signal_ok s \<Longrightarrow> ph \<noteq> Done \<Longrightarrow> sched_step (At ph s) (outcome ph (handle_process_tick s))"
| sigusr1: "signal_ok s \<Longrightarrow> ph \<noteq> Done \<Longrightarrow> sched_step (At ph s) (outcome ph (handle_process_termination s))"
| clock: "clk s < 2147483647 \<Longrightarrow> sched_step (At ph s) (At ph (s\<lparr>clk := clk s + 1\<rparr>))"
| send_pcb: "msg_ok m \<Longrightarrow> pcb_brk s + length (msgs_pcb s) < queue_limit \<Longrightarrow>
    sched_step (At ph s) (At ph (s\<lparr>msgs_pcb := msgs_pcb s @ [m]\<rparr>))"
| send_str: "sched_step (At ph s) (At ph (s\<lparr>msgs_str := msgs_str s @ [str]\<rparr>))"

inductive_cases sched_stepE: "sched_step (At ph s) c"
inductive_simps sched_step_Crashed [simp]: "sched_step Crashed c"

inductive reachable :: "config \<Rightarrow> config \<Rightarrow> bool" for c where
  start: "reachable c c"
| step: "reachable c d \<Longrightarrow> sched_step d e \<Longrightarrow> reachable c e"

text \<open>
  Invariants of the loop, proved once: a property of states that every function keeps, and that does
  not depend on the messages waiting, holds in every reachable configuration, which is not \<open>Crashed\<close>.
\<close>

definition holds :: "(sched \<Rightarrow> bool) \<Rightarrow> config \<Rightarrow> bool" where
  "holds P c = (case c of Crashed \<Rightarrow> False | At ph s \<Rightarrow> P s)"

lemma holds_simps [simp]: "holds P (At ph s) = P s" "\<not> holds P Crashed"
  by (simp_all add: holds_def)

lemma holds_outcome: "\<exists>s'. r = Some s' \<and> P s' \<Longrightarrow> holds P (outcome ph r)"
  by (auto simp: outcome_def)

locale loop_invariant =
  fixes P :: "sched \<Rightarrow> bool"
  assumes check_for_new: "P s \<Longrightarrow> \<exists>s'. check_for_new_processes s = Some s' \<and> P s'"
    and dispatch: "P s \<Longrightarrow> \<exists>s'. dispatch s = Some s' \<and> P s'"
    and current: "P s \<Longrightarrow> \<exists>s'. handle_current_running_process s = Some s' \<and> P s'"
    and tick: "P s \<Longrightarrow> signal_ok s \<Longrightarrow> \<exists>s'. handle_process_tick s = Some s' \<and> P s'"
    and terminated: "P s \<Longrightarrow> signal_ok s \<Longrightarrow> \<exists>s'. handle_process_termination s = Some s' \<and> P s'"
    and no_more: "P s \<Longrightarrow> P (check_no_more_processes s)"
    and clock: "P s \<Longrightarrow> clk s < 2147483647 \<Longrightarrow> P (s\<lparr>clk := clk s + 1\<rparr>)"
    and pcb_msg: "P s \<Longrightarrow> msg_ok m \<Longrightarrow> pcb_brk s + length (msgs_pcb s) < queue_limit \<Longrightarrow>
      P (s\<lparr>msgs_pcb := msgs_pcb s @ [m]\<rparr>)"
    and str_msg: "P s \<Longrightarrow> P (s\<lparr>msgs_str := msgs_str s @ [str]\<rparr>)"
begin

lemma step: "sched_step c d \<Longrightarrow> holds P c \<Longrightarrow> holds P d"
  by (induct rule: sched_step.induct)
    (auto intro!: holds_outcome check_for_new dispatch current tick terminated no_more clock pcb_msg str_msg)

lemma reachable: "reachable c d \<Longrightarrow> holds P c \<Longrightarrow> holds P d"
  by (induct rule: reachable.induct) (auto dest: step)

end

interpretation inv: loop_invariant sched_inv
proof unfold_locales
  fix s m
  assume "sched_inv s" "msg_ok m" "pcb_brk s + length (msgs_pcb s) < queue_limit"
  then show "sched_inv (s\<lparr>msgs_pcb := msgs_pcb s @ [m]\<rparr>)"
    by (auto simp: sched_inv_def sched_rep_def sched_core_def)
next
  fix s str
  assume "sched_inv s"
  then show "sched_inv (s\<lparr>msgs_str := msgs_str s @ [str]\<rparr>)"
    by (auto simp: sched_inv_def sched_rep_def sched_core_def)
next
  fix s
  assume "sched_inv s" "clk s < 2147483647"
  then show "sched_inv (s\<lparr>clk := clk s + 1\<rparr>)"
    by (auto simp: sched_inv_def sched_rep_def sched_core_def)
qed (simp_all add: check_for_new_inv dispatch_inv handle_current_inv handle_process_tick_inv
    handle_process_termination_inv check_no_more_inv)

lemma reachable_inv:
  "reachable (At Guard (run_scheduler name q n now)) c \<Longrightarrow> slice_ok name q \<Longrightarrow> in_int q \<Longrightarrow> holds sched_inv c"
  using inv.reachable sched_inv_start by simp

text \<open>When the loop has ended, the queue is empty and nothing runs.\<close>

lemma reachable_Done:
  "reachable c d \<Longrightarrow> c = At Guard s0 \<Longrightarrow> holds sched_inv c \<Longrightarrow> d = At Done s \<Longrightarrow> \<not> loop_guard s"
proof (induct arbitrary: s rule: reachable.induct)
  case start
  then show ?case by simp
next
  case (step d e)
  then have "holds sched_inv d" using inv.reachable by blast
  then obtain ph sd where d: "d = At ph sd" by (cases d) auto
  have e: "e = At Done s" and prev: "ph = Done \<Longrightarrow> \<not> loop_guard sd" using step d by auto
  have "sched_step (At ph sd) (At Done s)" using step.hyps(3) d e by simp
  then show ?case
    by (rule sched_stepE) (use prev in \<open>auto simp: outcome_def loop_guard_def split: option.splits\<close>)
qed

lemma not_guard_finished:
  assumes "sched_inv s" "\<not> loop_guard s" "pcb_heap s p = Some pcb"
  shows "state pcb = Some ''finished''"
proof -
  obtain xs where core: "sched_core s xs" using assms(1) by (auto simp: sched_inv_def sched_rep_def)
  then have "xs = []" "current_pcb s = NULL"
    using assms(2) queue_is_empty [of "selected_algorithm s" "rdy_queue s" xs]
    by (auto simp: loop_guard_def sched_core_def)
  with core assms(3) pcbs_ok_get(2) [of "pcb_heap s" "pcb_brk s" p pcb] show ?thesis
    by (auto simp: sched_core_def finished_ok_def)
qed

section \<open>The time line\<close>

text \<open>
  The intervals of \<open>execution_log.txt\<close>, idle ones and runs, follow each other without a gap from the
  scheduler's start on, and \<open>idle_time\<close> is the length of the idle ones. Under HPF this can fail, as
  \<open>handle_current_running_process\<close> may schedule without accounting for the time that has passed.
\<close>

primrec entry_from :: "execution_entry \<Rightarrow> int" where
  "entry_from (Idle a b) = a"
| "entry_from (Runs i n a b r) = a"
| "entry_from (Finishes i n a b) = a"

primrec entry_to :: "execution_entry \<Rightarrow> int" where
  "entry_to (Idle a b) = b"
| "entry_to (Runs i n a b r) = b"
| "entry_to (Finishes i n a b) = b"

primrec entry_idle :: "execution_entry \<Rightarrow> int" where
  "entry_idle (Idle a b) = b - a"
| "entry_idle (Runs i n a b r) = 0"
| "entry_idle (Finishes i n a b) = 0"

primrec contiguous :: "int \<Rightarrow> execution_entry list \<Rightarrow> int \<Rightarrow> bool" where
  "contiguous t [] t' \<longleftrightarrow> t = t'"
| "contiguous t (e # es) t' \<longleftrightarrow> entry_from e = t \<and> t \<le> entry_to e \<and> contiguous (entry_to e) es t'"

definition idle_sum :: "execution_entry list \<Rightarrow> int" where
  "idle_sum es = sum_list (map entry_idle es)"

lemma contiguous_snoc [simp]:
  "contiguous t (es @ [e]) t' \<longleftrightarrow> contiguous t es (entry_from e) \<and> entry_from e \<le> entry_to e \<and> entry_to e = t'"
  by (induct es arbitrary: t) auto

lemma idle_sum_simps [simp]: "idle_sum [] = 0" "idle_sum (es @ [e]) = idle_sum es + entry_idle e"
  by (simp_all add: idle_sum_def)

lemma contiguous_idle: "contiguous t es t' \<Longrightarrow> 0 \<le> idle_sum es \<and> idle_sum es \<le> t' - t"
proof (induct es arbitrary: t)
  case Nil
  then show ?case by simp
next
  case (Cons e es)
  from Cons.hyps [of "entry_to e"] Cons.prems show ?case
    by (cases e) (auto simp: idle_sum_def)
qed

text \<open>What the accounting reads and writes.\<close>

definition time_part :: "sched \<Rightarrow> int \<times> int \<times> int \<times> int \<times> execution_entry list \<times> ptr \<times> SchedulingAlgorithm" where
  "time_part s = (clk s, last_process_end_time s, idle_time s, log_start_time s, execution_log s,
     current_pcb s, selected_algorithm s)"

definition time_ok :: "int \<Rightarrow> sched \<Rightarrow> bool" where
  "time_ok t0 s \<longleftrightarrow> selected_algorithm s \<noteq> HPF \<and> 0 \<le> t0 \<and> clk s \<le> 2147483647 \<and>
     idle_time s = idle_sum (execution_log s) \<and> t0 \<le> last_process_end_time s \<and>
     last_process_end_time s \<le> clk s \<and>
     (if current_pcb s = NULL then contiguous t0 (execution_log s) (last_process_end_time s)
      else contiguous t0 (execution_log s) (log_start_time s) \<and> log_start_time s \<le> clk s)"

lemma time_ok_frame: "time_part s' = time_part s \<Longrightarrow> time_ok t0 s' = time_ok t0 s"
  by (simp add: time_ok_def time_part_def)

lemma admit_frame: "admit m s = Some s' \<Longrightarrow> time_part s' = time_part s"
  by (auto simp: admit_def time_part_def Let_def bind_eq_Some_conv)

lemma receive_all_frame: "receive_all ms s = Some s' \<Longrightarrow> time_part s' = time_part s"
proof (induct ms arbitrary: s)
  case Nil
  then show ?case by (auto simp: time_part_def)
next
  case (Cons m ms)
  then show ?case
    by (auto simp: bind_eq_Some_conv time_part_def [of "s\<lparr>msgs_pcb := _\<rparr>"] dest!: admit_frame split: if_splits)
      (auto simp: time_part_def)
qed

lemma schedule_next_frame:
  assumes "sched_core s xs" "current_pcb s = NULL" "schedule_next_process s = Some s'"
  shows "time_part s' = (if xs = [] then time_part s
    else (clk s, last_process_end_time s, idle_time s, clk s, execution_log s, fst (hd xs), selected_algorithm s))
    \<and> (xs \<noteq> [] \<longrightarrow> current_pcb s' \<noteq> NULL)"
proof (cases xs)
  case Nil
  then show ?thesis using assms schedule_next_Nil by auto
next
  case (Cons x ys)
  from schedule_next_Cons [OF assms(1,2) [unfolded Cons]] obtain pcb where
    "pcb_heap s (fst x) = Some pcb" by blast
  moreover have "pcbs_ok (pcb_heap s) (pcb_brk s)" using assms(1) by (simp add: sched_core_def)
  ultimately have "fst x \<noteq> NULL" by (rule pcbs_ok_get(2) [rotated])
  with schedule_next_Cons [OF assms(1,2) [unfolded Cons]] assms(3) Cons show ?thesis
    by (auto simp: time_part_def)
qed

lemma log_pcb_frame: "log_pcb pcb s = Some s' \<Longrightarrow> time_part s' = time_part s"
  by (auto simp: log_pcb_def time_part_def bind_eq_Some_conv)

lemma quantum_expiration_frame:
  assumes "sched_core s xs" "current_pcb s \<noteq> NULL" "selected_algorithm s \<noteq> HPF"
    "handle_quantum_expiration s = Some s'"
  shows "\<exists>i b r. time_part s' = (clk s, clk s, idle_time s, 0,
    execution_log s @ [Runs i b (log_start_time s) (clk s) r], NULL, selected_algorithm s)"
  using handle_quantum_expiration_run [OF assms(1-3)] assms(4) by (auto simp: time_part_def)

lemma termination_frame:
  assumes "sched_core s xs" "signal_ok s" "handle_process_termination s = Some s'"
  shows "\<exists>i b. time_part s' = (clk s, clk s, idle_time s, 0,
    execution_log s @ [Finishes i b (log_start_time s) (clk s)], NULL, selected_algorithm s)"
proof -
  obtain pcb where "pcb_heap s (current_pcb s) = Some pcb" using assms(2) by (auto simp: signal_ok_def)
  from handle_process_termination_run [OF assms(1,2) this] assms(3) show ?thesis
    by (auto simp: time_part_def)
qed

lemma tick_frame: "handle_process_tick s = Some s' \<Longrightarrow> time_part s' = time_part s"
  by (auto simp: handle_process_tick_def time_part_def Let_def bind_eq_Some_conv put_pcb_def)

lemma time_ok_expiration:
  assumes core: "sched_core s xs" and t: "time_ok t0 s" and c: "current_pcb s \<noteq> NULL"
    and run: "handle_quantum_expiration s = Some s'"
  shows "time_ok t0 s'"
proof -
  have "selected_algorithm s \<noteq> HPF" using t by (simp add: time_ok_def)
  from quantum_expiration_frame [OF core c this run] t c show ?thesis
    by (auto simp: time_ok_def time_part_def)
qed

lemma time_ok_termination:
  assumes core: "sched_core s xs" and t: "time_ok t0 s" and sig: "signal_ok s"
    and run: "handle_process_termination s = Some s'"
  shows "time_ok t0 s'"
  using termination_frame [OF core sig run] t sig
  by (auto simp: time_ok_def time_part_def signal_ok_def)

lemma time_ok_current:
  assumes core: "sched_core s xs" and t: "time_ok t0 s"
    and run: "handle_current_running_process s = Some s'"
  shows "time_ok t0 s'"
  using core run
proof (cases rule: handle_current_cases)
  case same
  then show ?thesis using t by simp
next
  case schedule
  then show ?thesis using t by (simp add: time_ok_def)
next
  case (expire pcb r u)
  have "time_ok t0 u" using t expire(7) by (simp add: put_pcb_def time_ok_def)
  moreover have "current_pcb u \<noteq> NULL" using expire(2,7) by (simp add: put_pcb_def)
  ultimately show ?thesis using time_ok_expiration [OF expire(8)] expire(9) by blast
qed

lemma time_ok_dispatch:
  assumes core: "sched_core s xs" and t: "time_ok t0 s" and run: "dispatch s = Some s'"
  shows "time_ok t0 s'"
proof (cases "current_pcb s = NULL")
  case False
  then show ?thesis using run t by (simp add: dispatch_def)
next
  case True
  let ?i = "if clk s > last_process_end_time s \<and> \<not> is_empty (rdy_queue s) then
      log_execution (Idle (last_process_end_time s) (clk s))
        (s\<lparr>idle_time := wrap32 (idle_time s + wrap32 (clk s - last_process_end_time s))\<rparr>) else s"
  have run: "schedule_next_process ?i = Some s'" using run True by (simp add: dispatch_def)
  have core: "sched_core ?i xs" using core by (auto simp: sched_core_def log_execution_def)
  have null: "current_pcb ?i = NULL" using True by (simp add: log_execution_def)
  have con: "contiguous t0 (execution_log s) (last_process_end_time s)" and
    b: "0 \<le> t0" "clk s \<le> 2147483647" "t0 \<le> last_process_end_time s" "last_process_end_time s \<le> clk s"
    "idle_time s = idle_sum (execution_log s)"
    using t True by (simp_all add: time_ok_def)
  from contiguous_idle [OF con] b have w: "wrap32 (idle_time s + wrap32 (clk s - last_process_end_time s)) =
      idle_sum (execution_log s) + (clk s - last_process_end_time s)"
    by (simp add: c_int)
  have e: "is_empty (rdy_queue s) = (xs = [])"
    using core queue_is_empty [of "selected_algorithm s" "rdy_queue s" xs]
    by (auto simp: sched_core_def log_execution_def split: if_splits)
  show ?thesis
  proof (cases xs)
    case Nil
    then have "?i = s" using e by simp
    with schedule_next_frame [OF core null run] Nil have "time_part s' = time_part s" by simp
    then show ?thesis using t time_ok_frame by blast
  next
    case (Cons x ys)
    with schedule_next_frame [OF core null run] have
      "time_part s' = (clk s, last_process_end_time s, idle_time ?i, clk s, execution_log ?i, fst x, selected_algorithm s)"
      "current_pcb s' \<noteq> NULL" by (auto simp: log_execution_def)
    with t con b w e Cons show ?thesis
      by (cases "clk s > last_process_end_time s") (auto simp: time_ok_def time_part_def log_execution_def)
  qed
qed

lemma with_core:
  assumes "sched_inv s \<and> Q s" "\<exists>s'. g s = Some s' \<and> sched_inv s'"
    and "\<And>s' xs. sched_core s xs \<Longrightarrow> g s = Some s' \<Longrightarrow> Q s'"
  shows "\<exists>s'. g s = Some s' \<and> sched_inv s' \<and> Q s'"
  using assms unfolding sched_inv_def sched_rep_def by meson

interpretation time: loop_invariant "\<lambda>s. sched_inv s \<and> time_ok t0 s"
proof unfold_locales
  fix s assume i: "sched_inv s \<and> time_ok t0 s"
  then have inv: "sched_inv s" and t: "time_ok t0 s" by auto
  note frame = time_ok_frame [THEN iffD2, OF _ t]
  show "\<exists>s'. check_for_new_processes s = Some s' \<and> sched_inv s' \<and> time_ok t0 s'"
    by (rule with_core [where Q = "time_ok t0" and g = check_for_new_processes and s = s, OF i check_for_new_inv [OF inv]])
      (auto simp: check_for_new_processes_def intro!: frame dest!: receive_all_frame)
  show "\<exists>s'. dispatch s = Some s' \<and> sched_inv s' \<and> time_ok t0 s'"
    by (rule with_core [where Q = "time_ok t0" and g = dispatch and s = s, OF i dispatch_inv [OF inv]]) (rule time_ok_dispatch [OF _ t])
  show "\<exists>s'. handle_current_running_process s = Some s' \<and> sched_inv s' \<and> time_ok t0 s'"
    by (rule with_core [where Q = "time_ok t0" and g = handle_current_running_process and s = s, OF i handle_current_inv [OF inv]]) (rule time_ok_current [OF _ t])
  show "signal_ok s \<Longrightarrow> \<exists>s'. handle_process_tick s = Some s' \<and> sched_inv s' \<and> time_ok t0 s'"
    by (rule with_core [where Q = "time_ok t0" and g = handle_process_tick and s = s, OF i handle_process_tick_inv [OF inv]]) (auto intro!: frame dest!: tick_frame)
  show "signal_ok s \<Longrightarrow> \<exists>s'. handle_process_termination s = Some s' \<and> sched_inv s' \<and> time_ok t0 s'"
    by (rule with_core [where Q = "time_ok t0" and g = handle_process_termination and s = s, OF i handle_process_termination_inv [OF inv]])
      (auto intro: time_ok_termination [OF _ t])
  show "sched_inv (check_no_more_processes s) \<and> time_ok t0 (check_no_more_processes s)"
    using i check_no_more_inv [of s]
    by (auto simp: check_no_more_processes_def time_ok_def Let_def split: list.splits)
  show "clk s < 2147483647 \<Longrightarrow> sched_inv (s\<lparr>clk := clk s + 1\<rparr>) \<and> time_ok t0 (s\<lparr>clk := clk s + 1\<rparr>)"
    using i inv.clock [of s] by (auto simp: time_ok_def)
  fix m
  show "msg_ok m \<Longrightarrow> pcb_brk s + length (msgs_pcb s) < queue_limit \<Longrightarrow>
    sched_inv (s\<lparr>msgs_pcb := msgs_pcb s @ [m]\<rparr>) \<and> time_ok t0 (s\<lparr>msgs_pcb := msgs_pcb s @ [m]\<rparr>)"
    using i inv.pcb_msg [of s m] by (auto simp: time_ok_def)
  fix str
  show "sched_inv (s\<lparr>msgs_str := msgs_str s @ [str]\<rparr>) \<and> time_ok t0 (s\<lparr>msgs_str := msgs_str s @ [str]\<rparr>)"
    using i inv.str_msg [of s str] by (auto simp: time_ok_def)
qed

lemma time_ok_start:
  "set_selected_algorithm name RR \<noteq> HPF \<Longrightarrow> 0 \<le> now \<Longrightarrow> now \<le> 2147483647 \<Longrightarrow>
   time_ok now (run_scheduler name q n now)"
  by (simp add: time_ok_def run_scheduler_def Let_def)

section \<open>Executing the loop\<close>

text \<open>
  The step relation as a function of what happens next: the loop goes on, or one of the
  environment's events takes place. It gives concrete runs to evaluate.
\<close>

datatype event = Loop | Sigusr2 | Sigusr1 | Clock | Send_pcb PCB | Send_str string

fun exec :: "event \<Rightarrow> config \<Rightarrow> config option" where
  "exec e Crashed = None"
| "exec Loop (At ph s) =
     (case ph of
        Guard \<Rightarrow> Some (if loop_guard s then At Receive s else At Done s)
      | Receive \<Rightarrow> Some (outcome Dispatch (check_for_new_processes s))
      | Dispatch \<Rightarrow> Some (outcome Running (dispatch s))
      | Running \<Rightarrow> Some (outcome Notice (handle_current_running_process s))
      | Notice \<Rightarrow> Some (At Guard (check_no_more_processes s))
      | Done \<Rightarrow> None)"
| "exec Sigusr2 (At ph s) =
     (if signal_ok s \<and> ph \<noteq> Done then Some (outcome ph (handle_process_tick s)) else None)"
| "exec Sigusr1 (At ph s) =
     (if signal_ok s \<and> ph \<noteq> Done then Some (outcome ph (handle_process_termination s)) else None)"
| "exec Clock (At ph s) = (if clk s < 2147483647 then Some (At ph (s\<lparr>clk := clk s + 1\<rparr>)) else None)"
| "exec (Send_pcb m) (At ph s) =
     (if msg_ok m \<and> int (pcb_brk s + length (msgs_pcb s)) < 1073741824
      then Some (At ph (s\<lparr>msgs_pcb := msgs_pcb s @ [m]\<rparr>)) else None)"
| "exec (Send_str str) (At ph s) = Some (At ph (s\<lparr>msgs_str := msgs_str s @ [str]\<rparr>))"

primrec exec_all :: "event list \<Rightarrow> config \<Rightarrow> config option" where
  "exec_all [] c = Some c"
| "exec_all (e # es) c = do { d \<leftarrow> exec e c; exec_all es d }"

lemma exec_step: "exec e c = Some d \<Longrightarrow> sched_step c d"
  by (induct e c rule: exec.induct)
    (auto split: phase.splits if_splits intro!: sched_step.intros)

lemma exec_all_reachable: "exec_all es c = Some d \<Longrightarrow> reachable b c \<Longrightarrow> reachable b d"
  by (induct es arbitrary: c) (auto simp: bind_eq_Some_conv dest: exec_step intro: reachable.step)

lemma signal_ok_code [code]:
  "signal_ok s \<longleftrightarrow> current_pcb s \<noteq> NULL \<and>
     (case pcb_heap s (current_pcb s) of None \<Rightarrow> False | Some pcb \<Rightarrow> 0 < remaining_time pcb) \<and>
     (selected_algorithm s = SRTN \<longrightarrow> front (rdy_queue s) = Some (Some (current_pcb s)))"
  by (auto simp: signal_ok_def split: option.splits)

end
