(* ===== verification/Scheduler_Accounts.thy ===== *)
theory Scheduler_Accounts
  imports Scheduler_Loop
begin

text \<open>
  What the scheduler's log and its totals say about the run: each finished process is logged once,
  the totals add up the logged values, and the waiting times fit the turnaround times.
\<close>

section \<open>The totals of the log\<close>

definition fin_entries :: "log_files \<Rightarrow> log_entry list" where
  "fin_entries f = filter (\<lambda>e. finished e \<noteq> None) (scheduler_log f)"

definition turnaround :: "log_entry \<Rightarrow> int" where
  "turnaround e = (case finished e of None \<Rightarrow> 0 | Some (ta, _) \<Rightarrow> ta)"

definition weighted :: "log_entry \<Rightarrow> real" where
  "weighted e = of_int (turnaround e) / of_int (total e)"

definition log_ok :: "log_files \<Rightarrow> bool" where
  "log_ok f \<longleftrightarrow> total_wait f = wrap32 (sum_list (map waited (fin_entries f))) \<and>
     total_WTA f = sum_list (map weighted (fin_entries f)) \<and>
     (\<forall>e \<in> set (fin_entries f). finished e = Some (turnaround e, round_number (weighted e)))"

lemma wrap32_add: "wrap32 (wrap32 a + b) = wrap32 (a + b)" "wrap32 (a + wrap32 b) = wrap32 (a + b)"
  "wrap32 (wrap32 a - b) = wrap32 (a - b)" "wrap32 (a - wrap32 b) = wrap32 (a - b)"
  "wrap32 (wrap32 a) = wrap32 a"
  by (simp_all add: wrap32_sint)

text \<open>The entry \<open>log_event\<close> writes.\<close>

definition entry_of :: "int \<Rightarrow> PCB \<Rightarrow> log_entry" where
  "entry_of now pcb =
     \<lparr>at_time = now, process_id = proc_id (PDATA pcb), event = the (state pcb),
      arr = arrival_time (PDATA pcb), total = runtime (PDATA pcb), remain = remaining_time pcb,
      waited = wait_time pcb,
      finished =
        (if state pcb = Some ''finished'' then
           (let ta = wrap32 (now - arrival_time (PDATA pcb))
            in Some (ta, round_number (of_int ta / of_int (runtime (PDATA pcb)))))
         else None)\<rparr>"

lemma log_event_entry:
  assumes "log_event now pcb f = Some f'"
  shows "scheduler_log f' = scheduler_log f @ [entry_of now pcb]" "proc_count f' = proc_count f"
    "state pcb \<noteq> Some ''finished'' \<Longrightarrow> total_wait f' = total_wait f \<and> total_WTA f' = total_WTA f"
    "state pcb = Some ''finished'' \<Longrightarrow> total_wait f' = wrap32 (total_wait f + wait_time pcb) \<and>
       total_WTA f' = total_WTA f + weighted (entry_of now pcb)"
proof -
  let ?WTA = "of_int (wrap32 (now - arrival_time (PDATA pcb))) / of_int (runtime (PDATA pcb)) :: real"
  from assms obtain st where st: "state pcb = Some st"
    by (cases "state pcb") (auto simp: log_event_def Let_def)
  have f': "f' = (if st = ''finished''
      then f\<lparr>total_WTA := total_WTA f + ?WTA, total_wait := wrap32 (total_wait f + wait_time pcb),
             scheduler_log := scheduler_log f @ [entry_of now pcb]\<rparr>
      else f\<lparr>scheduler_log := scheduler_log f @ [entry_of now pcb]\<rparr>)"
    using assms st
    by (cases "st = ''finished''"; cases "runtime (PDATA pcb) = 0")
      (simp_all add: log_event_def Let_def entry_of_def double_div_def)
  show "scheduler_log f' = scheduler_log f @ [entry_of now pcb]" "proc_count f' = proc_count f"
    "state pcb \<noteq> Some ''finished'' \<Longrightarrow> total_wait f' = total_wait f \<and> total_WTA f' = total_WTA f"
    using f' st by simp_all
  have "state pcb = Some ''finished'' \<Longrightarrow> weighted (entry_of now pcb) = ?WTA"
    by (simp add: weighted_def turnaround_def entry_of_def Let_def)
  then show "state pcb = Some ''finished'' \<Longrightarrow> total_wait f' = wrap32 (total_wait f + wait_time pcb) \<and>
       total_WTA f' = total_WTA f + weighted (entry_of now pcb)"
    using f' st by simp
qed

lemma fin_entries_log:
  assumes "log_event now pcb f = Some f'"
  shows "fin_entries f' = fin_entries f @ (if state pcb = Some ''finished'' then [entry_of now pcb] else [])"
  using log_event_entry(1) [OF assms] by (auto simp: fin_entries_def entry_of_def Let_def)

lemma log_event_log_ok:
  assumes "log_event now pcb f = Some f'" "log_ok f"
  shows "log_ok f'"
proof (cases "state pcb = Some ''finished''")
  case True
  have "finished (entry_of now pcb) = Some (turnaround (entry_of now pcb), round_number (weighted (entry_of now pcb)))"
    using True by (simp add: entry_of_def turnaround_def weighted_def Let_def)
  moreover have "waited (entry_of now pcb) = wait_time pcb" by (simp add: entry_of_def)
  ultimately show ?thesis
    using True assms(2) log_event_entry(4) [OF assms(1)] fin_entries_log [OF assms(1)]
    by (auto simp: log_ok_def wrap32_add add_ac)
next
  case False
  then show ?thesis using assms(2) log_event_entry(3) [OF assms(1)] fin_entries_log [OF assms(1)]
    by (simp add: log_ok_def)
qed

lemma log_ok_start: "log_ok (init_scheduler_log n)"
  by (simp add: log_ok_def init_scheduler_log_def fin_entries_def wrap32_def)

section \<open>Every finished process is logged once\<close>

definition fin_pcbs :: "(ptr \<rightharpoonup> PCB) \<Rightarrow> ptr set" where
  "fin_pcbs H = {p. \<exists>pcb. H p = Some pcb \<and> state pcb = Some ''finished''}"

definition ids_of :: "(ptr \<rightharpoonup> PCB) \<Rightarrow> int multiset" where
  "ids_of H = image_mset (\<lambda>p. proc_id (PDATA (the (H p)))) (mset_set (fin_pcbs H))"

definition accounts_ok :: "sched \<Rightarrow> bool" where
  "accounts_ok s \<longleftrightarrow> log_ok (files s) \<and> mset (map process_id (fin_entries (files s))) = ids_of (pcb_heap s)"

text \<open>An update of a PCB that keeps its data and does not finish it.\<close>

lemma ids_of_upd:
  assumes "finite (dom H)" "H p = None \<or> H p = Some old \<and> PDATA old = PDATA pcb \<and> state old \<noteq> Some ''finished''"
    "state pcb \<noteq> Some ''finished''"
  shows "ids_of (H(p \<mapsto> pcb)) = ids_of H"
proof -
  have "fin_pcbs (H(p \<mapsto> pcb)) = fin_pcbs H" using assms by (auto simp: fin_pcbs_def)
  moreover have "p \<notin> fin_pcbs H" using assms by (auto simp: fin_pcbs_def)
  moreover have "finite (fin_pcbs H)"
    using assms(1) by (rule finite_subset [rotated]) (auto simp: fin_pcbs_def)
  ultimately show ?thesis unfolding ids_of_def by (auto intro!: image_mset_cong)
qed

lemma ids_of_finish:
  assumes "finite (dom H)" "H p = Some old" "PDATA old = PDATA pcb" "state old \<noteq> Some ''finished''"
    "state pcb = Some ''finished''"
  shows "ids_of (H(p \<mapsto> pcb)) = add_mset (proc_id (PDATA pcb)) (ids_of H)"
proof -
  have f: "fin_pcbs (H(p \<mapsto> pcb)) = insert p (fin_pcbs H)" and p: "p \<notin> fin_pcbs H"
    using assms by (auto simp: fin_pcbs_def)
  have fin: "finite (fin_pcbs H)" using assms(1) by (rule finite_subset [rotated]) (auto simp: fin_pcbs_def)
  have "image_mset (\<lambda>q. proc_id (PDATA (the ((H(p \<mapsto> pcb)) q)))) (mset_set (fin_pcbs H)) = ids_of H"
    unfolding ids_of_def using p fin by (intro image_mset_cong) auto
  then show ?thesis using fin p unfolding ids_of_def f by simp
qed

text \<open>The two are kept by every function.\<close>

lemma core_finite: "sched_core s xs \<Longrightarrow> finite (dom (pcb_heap s))"
  by (auto simp: sched_core_def pcbs_ok_def)

lemma accounts_frame:
  "files s' = files s \<Longrightarrow> ids_of (pcb_heap s') = ids_of (pcb_heap s) \<Longrightarrow> accounts_ok s' = accounts_ok s"
  by (simp add: accounts_ok_def)

lemma accounts_not_finish:
  assumes "accounts_ok s" "log_event now pcb (files s) = Some (files s')" "state pcb \<noteq> Some ''finished''"
    "ids_of (pcb_heap s') = ids_of (pcb_heap s)"
  shows "accounts_ok s'"
  using assms log_event_log_ok [OF assms(2)] fin_entries_log [OF assms(2)]
  by (simp add: accounts_ok_def)

lemma accounts_finish:
  assumes "accounts_ok s" "log_event now pcb (files s) = Some (files s')" "state pcb = Some ''finished''"
    "ids_of (pcb_heap s') = add_mset (proc_id (PDATA pcb)) (ids_of (pcb_heap s))"
  shows "accounts_ok s'"
  using assms log_event_log_ok [OF assms(2)] fin_entries_log [OF assms(2)]
  by (simp add: accounts_ok_def entry_of_def)

text \<open>A process that is queued or running has not finished.\<close>

lemma live_not_finished:
  assumes "sched_core s xs" "p \<in> fst ` set xs \<or> p = current_pcb s" "pcb_heap s p = Some pcb"
  shows "state pcb \<noteq> Some ''finished''"
  using assms by (auto simp: sched_core_def finished_ok_def)

lemma accounts_receive:
  assumes "accounts_ok s" "sched_core s xs" "\<forall>m \<in> set ms. msg_ok m" "pcb_brk s + length ms \<le> queue_limit"
    "receive_all ms s = Some s'"
  shows "accounts_ok s'"
  using assms
proof (induct ms arbitrary: s xs)
  case Nil
  then show ?case by (auto simp: accounts_ok_def)
next
  case (Cons m ms)
  show ?case
  proof (cases "valid_pcb m")
    case False
    then show ?thesis using Cons.prems by (auto simp: accounts_ok_def)
  next
    case True
    with admit_core [OF Cons.prems(2) True] Cons.prems(3,4) obtain q xs' s1 where
      s1: "admit m s = Some s1" "s1 = s\<lparr>pcb_heap := (pcb_heap s)(pcb_brk s \<mapsto> m),
        pcb_brk := Suc (pcb_brk s), rdy_queue := q\<rparr>" "sched_core s1 xs'" by auto
    have "pcb_heap s (pcb_brk s) = None" using Cons.prems(2) by (auto simp: sched_core_def pcbs_ok_def)
    then have "ids_of (pcb_heap s1) = ids_of (pcb_heap s)"
      using Cons.prems(3) s1(2) by (simp add: ids_of_upd [OF core_finite [OF Cons.prems(2)]] msg_ok_def)
    then have "accounts_ok s1" using Cons.prems(1) accounts_frame [of s1 s] s1(2) by simp
    from Cons.hyps [OF this s1(3)] show ?thesis using Cons.prems(3-5) True s1(1,2) by simp
  qed
qed

lemma accounts_schedule:
  assumes "accounts_ok s" "sched_core s xs" "current_pcb s = NULL" "schedule_next_process s = Some s'"
  shows "accounts_ok s'"
proof (cases xs)
  case Nil
  then show ?thesis using assms schedule_next_Nil [of s] by simp
next
  case (Cons x ys)
  note core = assms(2) [unfolded Cons]
  obtain pcb q f where pcb: "pcb_heap s (fst x) = Some pcb"
    and f: "log_event (clk s) (dispatched (clk s) pcb) (files s) = Some f"
    and s': "s' = s\<lparr>current_pcb := fst x, rdy_queue := q,
      pcb_heap := (pcb_heap s)(fst x \<mapsto> dispatched (clk s) pcb),
      kills := kills s @ [(pid pcb, SIGCONT)], last_remain_time := remaining_time pcb,
      log_start_time := clk s, files := f\<rparr>"
    using schedule_next_Cons [OF core assms(3)] assms(4) by auto
  have "state pcb \<noteq> Some ''finished''" using live_not_finished [OF core _ pcb] by simp
  then have "ids_of (pcb_heap s') = ids_of (pcb_heap s)"
    using pcb s' by (simp add: ids_of_upd [OF core_finite [OF core]])
  then show ?thesis using accounts_not_finish [OF assms(1), of "clk s" "dispatched (clk s) pcb" s'] f s' by simp
qed

lemma accounts_expiration:
  assumes "accounts_ok s" "sched_core s xs" "current_pcb s \<noteq> NULL" "selected_algorithm s \<noteq> HPF"
    "handle_quantum_expiration s = Some s'"
  shows "accounts_ok s'"
proof -
  obtain pcb q f where pcb: "pcb_heap s (current_pcb s) = Some pcb"
    and f: "log_event (clk s) (pcb\<lparr>state := Some ''stopped''\<rparr>) (files s) = Some f"
    and s': "files s' = f" "pcb_heap s' = (pcb_heap s)(current_pcb s \<mapsto> pcb\<lparr>state := Some ''stopped''\<rparr>)"
    using handle_quantum_expiration_run [OF assms(2-4)] assms(5) by auto
  have "state pcb \<noteq> Some ''finished''" using live_not_finished [OF assms(2) _ pcb] by simp
  then have "ids_of (pcb_heap s') = ids_of (pcb_heap s)"
    using pcb s' by (simp add: ids_of_upd [OF core_finite [OF assms(2)]])
  then show ?thesis using accounts_not_finish [OF assms(1)] f s' by simp
qed

lemma accounts_termination:
  assumes "accounts_ok s" "sched_core s xs" "signal_ok s" "handle_process_termination s = Some s'"
  shows "accounts_ok s'"
proof -
  obtain pcb where pcb: "pcb_heap s (current_pcb s) = Some pcb" using assms(3) by (auto simp: signal_ok_def)
  obtain q f where f: "log_event (clk s) (terminated pcb) (files s) = Some f"
    and s': "files s' = f" "pcb_heap s' = (pcb_heap s)(current_pcb s \<mapsto> terminated pcb)"
    using handle_process_termination_run [OF assms(2,3) pcb] assms(4) by auto
  have "state pcb \<noteq> Some ''finished''" using live_not_finished [OF assms(2) _ pcb] by simp
  then have "ids_of (pcb_heap s') = add_mset (proc_id (PDATA (terminated pcb))) (ids_of (pcb_heap s))"
    using pcb s' by (simp add: ids_of_finish [OF core_finite [OF assms(2)]] terminated_def)
  then show ?thesis using accounts_finish [OF assms(1), of "clk s" "terminated pcb"] f s'
    by (simp add: terminated_def)
qed

lemma accounts_current:
  assumes acc: "accounts_ok s" and core: "sched_core s xs" and run: "handle_current_running_process s = Some s'"
  shows "accounts_ok s'"
  using core run
proof (cases rule: handle_current_cases)
  case same
  then show ?thesis using acc by simp
next
  case schedule
  then show ?thesis using accounts_schedule [OF acc core] by simp
next
  case (expire pcb r u)
  have "state pcb \<noteq> Some ''finished''" using live_not_finished [OF core _ expire(3)] by simp
  then have "ids_of (pcb_heap u) = ids_of (pcb_heap s)"
    using expire(3,7) by (simp add: put_pcb_def ids_of_upd [OF core_finite [OF core]])
  then have "accounts_ok u" using acc accounts_frame [of u s] expire(7) by (simp add: put_pcb_def)
  then show ?thesis using expire(1,2,7) accounts_expiration [OF _ expire(8) _ _ expire(9)]
    by (simp add: put_pcb_def)
qed

lemma accounts_tick:
  assumes acc: "accounts_ok s" and core: "sched_core s xs" and run: "handle_process_tick s = Some s'"
  shows "accounts_ok s'"
proof -
  obtain pcb where pcb: "pcb_heap s (current_pcb s) = Some pcb" and s': "files s' = files s"
    "pcb_heap s' = (pcb_heap s)(current_pcb s \<mapsto> pcb\<lparr>remaining_time := wrap32 (remaining_time pcb - 1)\<rparr>)"
    using run by (auto simp: handle_process_tick_def get_pcb_def put_pcb_def Let_def bind_eq_Some_conv
        split: if_splits)
  have "state pcb \<noteq> Some ''finished''" using live_not_finished [OF core _ pcb] by simp
  then show ?thesis using acc accounts_frame [OF s'(1)] s'(2) pcb
    by (simp add: ids_of_upd [OF core_finite [OF core]])
qed

lemma accounts_dispatch:
  assumes acc: "accounts_ok s" and core: "sched_core s xs" and run: "dispatch s = Some s'"
  shows "accounts_ok s'"
proof (cases "current_pcb s = NULL")
  case False
  then show ?thesis using run acc by (simp add: dispatch_def)
next
  case True
  let ?i = "if clk s > last_process_end_time s \<and> \<not> is_empty (rdy_queue s) then
      log_execution (Idle (last_process_end_time s) (clk s))
        (s\<lparr>idle_time := wrap32 (idle_time s + wrap32 (clk s - last_process_end_time s))\<rparr>) else s"
  have "accounts_ok ?i" using acc by (simp add: accounts_ok_def log_execution_def)
  moreover have "sched_core ?i xs" using core by (auto simp: sched_core_def log_execution_def)
  moreover have "current_pcb ?i = NULL" using True by (simp add: log_execution_def)
  moreover have "schedule_next_process ?i = Some s'" using run True by (simp add: dispatch_def)
  ultimately show ?thesis by (rule accounts_schedule)
qed

lemma accounts_check_for_new:
  assumes "sched_inv s" "accounts_ok s" "check_for_new_processes s = Some s'"
  shows "accounts_ok s'"
  using assms accounts_receive [of s _ "msgs_pcb s" s']
  by (auto simp: sched_inv_def sched_rep_def check_for_new_processes_def)

interpretation accounts: loop_invariant "\<lambda>s. sched_inv s \<and> accounts_ok s"
proof unfold_locales
  fix s assume i: "sched_inv s \<and> accounts_ok s"
  then have inv: "sched_inv s" and acc: "accounts_ok s" by auto
  show "\<exists>s'. check_for_new_processes s = Some s' \<and> sched_inv s' \<and> accounts_ok s'"
    using check_for_new_inv [OF inv] accounts_check_for_new [OF inv acc] by blast
  show "\<exists>s'. dispatch s = Some s' \<and> sched_inv s' \<and> accounts_ok s'"
    by (rule with_core [where Q = accounts_ok and g = dispatch and s = s, OF i dispatch_inv [OF inv]])
      (rule accounts_dispatch [OF acc])
  show "\<exists>s'. handle_current_running_process s = Some s' \<and> sched_inv s' \<and> accounts_ok s'"
    by (rule with_core [where Q = accounts_ok and g = handle_current_running_process and s = s,
          OF i handle_current_inv [OF inv]]) (rule accounts_current [OF acc])
  show "signal_ok s \<Longrightarrow> \<exists>s'. handle_process_tick s = Some s' \<and> sched_inv s' \<and> accounts_ok s'"
    by (rule with_core [where Q = accounts_ok and g = handle_process_tick and s = s,
          OF i handle_process_tick_inv [OF inv]]) (auto intro: accounts_tick [OF acc])
  show "signal_ok s \<Longrightarrow> \<exists>s'. handle_process_termination s = Some s' \<and> sched_inv s' \<and> accounts_ok s'"
    by (rule with_core [where Q = accounts_ok and g = handle_process_termination and s = s,
          OF i handle_process_termination_inv [OF inv]]) (auto intro: accounts_termination [OF acc])
  show "sched_inv (check_no_more_processes s) \<and> accounts_ok (check_no_more_processes s)"
    using i check_no_more_inv [of s]
    by (auto simp: check_no_more_processes_def accounts_ok_def Let_def split: list.splits)
  show "clk s < 2147483647 \<Longrightarrow> sched_inv (s\<lparr>clk := clk s + 1\<rparr>) \<and> accounts_ok (s\<lparr>clk := clk s + 1\<rparr>)"
    using i inv.clock [of s] by (auto simp: accounts_ok_def)
  fix m
  show "msg_ok m \<Longrightarrow> pcb_brk s + length (msgs_pcb s) < queue_limit \<Longrightarrow>
    sched_inv (s\<lparr>msgs_pcb := msgs_pcb s @ [m]\<rparr>) \<and> accounts_ok (s\<lparr>msgs_pcb := msgs_pcb s @ [m]\<rparr>)"
    using i inv.pcb_msg [of s m] by (auto simp: accounts_ok_def)
  fix str
  show "sched_inv (s\<lparr>msgs_str := msgs_str s @ [str]\<rparr>) \<and> accounts_ok (s\<lparr>msgs_str := msgs_str s @ [str]\<rparr>)"
    using i inv.str_msg [of s str] by (auto simp: accounts_ok_def)
qed

lemma accounts_start: "accounts_ok (run_scheduler name q n now)"
  using log_ok_start [of n]
  by (simp add: accounts_ok_def run_scheduler_def Let_def ids_of_def fin_pcbs_def
      fin_entries_def init_scheduler_log_def)

section \<open>Waiting times\<close>

text \<open>
  A process that has not started has its whole run time left, and the waiting time of the running one
  is what has passed since its arrival up to its dispatch, less what it had run by then.
\<close>

definition wait_ok :: "sched \<Rightarrow> bool" where
  "wait_ok s \<longleftrightarrow> 0 \<le> clk s \<and>
     (\<forall>p pcb. pcb_heap s p = Some pcb \<longrightarrow> start_time pcb = - 1 \<longrightarrow>
        remaining_time pcb = runtime (PDATA pcb) \<and> (p \<noteq> NULL \<longrightarrow> p \<noteq> current_pcb s)) \<and>
     (\<forall>pcb. current_pcb s \<noteq> NULL \<longrightarrow> pcb_heap s (current_pcb s) = Some pcb \<longrightarrow>
        wait_time pcb = wrap32 (log_start_time s - arrival_time (PDATA pcb) -
          (runtime (PDATA pcb) - last_remain_time s)))"

lemma wait_frame:
  "pcb_heap s' = pcb_heap s \<Longrightarrow> current_pcb s' = current_pcb s \<Longrightarrow> clk s' = clk s \<Longrightarrow>
   log_start_time s' = log_start_time s \<Longrightarrow> last_remain_time s' = last_remain_time s \<Longrightarrow>
   wait_ok s' = wait_ok s"
  by (simp add: wait_ok_def)

lemma dispatched_wait:
  assumes "start_time pcb = - 1 \<Longrightarrow> remaining_time pcb = runtime (PDATA pcb)"
  shows "wait_time (dispatched now pcb) =
    wrap32 (now - arrival_time (PDATA pcb) - (runtime (PDATA pcb) - remaining_time pcb))"
  using assms by (simp add: dispatched_def wrap32_add)

lemma dispatched_start: "0 \<le> now \<Longrightarrow> start_time (dispatched now pcb) \<noteq> - 1"
  by (simp add: dispatched_def)

lemma wait_receive:
  assumes "wait_ok s" "sched_core s xs" "\<forall>m \<in> set ms. msg_ok m" "pcb_brk s + length ms \<le> queue_limit"
    "receive_all ms s = Some s'"
  shows "wait_ok s'"
  using assms
proof (induct ms arbitrary: s xs)
  case Nil
  then show ?case using wait_frame [of s' s] by auto
next
  case (Cons m ms)
  show ?case
  proof (cases "valid_pcb m")
    case False
    then show ?thesis using Cons.prems wait_frame [of s' s] by auto
  next
    case True
    with admit_core [OF Cons.prems(2) True] Cons.prems(3,4) obtain q xs' s1 where
      s1: "admit m s = Some s1" "s1 = s\<lparr>pcb_heap := (pcb_heap s)(pcb_brk s \<mapsto> m),
        pcb_brk := Suc (pcb_brk s), rdy_queue := q\<rparr>" "sched_core s1 xs'" by auto
    have "pcb_heap s (pcb_brk s) = None" "pcb_brk s \<noteq> NULL"
      using Cons.prems(2) by (auto simp: sched_core_def pcbs_ok_def)
    moreover have "current_pcb s \<noteq> NULL \<Longrightarrow> pcb_heap s (current_pcb s) \<noteq> None"
      using Cons.prems(2) by (auto simp: sched_core_def current_ok_def)
    ultimately have "pcb_brk s \<noteq> current_pcb s" by auto
    then have "wait_ok s1" using Cons.prems(1,3) s1(2) by (simp add: wait_ok_def msg_ok_def)
    from Cons.hyps [OF this s1(3)] show ?thesis using Cons.prems(3-5) True s1(1,2) by simp
  qed
qed

lemma wait_schedule:
  assumes "wait_ok s" "sched_core s xs" "current_pcb s = NULL" "schedule_next_process s = Some s'"
  shows "wait_ok s'"
proof (cases xs)
  case Nil
  then show ?thesis using assms schedule_next_Nil [of s] by simp
next
  case (Cons x ys)
  note core = assms(2) [unfolded Cons]
  obtain pcb q f where pcb: "pcb_heap s (fst x) = Some pcb"
    and s': "s' = s\<lparr>current_pcb := fst x, rdy_queue := q,
      pcb_heap := (pcb_heap s)(fst x \<mapsto> dispatched (clk s) pcb),
      kills := kills s @ [(pid pcb, SIGCONT)], last_remain_time := remaining_time pcb,
      log_start_time := clk s, files := f\<rparr>"
    using schedule_next_Cons [OF core assms(3)] assms(4) by auto
  have "start_time pcb = - 1 \<Longrightarrow> remaining_time pcb = runtime (PDATA pcb)" and "0 \<le> clk s"
    using assms(1) pcb by (auto simp: wait_ok_def)
  note this dispatched_wait [OF this(1)] dispatched_start [OF this(2)]
  then show ?thesis using assms(1) s' by (auto simp: wait_ok_def)
qed

lemma wait_upd_current:
  assumes w: "wait_ok s" and c: "current_pcb s \<noteq> NULL" "pcb_heap s (current_pcb s) = Some pcb"
    and pcb': "PDATA pcb' = PDATA pcb" "start_time pcb' = start_time pcb" "wait_time pcb' = wait_time pcb"
    and s': "pcb_heap s' = (pcb_heap s)(current_pcb s \<mapsto> pcb')" "clk s' = clk s"
    "current_pcb s' = NULL \<or> current_pcb s' = current_pcb s \<and>
       log_start_time s' = log_start_time s \<and> last_remain_time s' = last_remain_time s"
  shows "wait_ok s'"
proof -
  have st: "start_time pcb' \<noteq> - 1" using w c pcb'(2) unfolding wait_ok_def by metis
  show ?thesis using w st s' c pcb'(1,3) unfolding wait_ok_def by auto
qed

lemma wait_current:
  assumes w: "wait_ok s" and core: "sched_core s xs" and run: "handle_current_running_process s = Some s'"
  shows "wait_ok s'"
  using core run
proof (cases rule: handle_current_cases)
  case same
  then show ?thesis using w by simp
next
  case schedule
  then show ?thesis using wait_schedule [OF w core] by simp
next
  case (expire pcb r u)
  have u: "wait_ok u" using expire(2,3,7) by (intro wait_upd_current [OF w]) (auto simp: put_pcb_def)
  have c: "current_pcb u \<noteq> NULL" "selected_algorithm u \<noteq> HPF"
    using expire(1,2,7) by (simp_all add: put_pcb_def)
  obtain pcb' where "pcb_heap u (current_pcb u) = Some pcb'" and
    "pcb_heap s' = (pcb_heap u)(current_pcb u \<mapsto> pcb'\<lparr>state := Some ''stopped''\<rparr>)"
    "clk s' = clk u" "current_pcb s' = NULL"
    using handle_quantum_expiration_run [OF expire(8) c] expire(9) by auto
  then show ?thesis using c by (intro wait_upd_current [OF u]) auto
qed

lemma wait_tick:
  assumes w: "wait_ok s" and sig: "signal_ok s" and run: "handle_process_tick s = Some s'"
  shows "wait_ok s'"
proof -
  obtain pcb where pcb: "pcb_heap s (current_pcb s) = Some pcb" and
    "pcb_heap s' = (pcb_heap s)(current_pcb s \<mapsto> pcb\<lparr>remaining_time := wrap32 (remaining_time pcb - 1)\<rparr>)"
    "clk s' = clk s" "current_pcb s' = current_pcb s" "log_start_time s' = log_start_time s"
    "last_remain_time s' = last_remain_time s"
    using run by (auto simp: handle_process_tick_def get_pcb_def put_pcb_def Let_def bind_eq_Some_conv
        split: if_splits)
  then show ?thesis using sig by (intro wait_upd_current [OF w _ pcb]) (auto simp: signal_ok_def)
qed

lemma wait_termination:
  assumes w: "wait_ok s" and core: "sched_core s xs" and sig: "signal_ok s"
    and run: "handle_process_termination s = Some s'"
  shows "wait_ok s'"
proof -
  obtain pcb where pcb: "pcb_heap s (current_pcb s) = Some pcb" using sig by (auto simp: signal_ok_def)
  have "pcb_heap s' = (pcb_heap s)(current_pcb s \<mapsto> terminated pcb)" "clk s' = clk s" "current_pcb s' = NULL"
    using handle_process_termination_run [OF core sig pcb] run by auto
  then show ?thesis using sig
    by (intro wait_upd_current [OF w _ pcb]) (auto simp: signal_ok_def terminated_def)
qed

lemma wait_dispatch:
  assumes w: "wait_ok s" and core: "sched_core s xs" and run: "dispatch s = Some s'"
  shows "wait_ok s'"
proof (cases "current_pcb s = NULL")
  case False
  then show ?thesis using run w by (simp add: dispatch_def)
next
  case True
  let ?i = "if clk s > last_process_end_time s \<and> \<not> is_empty (rdy_queue s) then
      log_execution (Idle (last_process_end_time s) (clk s))
        (s\<lparr>idle_time := wrap32 (idle_time s + wrap32 (clk s - last_process_end_time s))\<rparr>) else s"
  have "wait_ok ?i" using w by (simp add: wait_ok_def log_execution_def)
  moreover have "sched_core ?i xs" using core by (auto simp: sched_core_def log_execution_def)
  moreover have "current_pcb ?i = NULL" using True by (simp add: log_execution_def)
  moreover have "schedule_next_process ?i = Some s'" using run True by (simp add: dispatch_def)
  ultimately show ?thesis by (rule wait_schedule)
qed

lemma wait_check_for_new:
  assumes "sched_inv s" "wait_ok s" "check_for_new_processes s = Some s'"
  shows "wait_ok s'"
  using assms wait_receive [of s _ "msgs_pcb s" s']
  by (auto simp: sched_inv_def sched_rep_def check_for_new_processes_def)

interpretation waits: loop_invariant "\<lambda>s. sched_inv s \<and> wait_ok s"
proof unfold_locales
  fix s assume i: "sched_inv s \<and> wait_ok s"
  then have inv: "sched_inv s" and w: "wait_ok s" by auto
  show "\<exists>s'. check_for_new_processes s = Some s' \<and> sched_inv s' \<and> wait_ok s'"
    using check_for_new_inv [OF inv] wait_check_for_new [OF inv w] by blast
  show "\<exists>s'. dispatch s = Some s' \<and> sched_inv s' \<and> wait_ok s'"
    by (rule with_core [where Q = wait_ok and g = dispatch and s = s, OF i dispatch_inv [OF inv]])
      (rule wait_dispatch [OF w])
  show "\<exists>s'. handle_current_running_process s = Some s' \<and> sched_inv s' \<and> wait_ok s'"
    by (rule with_core [where Q = wait_ok and g = handle_current_running_process and s = s,
          OF i handle_current_inv [OF inv]]) (rule wait_current [OF w])
  show "signal_ok s \<Longrightarrow> \<exists>s'. handle_process_tick s = Some s' \<and> sched_inv s' \<and> wait_ok s'"
    by (rule with_core [where Q = wait_ok and g = handle_process_tick and s = s,
          OF i handle_process_tick_inv [OF inv]]) (auto intro: wait_tick [OF w])
  show "signal_ok s \<Longrightarrow> \<exists>s'. handle_process_termination s = Some s' \<and> sched_inv s' \<and> wait_ok s'"
    by (rule with_core [where Q = wait_ok and g = handle_process_termination and s = s,
          OF i handle_process_termination_inv [OF inv]]) (auto intro: wait_termination [OF w])
  show "sched_inv (check_no_more_processes s) \<and> wait_ok (check_no_more_processes s)"
    using i check_no_more_inv [of s]
    by (auto simp: check_no_more_processes_def wait_ok_def Let_def split: list.splits)
  show "clk s < 2147483647 \<Longrightarrow> sched_inv (s\<lparr>clk := clk s + 1\<rparr>) \<and> wait_ok (s\<lparr>clk := clk s + 1\<rparr>)"
    using i inv.clock [of s] by (simp add: wait_ok_def)
  fix m
  show "msg_ok m \<Longrightarrow> pcb_brk s + length (msgs_pcb s) < queue_limit \<Longrightarrow>
    sched_inv (s\<lparr>msgs_pcb := msgs_pcb s @ [m]\<rparr>) \<and> wait_ok (s\<lparr>msgs_pcb := msgs_pcb s @ [m]\<rparr>)"
    using i inv.pcb_msg [of s m] by (simp add: wait_ok_def)
  fix str
  show "sched_inv (s\<lparr>msgs_str := msgs_str s @ [str]\<rparr>) \<and> wait_ok (s\<lparr>msgs_str := msgs_str s @ [str]\<rparr>)"
    using i inv.str_msg [of s str] by (simp add: wait_ok_def)
qed

lemma wait_start: "0 \<le> now \<Longrightarrow> wait_ok (run_scheduler name q n now)"
  by (simp add: wait_ok_def run_scheduler_def Let_def)

end
