(* ===== verification/Scheduler_View.thy ===== *)
theory Scheduler_View
  imports Scheduler_Accounts
begin

text \<open>
  What the rest of the system sees of the scheduler: which PCBs it has received, how much time each
  process has left and whether it is finished, which one runs, and the signals sent. Every function of
  the scheduler is one of four moves on this view.
\<close>

definition brief :: "PCB \<Rightarrow> int \<times> Process \<times> int \<times> bool" where
  "brief c = (pid c, PDATA c, remaining_time c, state c = Some ''finished'')"

definition pview :: "sched \<Rightarrow> ptr \<Rightarrow> (int \<times> Process \<times> int \<times> bool) option" where
  "pview s p = map_option brief (pcb_heap s p)"

definition outside :: "sched \<Rightarrow> int \<times> ptr \<times> PCB list \<times> SchedulingAlgorithm" where
  "outside s = (clk s, pcb_brk s, msgs_pcb s, selected_algorithm s)"

lemma pview_upd: "pcb_heap s' = (pcb_heap s)(p \<mapsto> c) \<Longrightarrow> pview s' = (pview s)(p \<mapsto> brief c)"
  by (auto simp: pview_def)

lemma queued_unfinished:
  assumes "sched_core s xs" "x \<in> set xs" "pcb_heap s (fst x) = Some c"
  shows "state c \<noteq> Some ''finished''"
  using assms by (auto simp: sched_core_def finished_ok_def)

lemma schedule_view:
  assumes core: "sched_core s xs" and null: "current_pcb s = NULL" and run: "schedule_next_process s = Some s'"
  shows "pview s' = pview s \<and> outside s' = outside s \<and>
    (s' = s \<or> (\<exists>c. current_pcb s' \<noteq> NULL \<and> pcb_heap s (current_pcb s') = Some c \<and>
       state c \<noteq> Some ''finished'' \<and> kills s' = kills s @ [(pid c, SIGCONT)]))"
proof (cases xs)
  case Nil
  then show ?thesis using schedule_next_Nil core run by auto
next
  case (Cons x ys)
  obtain pcb q f where c: "pcb_heap s (fst x) = Some pcb" "pcb_ok pcb" and s': "s' = s\<lparr>current_pcb := fst x,
      rdy_queue := q, pcb_heap := (pcb_heap s)(fst x \<mapsto> dispatched (clk s) pcb),
      kills := kills s @ [(pid pcb, SIGCONT)], last_remain_time := remaining_time pcb,
      log_start_time := clk s, files := f\<rparr>"
    using schedule_next_Cons [OF core [unfolded Cons] null] run by auto
  have u: "state pcb \<noteq> Some ''finished''" using queued_unfinished [OF core _ c(1)] Cons by simp
  have "brief (dispatched (clk s) pcb) = brief pcb" using u by (simp add: brief_def)
  then have "pview s' = pview s" using c(1) by (auto simp: pview_def s' fun_eq_iff)
  moreover have "pcbs_ok (pcb_heap s) (pcb_brk s)" using core by (simp add: sched_core_def)
  then have "fst x \<noteq> NULL" by (rule pcbs_ok_get(2)) (rule c(1))
  ultimately show ?thesis using c(1) u by (simp add: s' outside_def)
qed

lemma dispatch_view:
  assumes core: "sched_core s xs" and run: "dispatch s = Some s'"
  shows "pview s' = pview s \<and> outside s' = outside s \<and>
    (current_pcb s' = current_pcb s \<and> kills s' = kills s \<or>
     current_pcb s = NULL \<and> (\<exists>c. current_pcb s' \<noteq> NULL \<and> pcb_heap s (current_pcb s') = Some c \<and>
       state c \<noteq> Some ''finished'' \<and> kills s' = kills s @ [(pid c, SIGCONT)]))"
proof (cases "current_pcb s = NULL")
  case False
  then show ?thesis using run by (simp add: dispatch_def)
next
  case True
  let ?i = "if clk s > last_process_end_time s \<and> \<not> is_empty (rdy_queue s) then
      log_execution (Idle (last_process_end_time s) (clk s))
        (s\<lparr>idle_time := wrap32 (idle_time s + wrap32 (clk s - last_process_end_time s))\<rparr>) else s"
  have i: "sched_core ?i xs" "current_pcb ?i = NULL" "pview ?i = pview s" "outside ?i = outside s"
    "kills ?i = kills s" "pcb_heap ?i = pcb_heap s"
    using core True by (auto simp: sched_core_def log_execution_def pview_def outside_def)
  have "schedule_next_process ?i = Some s'" using run True by (simp add: dispatch_def)
  from schedule_view [OF i(1,2) this] i True show ?thesis by auto
qed

lemma current_view:
  assumes core: "sched_core s xs" and run: "handle_current_running_process s = Some s'"
  shows "outside s' = outside s \<and>
    (pview s' = pview s \<and> current_pcb s' = current_pcb s \<and> kills s' = kills s \<or>
     pview s' = pview s \<and> current_pcb s = NULL \<and> (\<exists>c. current_pcb s' \<noteq> NULL \<and>
       pcb_heap s (current_pcb s') = Some c \<and> state c \<noteq> Some ''finished'' \<and>
       kills s' = kills s @ [(pid c, SIGCONT)]) \<or>
     (\<exists>c r. current_pcb s \<noteq> NULL \<and> pcb_heap s (current_pcb s) = Some c \<and> remaining_time c \<le> r \<and>
       pview s' = (pview s)(current_pcb s \<mapsto> (pid c, PDATA c, r, False)) \<and> current_pcb s' = NULL \<and>
       kills s' = kills s @ [(pid c, SIGSTOP)]))"
  using core run
proof (cases rule: handle_current_cases)
  case same
  then show ?thesis by simp
next
  case schedule
  then show ?thesis using schedule_view [OF core schedule(2,3)] by auto
next
  case (expire pcb r t)
  let ?c = "current_pcb s"
  have t: "current_pcb t = ?c" "kills t = kills s" "outside t = outside s"
    "pcb_heap t = (pcb_heap s)(?c \<mapsto> pcb\<lparr>remaining_time := r\<rparr>)" "selected_algorithm t = selected_algorithm s"
    by (simp_all add: expire(7) put_pcb_def outside_def)
  obtain q f where s': "s' = t\<lparr>execution_log := execution_log t @
        [Runs (proc_id (PDATA pcb)) (runtime (PDATA pcb)) (log_start_time t) (clk t) r],
      last_process_end_time := clk t, kills := kills t @ [(pid pcb, SIGSTOP)],
      pcb_heap := (pcb_heap t)(?c \<mapsto> pcb\<lparr>remaining_time := r, state := Some ''stopped''\<rparr>), files := f,
      current_pcb := NULL, rdy_queue := q, log_start_time := 0\<rparr>"
    using handle_quantum_expiration_run [OF expire(8)] expire(1,2,9) t by auto
  have "pview s' = (pview s)(?c \<mapsto> (pid pcb, PDATA pcb, r, False))"
    by (auto simp: pview_def s' t brief_def)
  moreover have "outside s' = outside s" "current_pcb s' = NULL" "kills s' = kills s @ [(pid pcb, SIGSTOP)]"
    using t(2,3) by (simp_all add: s' outside_def)
  ultimately show ?thesis using expire(2,3,4) by blast
qed

lemma tick_view:
  assumes core: "sched_core s xs" and sig: "signal_ok s" and run: "handle_process_tick s = Some s'"
    and c: "pcb_heap s (current_pcb s) = Some c"
  shows "outside s' = outside s \<and> current_pcb s' = current_pcb s \<and> kills s' = kills s \<and>
    pview s' = (pview s)(current_pcb s \<mapsto> (pid c, PDATA c, remaining_time c - 1, False))"
proof -
  have p: "pcb_ok c" "current_pcb s \<noteq> NULL" "0 < remaining_time c"
    using core c sig pcbs_ok_get(1) [of "pcb_heap s" "pcb_brk s"] by (auto simp: sched_core_def signal_ok_def)
  have u: "state c \<noteq> Some ''finished''" using core c p(2) by (auto simp: sched_core_def finished_ok_def)
  note w = prio_ok_pred [OF p(1,3)]
  have "pview s' = (pview s)(current_pcb s \<mapsto> brief (c\<lparr>remaining_time := remaining_time c - 1\<rparr>))"
    using run c p(2) w by (intro pview_upd)
      (auto simp: handle_process_tick_def get_pcb_def Let_def put_pcb_def split: if_splits)
  moreover have "brief (c\<lparr>remaining_time := remaining_time c - 1\<rparr>) = (pid c, PDATA c, remaining_time c - 1, False)"
    using u by (simp add: brief_def)
  moreover have "outside s' = outside s \<and> current_pcb s' = current_pcb s \<and> kills s' = kills s"
    using run by (auto simp: handle_process_tick_def bind_eq_Some_conv Let_def put_pcb_def outside_def split: if_splits)
  ultimately show ?thesis by simp
qed

lemma termination_view:
  assumes core: "sched_core s xs" and sig: "signal_ok s" and run: "handle_process_termination s = Some s'"
    and c: "pcb_heap s (current_pcb s) = Some c"
  shows "outside s' = outside s \<and> current_pcb s' = NULL \<and> kills s' = kills s \<and>
    pview s' = (pview s)(current_pcb s \<mapsto> (pid c, PDATA c, remaining_time c - 1, True))"
proof -
  obtain q f where s': "s' = s\<lparr>execution_log := execution_log s @
        [Finishes (proc_id (PDATA c)) (runtime (PDATA c)) (log_start_time s) (clk s)],
      last_process_end_time := clk s, rdy_queue := q,
      pcb_heap := (pcb_heap s)(current_pcb s \<mapsto> terminated c), files := f,
      current_pcb := NULL, last_remain_time := 0, log_start_time := 0\<rparr>"
    using handle_process_termination_run [OF core sig c] run by auto
  have "brief (terminated c) = (pid c, PDATA c, remaining_time c - 1, True)"
    by (simp add: brief_def terminated_def)
  then show ?thesis by (auto simp: s' outside_def pview_def)
qed

lemma receive_view:
  "receive_all ms s = Some s' \<Longrightarrow> \<forall>m \<in> set ms. valid_pcb m \<Longrightarrow>
   clk s' = clk s \<and> selected_algorithm s' = selected_algorithm s \<and> current_pcb s' = current_pcb s \<and>
   kills s' = kills s \<and> msgs_pcb s' = [] \<and> pcb_brk s' = pcb_brk s + length ms \<and>
   (\<forall>p. pcb_heap s' p = (if pcb_brk s \<le> p \<and> p < pcb_brk s + length ms then Some (ms ! (p - pcb_brk s))
      else pcb_heap s p))"
proof (induct ms arbitrary: s)
  case Nil
  then show ?case by auto
next
  case (Cons m ms)
  then obtain t where t: "admit m s = Some t" "receive_all ms t = Some s'"
    by (auto simp: bind_eq_Some_conv)
  have f: "clk t = clk s" "selected_algorithm t = selected_algorithm s" "current_pcb t = current_pcb s"
    "kills t = kills s" "pcb_brk t = Suc (pcb_brk s)" "pcb_heap t = (pcb_heap s)(pcb_brk s \<mapsto> m)"
    using t(1) by (auto simp: admit_def Let_def bind_eq_Some_conv)
  have h: "pcb_heap s' p = (if pcb_brk s \<le> p \<and> p < pcb_brk s + length (m # ms)
      then Some ((m # ms) ! (p - pcb_brk s)) else pcb_heap s p)" for p
    using Cons.hyps [OF t(2)] Cons.prems(2) f
    by (cases "p = pcb_brk s") (auto simp: nth_Cons' Suc_le_eq)
  show ?case using Cons.hyps [OF t(2)] Cons.prems(2) f h by simp
qed

text \<open>The five turns of the loop, as moves on the view.\<close>

lemma loop_moves:
  assumes inv: "sched_inv s" and run: "exec Loop (At ph s) = Some (At ph' s')"
    and valid: "\<forall>m \<in> set (msgs_pcb s). valid_pcb m"
  obtains (quiet) "outside s' = outside s" "pview s' = pview s" "current_pcb s' = current_pcb s" "kills s' = kills s"
  | (receive) "clk s' = clk s" "selected_algorithm s' = selected_algorithm s" "current_pcb s' = current_pcb s"
      "kills s' = kills s" "msgs_pcb s' = []" "pcb_brk s' = pcb_brk s + length (msgs_pcb s)"
      "\<And>p. pcb_heap s' p = (if pcb_brk s \<le> p \<and> p < pcb_brk s + length (msgs_pcb s)
         then Some (msgs_pcb s ! (p - pcb_brk s)) else pcb_heap s p)"
  | (begin_run) c where "outside s' = outside s" "pview s' = pview s" "current_pcb s = NULL" "current_pcb s' \<noteq> NULL"
      "pcb_heap s (current_pcb s') = Some c" "state c \<noteq> Some ''finished''" "kills s' = kills s @ [(pid c, SIGCONT)]"
  | (end_run) c r where "outside s' = outside s" "current_pcb s \<noteq> NULL" "pcb_heap s (current_pcb s) = Some c"
      "remaining_time c \<le> r" "pview s' = (pview s)(current_pcb s \<mapsto> (pid c, PDATA c, r, False))"
      "current_pcb s' = NULL" "kills s' = kills s @ [(pid c, SIGSTOP)]"
proof -
  obtain xs where core: "sched_core s xs" using inv by (auto simp: sched_inv_def sched_rep_def)
  show thesis
  proof (cases ph)
    case Guard
    then show thesis using run quiet by (simp split: if_splits)
  next
    case Receive
    then have "receive_all (msgs_pcb s) s = Some s'"
      using run by (auto simp: outcome_def check_for_new_processes_def split: option.splits)
    from receive_view [OF this valid] show thesis by (intro receive) auto
  next
    case Dispatch
    then have "dispatch s = Some s'" using run by (auto simp: outcome_def split: option.splits)
    from dispatch_view [OF core this] show thesis using quiet begin_run by blast
  next
    case Running
    then have "handle_current_running_process s = Some s'" using run by (auto simp: outcome_def split: option.splits)
    from current_view [OF core this] show thesis using quiet begin_run end_run by blast
  next
    case Notice
    then have "s' = check_no_more_processes s" using run by simp
    then show thesis
      by (intro quiet) (auto simp: check_no_more_processes_def Let_def outside_def pview_def split: list.splits)
  next
    case Done
    then show thesis using run by simp
  qed
qed

text \<open>Only \<open>check_no_more_processes\<close> reads the string messages.\<close>

definition notices :: "sched \<Rightarrow> string list \<times> int" where
  "notices s = (msgs_str s, no_more_processes s)"

lemma receive_notices: "receive_all ms s = Some s' \<Longrightarrow> notices s' = notices s"
proof (induct ms arbitrary: s)
  case Nil
  then show ?case by (auto simp: notices_def)
next
  case (Cons m ms)
  have "admit m s = Some t \<Longrightarrow> notices t = notices s" for t
    by (auto simp: admit_def Let_def bind_eq_Some_conv notices_def)
  with Cons show ?case
    by (auto simp: bind_eq_Some_conv split: if_splits) (auto simp: notices_def)
qed

lemma log_notices: "log_pcb pcb s = Some s' \<Longrightarrow> notices s' = notices s"
  by (auto simp: log_pcb_def notices_def bind_eq_Some_conv)

lemma schedule_notices: "schedule_next_process s = Some s' \<Longrightarrow> notices s' = notices s"
  by (auto simp: schedule_next_process_def Let_def bind_eq_Some_conv notices_def put_pcb_def kill_pcb_def
      split: if_splits dest!: log_notices)

lemma expiration_notices: "handle_quantum_expiration s = Some s' \<Longrightarrow> notices s' = notices s"
  by (auto simp: handle_quantum_expiration_def Let_def bind_eq_Some_conv notices_def put_pcb_def kill_pcb_def
      log_execution_def split: if_splits dest!: log_notices)

lemma signal_notices:
  "handle_process_tick s = Some s' \<Longrightarrow> notices s' = notices s"
  "handle_process_termination s = Some s' \<Longrightarrow> notices s' = notices s"
  by (auto simp: handle_process_tick_def handle_process_termination_def Let_def bind_eq_Some_conv notices_def
      put_pcb_def log_execution_def split: if_splits dest!: log_notices)

lemma loop_notices:
  assumes "exec Loop (At ph s) = Some (At ph' s')"
  shows "notices s' = (if ph = Notice then notices (check_no_more_processes s) else notices s)"
proof (cases ph)
  case Dispatch
  then show ?thesis using assms
    by (auto simp: outcome_def dispatch_def notices_def log_execution_def split: option.splits if_splits
        dest!: schedule_notices)
next
  case Running
  then have "handle_current_running_process s = Some s'" using assms(1) by (auto simp: outcome_def split: option.splits)
  then show ?thesis using Running
    by (auto simp: handle_current_running_process_def Let_def bind_eq_Some_conv notices_def put_pcb_def
        split: SchedulingAlgorithm.splits if_splits dest!: expiration_notices schedule_notices)
next
  case Receive
  then show ?thesis using assms receive_notices
    by (auto simp: outcome_def check_for_new_processes_def split: option.splits)
qed (use assms in \<open>auto split: if_splits\<close>)

lemma no_more_notices:
  "notices (check_no_more_processes s) =
     (case msgs_str s of [] \<Rightarrow> notices s
      | m # ms \<Rightarrow> (ms, if m = ''no_more_processes'' then 1 else no_more_processes s))"
  by (simp add: check_no_more_processes_def notices_def Let_def split: list.splits)

end
