(* ===== verification/Process_Run.thy ===== *)
theory Process_Run
  imports Scheduler
begin

text \<open>
  process.c and clk.c: the shared clock, and the process that the generator forks for every entry of
  the input file, which counts the changes of the clock it sees and reports each to the scheduler.
\<close>

section \<open>The clock\<close>

text \<open>
  The shared memory segment (\<open>None\<close> until \<open>init_clk\<close> creates it) and whether \<open>shmaddr\<close> is attached.
\<close>

record clock =
  shm :: "int option"
  attached :: bool

text \<open>
  \<open>init_clk\<close> with the results of \<open>shmget\<close> and \<open>shmat\<close> (\<open>mapped\<close>): an exit code, or \<open>None\<close> when it returns.
  \<open>shmget\<close> creates a segment of zeros unless there is one. The \<open>shmaddr\<close> it sets is a local variable:
  only \<open>sync_clk\<close> attaches the clock.
\<close>

definition init_clk :: "int \<Rightarrow> bool \<Rightarrow> clock \<Rightarrow> int option \<times> clock" where
  "init_clk shmid mapped c =
     (if shmid = - 1 then (Some (- 1), c)
      else let c = c\<lparr>shm := (case shm c of None \<Rightarrow> Some 0 | Some t \<Rightarrow> Some t)\<rparr> in
        if mapped then (None, c\<lparr>shm := Some 0\<rparr>) else (Some (- 1), c))"

text \<open>One round of \<open>run_clk\<close>.\<close>

definition run_clk :: "clock \<Rightarrow> clock option" where
  "run_clk c = (if attached c then do { t \<leftarrow> shm c; Some (c\<lparr>shm := Some (wrap32 (t + 1))\<rparr>) } else None)"

definition get_clk :: "clock \<Rightarrow> int option" where
  "get_clk c = (if attached c then shm c else None)"

text \<open>One try of \<open>sync_clk\<close>: without a segment (\<open>None\<close>) it sleeps and tries again.\<close>

definition sync_clk :: "clock \<Rightarrow> clock option" where
  "sync_clk c = (case shm c of None \<Rightarrow> None | Some _ \<Rightarrow> Some (c\<lparr>attached := True\<rparr>))"

text \<open>
  \<open>_cleanup\<close>, the clock's SIGINT handler, and \<open>destroy_clk\<close>; the flag returned says whether the whole
  process group is interrupted.
\<close>

definition clk_cleanup :: "clock \<Rightarrow> clock" where
  "clk_cleanup c = c\<lparr>shm := None\<rparr>"

definition destroy_clk :: "int \<Rightarrow> clock \<Rightarrow> bool \<times> clock" where
  "destroy_clk terminateAll c = (terminateAll \<noteq> 0, c\<lparr>attached := False\<rparr>)"

primrec run_clk_times :: "nat \<Rightarrow> clock \<Rightarrow> clock option" where
  "run_clk_times 0 c = Some c"
| "run_clk_times (Suc n) c = do { c \<leftarrow> run_clk c; run_clk_times n c }"

lemma clock_runs:
  assumes "t + int n < 2147483648" "0 \<le> t"
  shows "sync_clk c = Some c' \<Longrightarrow> shm c = Some t \<Longrightarrow>
    do { c \<leftarrow> run_clk_times n c'; get_clk c } = Some (t + int n)"
proof -
  have "attached c \<Longrightarrow> shm c = Some t \<Longrightarrow> do { c \<leftarrow> run_clk_times n c; get_clk c } = Some (t + int n)" for c
    using assms by (induct n arbitrary: t c) (auto simp: run_clk_def get_clk_def c_int)
  then show "sync_clk c = Some c' \<Longrightarrow> shm c = Some t \<Longrightarrow>
    do { c \<leftarrow> run_clk_times n c'; get_clk c } = Some (t + int n)"
    by (auto simp: sync_clk_def split: option.splits)
qed

section \<open>The process\<close>

datatype user_signal = SIGUSR1 | SIGUSR2

text \<open>
  \<open>stopped\<close> is kernel state: \<open>raise(SIGSTOP)\<close> and the scheduler's SIGSTOP set it, SIGCONT clears it.
  \<open>exited\<close> holds after the loop. The signals sent to the scheduler are listed.
\<close>

record process =
  left :: int
  last_clk :: int
  stopped :: bool
  exited :: bool
  signals :: "user_signal list"

definition run_process :: "int \<Rightarrow> process" where
  "run_process r = \<lparr>left = r, last_clk = 0, stopped = True, exited = False, signals = []\<rparr>"

definition handle_sigcont :: "int \<Rightarrow> process \<Rightarrow> process" where
  "handle_sigcont now p = p\<lparr>last_clk := now\<rparr>"

text \<open>One round of the loop of \<open>run_process\<close>, its condition included.\<close>

definition poll :: "int \<Rightarrow> process \<Rightarrow> process" where
  "poll now p =
     (if left p > 0 then
        (if now \<noteq> last_clk p then
           (let r = wrap32 (left p - 1) in
            p\<lparr>left := r, last_clk := now, signals := signals p @ [if r \<le> 0 then SIGUSR1 else SIGUSR2]\<rparr>)
         else p)
      else p\<lparr>exited := True\<rparr>)"

text \<open>What happens to a process: it runs a round at some clock value, or a signal reaches it.\<close>

datatype moment = Poll int | Cont int | Stop

fun live :: "moment \<Rightarrow> process \<Rightarrow> process" where
  "live (Poll now) p = (if stopped p \<or> exited p then p else poll now p)"
| "live (Cont now) p = (if exited p then p else handle_sigcont now (p\<lparr>stopped := False\<rparr>))"
| "live Stop p = p\<lparr>stopped := True\<rparr>"

definition lives :: "moment list \<Rightarrow> process \<Rightarrow> process" where
  "lives ms p = fold live ms p"

lemma lives_simps [simp]:
  "lives [] p = p" "lives (m # ms) p = lives ms (live m p)" "lives (xs @ ys) p = lives ys (lives xs p)"
  by (simp_all add: lives_def)

section \<open>What a process sends\<close>

text \<open>After \<open>k\<close> of \<open>r\<close> rounds that saw the clock change.\<close>

definition sent :: "nat \<Rightarrow> nat \<Rightarrow> user_signal list" where
  "sent r k = (if k < r then replicate k SIGUSR2 else replicate (r - 1) SIGUSR2 @ [SIGUSR1])"

definition process_ok :: "nat \<Rightarrow> process \<Rightarrow> bool" where
  "process_ok r p \<longleftrightarrow> 0 \<le> left p \<and> left p \<le> int r \<and> signals p = sent r (r - nat (left p)) \<and>
     (exited p \<longrightarrow> left p = 0)"

lemma sent_Suc:
  "k < r \<Longrightarrow> sent r (Suc k) = sent r k @ [if Suc k = r then SIGUSR1 else SIGUSR2]"
  by (auto simp: sent_def replicate_append_same)

lemma process_ok_run: "0 < r \<Longrightarrow> process_ok r (run_process (int r))"
  by (simp add: process_ok_def run_process_def sent_def)

lemma poll_ok:
  assumes "process_ok r p" "r < 2147483648"
  shows "process_ok r (poll now p)"
proof (cases "left p > 0 \<and> now \<noteq> last_clk p")
  case True
  have b: "0 < left p" "left p \<le> int r" using True assms(1) by (auto simp: process_ok_def)
  then have w: "wrap32 (left p - 1) = left p - 1" using assms(2) by (simp add: c_int)
  have k: "r - nat (left p - 1) = Suc (r - nat (left p))" "r - nat (left p) < r"
    "Suc (r - nat (left p)) = r \<longleftrightarrow> left p = 1" using b by auto
  show ?thesis using assms(1) True b k sent_Suc [OF k(2)]
    by (auto simp: process_ok_def poll_def w)
next
  case False
  then show ?thesis using assms(1) by (auto simp: process_ok_def poll_def)
qed

lemma live_ok: "process_ok r p \<Longrightarrow> r < 2147483648 \<Longrightarrow> process_ok r (live m p)"
  using poll_ok by (cases m) (auto simp: process_ok_def handle_sigcont_def)

lemma lives_ok: "process_ok r p \<Longrightarrow> r < 2147483648 \<Longrightarrow> process_ok r (lives ms p)"
  by (induct ms arbitrary: p) (auto intro: live_ok)

text \<open>
  C29: however a process of run time \<open>r\<close> is stopped, continued and polled, the signals it has sent are a
  SIGUSR2 for each unit it has run and, for the last one only, a SIGUSR1 instead; when it has exited it
  has sent all \<open>r\<close> of them, and never more.
\<close>

theorem process_signals:
  assumes "0 < r" "r < 2147483648"
  shows "let p = lives ms (run_process (int r)) in
    0 \<le> left p \<and> left p \<le> int r \<and> length (signals p) = r - nat (left p) \<and>
    signals p = (if left p > 0 then replicate (r - nat (left p)) SIGUSR2
                 else replicate (r - 1) SIGUSR2 @ [SIGUSR1]) \<and>
    (exited p \<longrightarrow> left p = 0)"
  using lives_ok [OF process_ok_run [OF assms(1)] assms(2), of ms] assms(1)
  by (auto simp: process_ok_def sent_def Let_def)

theorem process_signals_witness:
  "let p = lives [Cont 3, Poll 3, Poll 4, Stop, Poll 5, Cont 6, Poll 7, Poll 7] (run_process (int 2)) in
     signals p = [SIGUSR2, SIGUSR1] \<and> length (signals p) = 2 - nat (left p) \<and> exited p"
  using process_signals [of 2 "[Cont 3, Poll 3, Poll 4, Stop, Poll 5, Cont 6, Poll 7, Poll 7]"]
  by (simp add: Let_def run_process_def handle_sigcont_def poll_def wrap32_def)

text \<open>
  A SIGCONT is not remembered: when the scheduler continues a process between its \<open>fork\<close> and its own
  \<open>raise(SIGSTOP)\<close>, the process stops after that and never runs.
\<close>

definition boot_process :: "int \<Rightarrow> process" where
  "boot_process r = \<lparr>left = r, last_clk = 0, stopped = False, exited = False, signals = []\<rparr>"

lemma polls_stopped: "stopped p \<Longrightarrow> lives (map Poll ts) p = p"
  by (induct ts) simp_all

theorem early_continue_lost:
  "let p = lives (Cont t # Stop # map Poll ts) (boot_process r) in stopped p \<and> signals p = [] \<and> left p = r"
  by (simp add: boot_process_def handle_sigcont_def polls_stopped Let_def)

text \<open>The polls of a process that is polled at every clock value after \<open>t\<close>, for \<open>n\<close> of them.\<close>

definition polls :: "int \<Rightarrow> nat \<Rightarrow> moment list" where
  "polls t n = map (\<lambda>k. Poll (t + int (Suc k))) [0..<n]"

lemma polls_Suc: "polls t (Suc n) = polls t n @ [Poll (t + int (Suc n))]"
  by (simp add: polls_def)

lemma lives_polls:
  assumes "left p = int r" "n \<le> r" "r < 2147483648" "\<not> stopped p" "\<not> exited p" "last_clk p = t"
  shows "left (lives (polls t n) p) = int r - int n \<and> last_clk (lives (polls t n) p) = t + int n \<and>
    \<not> stopped (lives (polls t n) p) \<and> \<not> exited (lives (polls t n) p)"
  using assms(2)
proof (induct n)
  case 0
  then show ?case using assms by (simp add: polls_def)
next
  case (Suc n)
  then have "wrap32 (int r - int n - 1) = int r - int n - 1" using assms(3) by (simp add: c_int)
  then show ?case using Suc by (simp add: polls_Suc poll_def)
qed

text \<open>
  C30: a process that is continued at time \<open>t\<close> and then polls at every tick of the clock runs for exactly
  its run time: after \<open>r\<close> ticks, and not before, nothing is left, and the next round ends it.
\<close>

theorem process_terminates:
  assumes "0 < r" "r < 2147483648"
  shows "let p = live (Cont t) (run_process (int r)) in
    (n < r \<longrightarrow> left (lives (polls t n) p) = int (r - n)) \<and>
    exited (live (Poll (t + int r)) (lives (polls t r) p))"
proof -
  let ?p = "live (Cont t) (run_process (int r))"
  have p: "left ?p = int r" "\<not> stopped ?p" "\<not> exited ?p" "last_clk ?p = t"
    by (simp_all add: run_process_def handle_sigcont_def)
  show ?thesis using lives_polls [OF p(1) _ assms(2) p(2-4), of n] lives_polls [OF p(1) _ assms(2) p(2-4), of r]
    by (auto simp: Let_def poll_def of_nat_diff)
qed

theorem process_terminates_witness:
  "left (lives (polls 5 1) (live (Cont 5) (run_process (int 2)))) = 1 \<and>
   exited (live (Poll (5 + int 2)) (lives (polls 5 2) (live (Cont 5) (run_process (int 2)))))"
  using process_terminates [of 2 5 1] by (simp add: Let_def)

end
