(* ===== verification/Log_Files.thy ===== *)
theory Log_Files
  imports Memory_Manager Scheduler
begin

text \<open>
  The text of the files the program writes, and what becomes of the scheduler when one of them cannot
  be created: the start of \<open>run_scheduler\<close> and the end of \<open>scheduler_loop\<close>. \<open>fopen\<close> in mode "w" is the
  parameter \<open>creatable\<close>, which says of a name whether it succeeds.
\<close>

section \<open>The texts\<close>

text \<open>The arrow of the source's string literals is the three bytes of its UTF-8 encoding.\<close>

definition arrow :: string where
  "arrow = [CHR 0x20, CHR 0xE2, CHR 0x86, CHR 0x92, CHR 0x20]"

primrec print_execution :: "execution_entry \<Rightarrow> string" where
  "print_execution (Idle a b) =
     ''Idle from '' @ print_int a @ arrow @ print_int b @ [newline, newline]"
| "print_execution (Runs i n a b r) =
     ''P'' @ print_int i @ '' (burst '' @ print_int n @ '') runs '' @ print_int a @ arrow @ print_int b @
     '' (rem '' @ print_int r @ '')'' @ [newline, newline]"
| "print_execution (Finishes i n a b) =
     ''P'' @ print_int i @ '' (burst '' @ print_int n @ '') runs '' @ print_int a @ arrow @ print_int b @
     '' and finishes at '' @ print_int b @ [newline, newline]"

definition execution_log_text :: "execution_entry list \<Rightarrow> string" where
  "execution_log_text es = concat (map print_execution es)"

definition memory_log_text :: "memory_entry list \<Rightarrow> string" where
  "memory_log_text es =
     ''#At time x allocated y bytes for process z from i to j'' @ [newline] @ concat (map print_memory_entry es)"

text \<open>
  The first format ends in a percent sign before the newline, for which C defines no conversion; it is
  taken as glibc prints it, unchanged.
\<close>

definition perf_text :: "perf_out \<Rightarrow> string" where
  "perf_text p =
     ''CPU utilization = '' @ perf_cpu p @ ''%'' @ [newline] @ ''Avg WTA = '' @ perf_wta p @ [newline] @
     ''Avg Waiting = '' @ perf_wait p @ [newline] @ ''Std WTA = '' @ perf_std p @ [newline]"

section \<open>The start and the end of the scheduler\<close>

text \<open>\<open>Inl\<close> is an exit with that code; \<open>msqid\<close> is what \<open>msgget\<close> returns.\<close>

definition scheduler_main :: "(string \<Rightarrow> bool) \<Rightarrow> int \<Rightarrow> string \<Rightarrow> int \<Rightarrow> int \<Rightarrow> int \<Rightarrow> int + sched" where
  "scheduler_main creatable msqid sch_algo q n now =
     (if \<not> creatable ''scheduler.log'' then Inl 1
      else if \<not> creatable ''execution_log.txt'' then Inl 1
      else if msqid = - 1 then Inl 1
      else Inr (run_scheduler sch_algo q n now))"

text \<open>After the loop: the exit code and what has been written to scheduler.perf.\<close>

definition scheduler_finish :: "(string \<Rightarrow> bool) \<Rightarrow> real list \<Rightarrow> sched \<Rightarrow> (int \<times> string option) option" where
  "scheduler_finish creatable WTAs s = do {
     p \<leftarrow> scheduler_perf_out WTAs (files s) (idle_time s) (clk s);
     Some (if creatable ''scheduler.perf'' then (0, Some (perf_text p)) else (1, None))
   }"

section \<open>The logs are unambiguous\<close>

text \<open>A number is read back from what follows it unless that begins with a digit.\<close>

lemma digits_inj: "digits m = digits n \<longleftrightarrow> m = n"
  by (metis digit_value_digits)

lemma digits_append:
  assumes "digits m @ s = digits n @ t" "no_digit_first s" "no_digit_first t"
  shows "m = n \<and> s = t"
proof -
  have "digits m = digits n" using takeWhile_digits [OF assms(2), of m] takeWhile_digits [OF assms(3), of n] assms(1) by simp
  then show ?thesis using assms(1) digits_inj by simp
qed

lemma digits_no_minus [simp]: "digits m @ s \<noteq> CHR ''-'' # t" "CHR ''-'' # t \<noteq> digits m @ s"
  using digits_first [of m] digit_not_sign [of "CHR ''-''"] by auto

lemma print_int_append:
  assumes "print_int i @ s = print_int j @ t" "no_digit_first s" "no_digit_first t"
  shows "i = j \<and> s = t"
proof (cases "i < 0")
  case True
  then have "j < 0" using assms(1) by (auto simp: print_int_def split: if_splits)
  with True digits_append [OF _ assms(2,3), of "nat (- i)" "nat (- j)"] assms(1) show ?thesis
    by (auto simp: print_int_def)
next
  case False
  then have "\<not> j < 0" using assms(1) by (auto simp: print_int_def)
  with False digits_append [OF _ assms(2,3), of "nat i" "nat j"] assms(1) show ?thesis
    by (auto simp: print_int_def)
qed

text \<open>The form in which the printed fields stand: a number, then a character that is no digit.\<close>

lemma print_int_field [simp]:
  "\<not> is_digit c \<Longrightarrow> \<not> is_digit d \<Longrightarrow>
   print_int i @ c # s = print_int j @ d # t \<longleftrightarrow> i = j \<and> c = d \<and> s = t"
  using print_int_append [of i "c # s" j "d # t"] by (auto simp: no_digit_first_def)

lemma not_digit [simp]: "\<not> is_digit (CHR '' '')" "\<not> is_digit newline" "\<not> is_digit (CHR '')'')"
  by (simp_all add: is_digit_def char_code_def)

lemma print_execution_append:
  "print_execution e @ s = print_execution f @ t \<longleftrightarrow> e = f \<and> s = t"
  by (cases e; cases f) (auto simp: arrow_def)

text \<open>The entries of the other two logs as the program makes them.\<close>

definition memory_entry_ok :: "memory_entry \<Rightarrow> bool" where
  "memory_entry_ok e \<longleftrightarrow> mem_verb e = ''allocated'' \<or> mem_verb e = ''deallocated''"

lemma print_memory_append:
  "memory_entry_ok e \<Longrightarrow> memory_entry_ok f \<Longrightarrow>
   print_memory_entry e @ s = print_memory_entry f @ t \<longleftrightarrow> e = f \<and> s = t"
  by (cases e; cases f) (auto simp: memory_entry_ok_def print_memory_entry_def)

definition log_entry_ok :: "log_entry \<Rightarrow> bool" where
  "log_entry_ok e \<longleftrightarrow>
     (case finished e of
        None \<Rightarrow> event e \<in> {''started'', ''resumed'', ''stopped''}
      | Some (ta, wta) \<Rightarrow> event e = ''finished'' \<and> newline \<notin> set wta)"

lemma line_end:
  "c \<notin> set u \<Longrightarrow> c \<notin> set v \<Longrightarrow> u @ c # s = v @ c # t \<longleftrightarrow> u = v \<and> s = t"
  by (induct u arbitrary: v) (case_tac v; auto)+

lemma print_entry_append:
  assumes "log_entry_ok e" "log_entry_ok f"
  shows "print_entry e @ s = print_entry f @ t \<longleftrightarrow> e = f \<and> s = t"
proof (cases "finished e = None \<or> finished f = None")
  case True
  then show ?thesis using assms
    by (cases e; cases f) (auto simp: log_entry_ok_def print_entry_def split: option.splits)
next
  case False
  then obtain ta wta ta' wta' where f: "finished e = Some (ta, wta)" "finished f = Some (ta', wta')" by auto
  with assms have "newline \<notin> set wta" "newline \<notin> set wta'" "event e = event f" by (auto simp: log_entry_ok_def)
  with f show ?thesis by (cases e; cases f) (auto simp: print_entry_def line_end)
qed

text \<open>Texts put together line by line.\<close>

lemma concat_unambiguous:
  assumes "\<And>x y s t. P x \<Longrightarrow> P y \<Longrightarrow> pr x @ s = pr y @ t \<longleftrightarrow> x = y \<and> s = t"
    and "\<And>x. pr x \<noteq> []"
  shows "\<forall>x \<in> set xs. P x \<Longrightarrow> \<forall>y \<in> set ys. P y \<Longrightarrow>
    concat (map pr xs) = concat (map pr ys) \<longleftrightarrow> xs = ys"
proof (induct xs arbitrary: ys)
  case Nil
  then show ?case using assms(2) by (cases ys) auto
next
  case (Cons x xs)
  then show ?case using assms by (cases ys) auto
qed

lemma print_nonempty:
  "print_execution e \<noteq> []" "print_memory_entry m \<noteq> []" "print_entry l \<noteq> []"
  by (cases e) (simp_all add: print_memory_entry_def print_entry_def)

text \<open>The functions that log only make such entries.\<close>

lemma strip_zeros_subset: "set (strip_zeros s) \<subseteq> set s"
proof (induct s rule: strip_zeros.induct)
  case (1 s)
  then show ?case by (subst strip_zeros.simps) (auto dest: in_set_butlastD)
qed

lemma round_number_chars: "newline \<notin> set (round_number x)"
proof -
  have "set (strip_point s) \<subseteq> set s" for s by (auto simp: strip_point_def dest: in_set_butlastD)
  moreover have "digit n \<noteq> newline" if "n < 10" for n
    using digit_not_sign [OF is_digit_digit [OF that]] by blast
  then have "newline \<notin> set (print_2f x)"
    using digit_not_sign [OF digits_digit] by (auto simp: print_2f_def Let_def dest: sym)
  ultimately show ?thesis unfolding round_number_def using strip_zeros_subset by (meson in_mono in_set_takeD)
qed

lemma log_event_entries:
  assumes "log_event now pcb f = Some f'" "state pcb \<in> Some ` {''started'', ''resumed'', ''stopped'', ''finished''}"
    and "\<forall>e \<in> set (scheduler_log f). log_entry_ok e"
  shows "\<forall>e \<in> set (scheduler_log f'). log_entry_ok e"
  using assms round_number_chars
  by (auto simp: log_event_def Let_def bind_eq_Some_conv log_entry_ok_def)

lemma log_memory_event_entries:
  assumes "log_memory_event now i p k s = Some s'" "\<forall>e \<in> set (memory_log s). memory_entry_ok e"
  shows "\<forall>e \<in> set (memory_log s'). memory_entry_ok e"
  using assms by (auto simp: log_memory_event_def Let_def bind_eq_Some_conv memory_entry_ok_def split: if_splits)

text \<open>Two logs with the same text have the same entries.\<close>

lemma log_texts_inj:
  "execution_log_text es = execution_log_text es' \<longleftrightarrow> es = es'"
  "\<forall>e \<in> set ms. memory_entry_ok e \<Longrightarrow> \<forall>e \<in> set ms'. memory_entry_ok e \<Longrightarrow>
   memory_log_text ms = memory_log_text ms' \<longleftrightarrow> ms = ms'"
  "\<forall>e \<in> set (scheduler_log f). log_entry_ok e \<Longrightarrow> \<forall>e \<in> set (scheduler_log f'). log_entry_ok e \<Longrightarrow>
   scheduler_log_text f = scheduler_log_text f' \<longleftrightarrow> scheduler_log f = scheduler_log f'"
proof -
  have "concat (map print_execution es) = concat (map print_execution es') \<longleftrightarrow> es = es'"
    by (rule concat_unambiguous [of "\<lambda>_. True"]) (simp_all add: print_execution_append print_nonempty)
  then show "execution_log_text es = execution_log_text es' \<longleftrightarrow> es = es'" by (simp add: execution_log_text_def)
  show "memory_log_text ms = memory_log_text ms' \<longleftrightarrow> ms = ms'"
    if "\<forall>e \<in> set ms. memory_entry_ok e" "\<forall>e \<in> set ms'. memory_entry_ok e"
    using concat_unambiguous [of memory_entry_ok print_memory_entry ms ms'] that
    by (simp add: memory_log_text_def print_memory_append print_nonempty)
  show "scheduler_log_text f = scheduler_log_text f' \<longleftrightarrow> scheduler_log f = scheduler_log f'"
    if "\<forall>e \<in> set (scheduler_log f). log_entry_ok e" "\<forall>e \<in> set (scheduler_log f'). log_entry_ok e"
    using concat_unambiguous [of log_entry_ok print_entry "scheduler_log f" "scheduler_log f'"] that
    by (simp add: scheduler_log_text_def print_entry_append print_nonempty)
qed

end
