(* ===== verification/System.thy ===== *)
theory System
  imports Generator_Properties Scheduler_View Process_Run Log_Files
begin

text \<open>
  The whole simulation: the process generator, the scheduler, the processes that were forked and the
  clock, as one machine. The generator's messages go into the scheduler's queue, the scheduler's
  SIGCONT and SIGSTOP stop and continue the processes, and a process that has used a second sends its
  signal to the scheduler, whose handler runs at once; a process that has exited is reaped by the
  generator, which frees its memory. The steps of the parts are those of their own theories.
\<close>

section \<open>The machine\<close>

record system =
  gen_phase :: gphase
  gen :: generator
  sch_phase :: phase
  sch :: sched
  procs :: "int \<rightharpoonup> process"

datatype sysconf = Down | Up system

text \<open>\<open>main\<close>: the generator has read the file, and the scheduler it forks inherits the count.\<close>

definition start_system :: "string \<Rightarrow> int \<Rightarrow> Process list \<Rightarrow> int \<Rightarrow> int \<Rightarrow> int \<Rightarrow> system" where
  "start_system algo q ps c d now =
     \<lparr>gen_phase = Outer, gen = start_generator ps c d now, sch_phase = Guard,
      sch = run_scheduler algo q (int (length ps)) now, procs = Map.empty\<rparr>"

text \<open>
  What \<open>main\<close> gets from the kernel: the files that can be read and created, the results of the two
  forks, and the message queue ids of the generator and the scheduler.
\<close>

record environment =
  readable :: "string \<Rightarrow> string option"
  creatable :: "string \<Rightarrow> bool"
  clk_fork :: int
  sch_fork :: int
  gen_queue :: int
  sch_queue :: int

text \<open>
  \<open>main\<close> up to its loop; \<open>u\<close> is the value of the variable \<open>quantum\<close> where \<open>parse_args\<close> leaves it unset.
  Without a clock process \<open>sync_clk\<close> tries for ever. When the scheduler could not start, the generator
  runs by itself.
\<close>

datatype program = Exits int | No_clock | No_scheduler generator | Simulates system

definition main_program :: "environment \<Rightarrow> int \<Rightarrow> int \<Rightarrow> string list \<Rightarrow> program option" where
  "main_program env u now argv = do {
     a \<leftarrow> parse_args argv;
     case a of
       Usage \<Rightarrow> Some (Exits 1)
     | Args scheduling_algorithm input_file qo \<Rightarrow>
         if clk_fork env = - 1 then Some No_clock
         else do {
           (r, ps) \<leftarrow> read_input_file (readable env input_file);
           let q = (case qo of None \<Rightarrow> u | Some q \<Rightarrow> q);
           if r \<noteq> 0 \<or> sch_fork env = - 1 then Some (Exits 1)
           else if gen_queue env = - 1 then Some (Exits 1)
           else if \<not> creatable env ''memory.log'' then Some (Exits 1)
           else Some (case scheduler_main (creatable env) (sch_queue env) scheduling_algorithm q (int (length ps)) now of
               Inl _ \<Rightarrow> No_scheduler (start_generator ps (clk_fork env) (sch_fork env) now)
             | Inr _ \<Rightarrow> Simulates (start_system scheduling_algorithm q ps (clk_fork env) (sch_fork env) now))
         }
   }"

definition env_ok :: "environment \<Rightarrow> bool" where
  "env_ok env \<longleftrightarrow> clk_fork env \<noteq> - 1 \<and> sch_fork env \<noteq> - 1 \<and> gen_queue env \<noteq> - 1 \<and> sch_queue env \<noteq> - 1 \<and>
     creatable env ''memory.log'' \<and> creatable env ''scheduler.log'' \<and> creatable env ''execution_log.txt''"

text \<open>
  The end of \<open>main\<close>, once \<open>waitpid\<close> has returned: \<open>destroy_clk\<close> interrupts the whole group, the generator
  itself with it, so that \<open>clear_and_exit\<close> is the last that runs, and the clock removes its segment.
\<close>

definition finish_main :: "int \<Rightarrow> clock \<Rightarrow> generator \<Rightarrow> (cleanup option \<times> clock) option" where
  "finish_main ctl c g =
     (let g = g\<lparr>children := remove1 (sch_pid g) (children g)\<rparr>; (group, c) = destroy_clk 1 c in
      if group then do {
        r \<leftarrow> clear_and_exit ctl g;
        Some (Some r, if clk_pid g \<in> set (interrupts r) then clk_cleanup c else c)
      } else Some (None, c))"

text \<open>The children of the processes just sent, and the signals just sent to them.\<close>

primrec spawn :: "PCB list \<Rightarrow> (int \<rightharpoonup> process) \<Rightarrow> int \<rightharpoonup> process" where
  "spawn [] P = P"
| "spawn (m # ms) P = spawn ms (P(pid m \<mapsto> run_process (runtime (PDATA m))))"

primrec deliver :: "int \<Rightarrow> (int \<times> signal) list \<Rightarrow> (int \<rightharpoonup> process) \<Rightarrow> int \<rightharpoonup> process" where
  "deliver now [] P = P"
| "deliver now (k # ks) P = deliver now ks
     (P(fst k := map_option (live (case snd k of SIGCONT \<Rightarrow> Cont now | SIGSTOP \<Rightarrow> Stop)) (P (fst k))))"

definition receive_new :: "generator \<Rightarrow> generator \<Rightarrow> sched \<Rightarrow> sched" where
  "receive_new g g' s = s\<lparr>msgs_pcb := msgs_pcb s @ drop (length (pcb_sent g)) (pcb_sent g'),
     msgs_str := msgs_str s @ drop (length (str_sent g)) (str_sent g')\<rparr>"

text \<open>A process that runs and has seen the clock change sends a signal at its next round.\<close>

definition ticks :: "int \<Rightarrow> process \<Rightarrow> bool" where
  "ticks now p \<longleftrightarrow> \<not> stopped p \<and> \<not> exited p \<and> 0 < left p \<and> now \<noteq> last_clk p"

definition handle_signal :: "process \<Rightarrow> sched \<Rightarrow> sched option" where
  "handle_signal p' s = (if last (signals p') = SIGUSR1 then handle_process_termination s else handle_process_tick s)"

inductive sys_step :: "kernel \<Rightarrow> sysconf \<Rightarrow> sysconf \<Rightarrow> bool" for k where
  generator: "gen_exec k Go (Gen (gen_phase y) (gen y)) = Some (Gen ph g') \<Longrightarrow>
    sys_step k (Up y) (Up (y\<lparr>gen_phase := ph, gen := g', sch := receive_new (gen y) g' (sch y),
      procs := spawn (drop (length (pcb_sent (gen y))) (pcb_sent g')) (procs y)\<rparr>))"
| generator_down: "gen_exec k Go (Gen (gen_phase y) (gen y)) = Some Broken \<Longrightarrow> sys_step k (Up y) Down"
| scheduler: "exec Loop (At (sch_phase y) (sch y)) = Some (At ph s') \<Longrightarrow>
    sys_step k (Up y) (Up (y\<lparr>sch_phase := ph, sch := s',
      procs := deliver (clk s') (drop (length (kills (sch y))) (kills s')) (procs y)\<rparr>))"
| scheduler_down: "exec Loop (At (sch_phase y) (sch y)) = Some Crashed \<Longrightarrow> sys_step k (Up y) Down"
| signal: "procs y i = Some p \<Longrightarrow> ticks (clk (sch y)) p \<Longrightarrow>
    selected_algorithm (sch y) = SRTN \<longrightarrow> front (rdy_queue (sch y)) = Some (Some (current_pcb (sch y))) \<Longrightarrow>
    handle_signal (poll (clk (sch y)) p) (sch y) = Some s' \<Longrightarrow>
    sys_step k (Up y) (Up (y\<lparr>sch := s', procs := (procs y)(i \<mapsto> poll (clk (sch y)) p)\<rparr>))"
| signal_down: "procs y i = Some p \<Longrightarrow> ticks (clk (sch y)) p \<Longrightarrow>
    selected_algorithm (sch y) = SRTN \<longrightarrow> front (rdy_queue (sch y)) = Some (Some (current_pcb (sch y))) \<Longrightarrow>
    handle_signal (poll (clk (sch y)) p) (sch y) = None \<Longrightarrow> sys_step k (Up y) Down"
| idle_round: "procs y i = Some p \<Longrightarrow> \<not> stopped p \<Longrightarrow> \<not> exited p \<Longrightarrow> \<not> ticks (clk (sch y)) p \<Longrightarrow>
    sys_step k (Up y) (Up (y\<lparr>procs := (procs y)(i \<mapsto> poll (clk (sch y)) p)\<rparr>))"
| reap: "i \<in> set (children (gen y)) \<Longrightarrow> i \<noteq> clk_pid (gen y) \<Longrightarrow> i \<noteq> sch_pid (gen y) \<Longrightarrow>
    (case procs y i of None \<Rightarrow> True | Some p \<Rightarrow> exited p) \<Longrightarrow> handle_child_exit [i] (gen y) = Some g' \<Longrightarrow>
    sys_step k (Up y) (Up (y\<lparr>gen := g', procs := (procs y)(i := None)\<rparr>))"
| reap_down: "i \<in> set (children (gen y)) \<Longrightarrow> handle_child_exit [i] (gen y) = None \<Longrightarrow> sys_step k (Up y) Down"
| clock: "clk (sch y) < 2147483647 \<Longrightarrow> gen_clk (gen y) < 2147483647 \<Longrightarrow>
    sys_step k (Up y) (Up (y\<lparr>gen := (gen y)\<lparr>gen_clk := gen_clk (gen y) + 1\<rparr>,
      sch := (sch y)\<lparr>clk := clk (sch y) + 1\<rparr>\<rparr>))"

inductive_simps sys_step_Down [simp]: "sys_step k Down c"

inductive sys_reachable :: "kernel \<Rightarrow> sysconf \<Rightarrow> sysconf \<Rightarrow> bool" for k c where
  start: "sys_reachable k c c"
| step: "sys_reachable k c d \<Longrightarrow> sys_step k d e \<Longrightarrow> sys_reachable k c e"

section \<open>The invariant of the system\<close>

text \<open>
  The view of a PCB and the process it stands for. A finished process has nothing left to run. Any
  other lives, is stopped unless it is the running one, and has at most as much left as the scheduler
  believes.
\<close>

definition matches :: "int \<times> Process \<times> int \<times> bool \<Rightarrow> bool \<Rightarrow> (int \<rightharpoonup> process) \<Rightarrow> bool" where
  "matches v cur P =
     (case v of (i, d, r, fin) \<Rightarrow>
        if fin then \<forall>p. P i = Some p \<longrightarrow> left p = 0
        else \<exists>p. P i = Some p \<and> stopped p = (\<not> cur) \<and> \<not> exited p \<and> 0 < left p \<and> left p \<le> r)"

definition sys_ok :: "kernel \<Rightarrow> Process list \<Rightarrow> int \<Rightarrow> int \<Rightarrow> config \<Rightarrow> system \<Rightarrow> bool" where
  "sys_ok k ps c d st y \<longleftrightarrow>
     (let g = gen y; s = sch y; ms = pcb_sent g in
      gen_good k ps c d (Gen (gen_phase y) g) \<and> reachable st (At (sch_phase y) s) \<and> sched_inv s \<and>
      0 < pcb_brk s \<and> pcb_brk s \<le> Suc (length ms) \<and> msgs_pcb s = drop (pcb_brk s - 1) ms \<and>
      (\<forall>p v. pview s p = Some v \<longrightarrow> fst v = pid (ms ! (p - 1)) \<and> fst (snd v) = PDATA (ms ! (p - 1)) \<and>
         matches v (p = current_pcb s) (procs y)) \<and>
      dom (procs y) \<subseteq> pid ` set ms \<and>
      (\<forall>m \<in> set (msgs_pcb s). matches (brief m) False (procs y)))"

lemma sys_okD:
  assumes "sys_ok k ps c d st y"
  shows "gen_good k ps c d (Gen (gen_phase y) (gen y))" "reachable st (At (sch_phase y) (sch y))"
    "sched_inv (sch y)" "0 < pcb_brk (sch y)" "pcb_brk (sch y) \<le> Suc (length (pcb_sent (gen y)))"
    "msgs_pcb (sch y) = drop (pcb_brk (sch y) - 1) (pcb_sent (gen y))"
    "dom (procs y) \<subseteq> pid ` set (pcb_sent (gen y))"
    "pview (sch y) p = Some v \<Longrightarrow> fst v = pid (pcb_sent (gen y) ! (p - 1)) \<and>
       fst (snd v) = PDATA (pcb_sent (gen y) ! (p - 1)) \<and> matches v (p = current_pcb (sch y)) (procs y)"
    "m \<in> set (msgs_pcb (sch y)) \<Longrightarrow> matches (brief m) False (procs y)"
    "distinct (map pid (pcb_sent (gen y)))"
proof -
  note f = assms [unfolded sys_ok_def Let_def]
  show "gen_good k ps c d (Gen (gen_phase y) (gen y))" using f by blast
  then show "distinct (map pid (pcb_sent (gen y)))" by (rule sent_distinct)
qed (use assms in \<open>unfold sys_ok_def Let_def, blast+\<close>)

lemma view_index:
  assumes "sys_ok k ps c d st y" "pview (sch y) p = Some v"
  shows "p \<noteq> NULL" "p < pcb_brk (sch y)" "p - 1 < length (pcb_sent (gen y))"
proof -
  obtain x where x: "pcb_heap (sch y) p = Some x" using assms(2) by (auto simp: pview_def)
  have ok: "pcbs_ok (pcb_heap (sch y)) (pcb_brk (sch y))"
    using sys_okD(3) [OF assms(1)] by (auto simp: sched_inv_def sched_rep_def sched_core_def)
  show p: "p \<noteq> NULL" "p < pcb_brk (sch y)" using pcbs_ok_get(2,3) [OF ok, of p x] x by auto
  then show "p - 1 < length (pcb_sent (gen y))" using sys_okD(5) [OF assms(1)] by simp
qed

text \<open>Different PCBs and messages have different ids.\<close>

lemma view_inj:
  assumes "sys_ok k ps c d st y" "pview (sch y) p = Some v" "pview (sch y) p' = Some v'" "fst v = fst v'"
  shows "p = p'"
proof -
  have "map pid (pcb_sent (gen y)) ! (p - 1) = map pid (pcb_sent (gen y)) ! (p' - 1)"
    using sys_okD(8) [OF assms(1,2)] sys_okD(8) [OF assms(1,3)] assms(4)
      view_index(3) [OF assms(1,2)] view_index(3) [OF assms(1,3)] by simp
  then have "p - 1 = p' - 1"
    using nth_eq_iff_index_eq [OF sys_okD(10) [OF assms(1)], of "p - 1" "p' - 1"] view_index(3) [OF assms(1,2)]
      view_index(3) [OF assms(1,3)] by simp
  then show ?thesis using view_index(1) [OF assms(1,2)] view_index(1) [OF assms(1,3)] by simp
qed

lemma view_not_waiting:
  assumes ok: "sys_ok k ps c d st y" and v: "pview (sch y) p = Some v" and m: "m \<in> set (msgs_pcb (sch y))"
  shows "pid m \<noteq> fst v"
proof -
  let ?ms = "pcb_sent (gen y)" and ?b = "pcb_brk (sch y)"
  have "m \<in> set (drop (?b - 1) ?ms)" using m unfolding sys_okD(6) [OF ok] .
  then obtain j where "j < length (drop (?b - 1) ?ms)" "drop (?b - 1) ?ms ! j = m" by (auto simp: in_set_conv_nth)
  then have j: "?b - 1 + j < length ?ms" "pid (?ms ! (?b - 1 + j)) = pid m" by auto
  have "p - 1 < ?b - 1" using view_index(1,2) [OF ok v] by simp
  then have "map pid ?ms ! (p - 1) \<noteq> map pid ?ms ! (?b - 1 + j)"
    using nth_eq_iff_index_eq [OF sys_okD(10) [OF ok], of "p - 1" "?b - 1 + j"] j(1) view_index(3) [OF ok v] by simp
  then show ?thesis using sys_okD(8) [OF ok v] j view_index(3) [OF ok v] by simp
qed

section \<open>Steps of the parts\<close>

lemma go_grows:
  "gen_exec k Go (Gen ph g) = Some (Gen ph' g') \<Longrightarrow> \<exists>new. pcb_sent g' = pcb_sent g @ new"
  by (cases ph) (auto simp: goutcome_def finish_creating_def split: option.splits if_splits dest: sent_grows)

lemma spawn_other: "i \<notin> pid ` set ms \<Longrightarrow> spawn ms P i = P i"
  by (induct ms arbitrary: P) auto

lemma spawn_new:
  "distinct (map pid ms) \<Longrightarrow> m \<in> set ms \<Longrightarrow> spawn ms P (pid m) = Some (run_process (runtime (PDATA m)))"
  by (induct ms arbitrary: P) (auto simp: spawn_other)

lemma dom_spawn: "dom (spawn ms P) = dom P \<union> pid ` set ms"
  by (induct ms arbitrary: P) auto

lemma matches_cong: "P (fst v) = P' (fst v) \<Longrightarrow> matches v cur P = matches v cur P'"
  by (cases v) (simp add: matches_def)

lemma matches_spawned:
  assumes "distinct (map pid ms)" "m \<in> set ms" "valid_pcb m" "msg_ok m"
  shows "matches (brief m) False (spawn ms P)"
  using spawn_new [OF assms(1,2)] assms(3,4)
  by (simp add: matches_def brief_def msg_ok_def valid_pcb_def run_process_def)

text \<open>Messages that arrive together.\<close>

lemma reachable_msgs:
  "reachable st (At ph s) \<Longrightarrow> \<forall>m \<in> set ms. msg_ok m \<Longrightarrow> pcb_brk s + length (msgs_pcb s) + length ms \<le> queue_limit \<Longrightarrow>
   reachable st (At ph (s\<lparr>msgs_pcb := msgs_pcb s @ ms\<rparr>))"
proof (induct ms arbitrary: s)
  case Nil
  then show ?case by simp
next
  case (Cons m ms)
  then have "sched_step (At ph s) (At ph (s\<lparr>msgs_pcb := msgs_pcb s @ [m]\<rparr>))" by (intro send_pcb) auto
  with Cons.prems(1) have "reachable st (At ph (s\<lparr>msgs_pcb := msgs_pcb s @ [m]\<rparr>))" by (rule reachable.step)
  from Cons.hyps [OF this] Cons.prems(2,3) show ?case by simp
qed

lemma reachable_strs:
  "reachable st (At ph s) \<Longrightarrow> reachable st (At ph (s\<lparr>msgs_str := msgs_str s @ strs\<rparr>))"
proof (induct strs arbitrary: s)
  case Nil
  then show ?case by simp
next
  case (Cons str strs)
  have "sched_step (At ph s) (At ph (s\<lparr>msgs_str := msgs_str s @ [str]\<rparr>))" by (rule send_str)
  with Cons.prems(1) have "reachable st (At ph (s\<lparr>msgs_str := msgs_str s @ [str]\<rparr>))" by (rule reachable.step)
  from Cons.hyps [OF this] show ?case by simp
qed

lemma sched_inv_msgs:
  assumes "sched_inv s" "\<forall>m \<in> set ms. msg_ok m" "pcb_brk s + length (msgs_pcb s) + length ms \<le> queue_limit"
  shows "sched_inv (s\<lparr>msgs_pcb := msgs_pcb s @ ms, msgs_str := strs\<rparr>)"
  using assms by (auto simp: sched_inv_def sched_rep_def sched_core_def)

lemma current_unfinished:
  assumes "sched_inv s" "current_pcb s \<noteq> NULL"
  shows "\<exists>x. pcb_heap s (current_pcb s) = Some x \<and> state x \<noteq> Some ''finished'' \<and> current_pcb s < pcb_brk s"
proof -
  obtain xs where core: "sched_core s xs" using assms(1) by (auto simp: sched_inv_def sched_rep_def)
  obtain x where x: "pcb_heap s (current_pcb s) = Some x" "state x \<in> {Some ''started'', Some ''resumed''}"
    by (rule sched_core_current [OF core assms(2)])
  have "pcbs_ok (pcb_heap s) (pcb_brk s)" using core by (simp add: sched_core_def)
  then have "current_pcb s < pcb_brk s" by (rule pcbs_ok_get(3)) (rule x(1))
  then show ?thesis using x by auto
qed

section \<open>The steps keep the invariant\<close>

lemma sys_ok_generator:
  assumes ok: "sys_ok k ps c d st y" and k: "kernel_ok k {c, d}" and fl: "file_fine ps"
    and run: "gen_exec k Go (Gen (gen_phase y) (gen y)) = Some (Gen ph g')"
  shows "sys_ok k ps c d st (y\<lparr>gen_phase := ph, gen := g', sch := receive_new (gen y) g' (sch y),
      procs := spawn (drop (length (pcb_sent (gen y))) (pcb_sent g')) (procs y)\<rparr>)"
proof -
  let ?ms = "pcb_sent (gen y)" and ?s = "sch y" and ?P = "procs y"
  obtain new where new: "pcb_sent g' = ?ms @ new" using go_grows [OF run] by blast
  note good = sys_okD(1) [OF ok] and rch = sys_okD(2) [OF ok] and inv = sys_okD(3) [OF ok] and b = sys_okD(4,5) [OF ok]
    and q = sys_okD(6) [OF ok] and dom = sys_okD(7) [OF ok] and view = sys_okD(8) [OF ok] and wait = sys_okD(9) [OF ok]
  have good': "gen_good k ps c d (Gen ph g')" by (rule gen_step_good [OF gen_exec_step [OF run] good k])
  have val: "valid_pcb m \<and> msg_ok m" if "m \<in> set new" for m
    using sent_accepted [OF good' k fl, of m] that new by simp
  have dist: "distinct (map pid (?ms @ new))" using sent_distinct [OF good'] new by simp
  have "length (?ms @ new) \<le> length ps" using sent_bound [OF good'] new by simp
  moreover have "pcb_brk ?s + length (msgs_pcb ?s) = Suc (length ?ms)" using b q by simp
  ultimately have room: "pcb_brk ?s + length (msgs_pcb ?s) + length new \<le> queue_limit"
    using fl by (simp add: file_fine_def)
  have s': "receive_new (gen y) g' ?s = ?s\<lparr>msgs_pcb := msgs_pcb ?s @ new,
      msgs_str := msgs_str ?s @ drop (length (str_sent (gen y))) (str_sent g')\<rparr>"
    by (simp add: receive_new_def new)
  have rch': "reachable st (At (sch_phase y) (receive_new (gen y) g' ?s))"
    using reachable_strs [OF reachable_msgs [OF rch _ room], of "drop (length (str_sent (gen y))) (str_sent g')"] val
    by (simp add: s')
  have inv': "sched_inv (receive_new (gen y) g' ?s)" unfolding s' using sched_inv_msgs [OF inv _ room] val by blast
  have pv: "pview (receive_new (gen y) g' ?s) = pview ?s" by (simp add: s' pview_def fun_eq_iff)
  have old: "spawn new ?P i = ?P i" if "i \<in> pid ` set ?ms" for i
    using that dist by (intro spawn_other) auto
  have view': "fst v = pid ((?ms @ new) ! (p - 1)) \<and> fst (snd v) = PDATA ((?ms @ new) ! (p - 1)) \<and>
         matches v (p = current_pcb ?s) (spawn new ?P)" if "pview ?s p = Some v" for p v
    using view [OF that] view_index(3) [OF ok that] matches_cong [of "spawn new ?P" v ?P] old by (auto simp: nth_append)
  have wait': "matches (brief m) False (spawn new ?P)" if m: "m \<in> set (msgs_pcb ?s @ new)" for m
  proof (cases "m \<in> set new")
    case True
    then show ?thesis using matches_spawned [of new m ?P] dist val by simp
  next
    case False
    then have "m \<in> set (msgs_pcb ?s)" using m by simp
    moreover from this have "m \<in> set ?ms" unfolding q by (rule in_set_dropD)
    ultimately show ?thesis using wait old matches_cong [of "spawn new ?P" "brief m" ?P] by (simp add: brief_def)
  qed
  have "drop (pcb_brk ?s - 1) (?ms @ new) = msgs_pcb ?s @ new" using q b by simp
  then show ?thesis using good' rch' inv' b view' wait' dom dom_spawn [of new ?P] new pv
    by (auto simp: sys_ok_def Let_def s')
qed

lemma deliver_one: "deliver now [(i, sig)] P =
  P(i := map_option (live (case sig of SIGCONT \<Rightarrow> Cont now | SIGSTOP \<Rightarrow> Stop)) (P i))"
  by simp

lemma matches_cont:
  "matches v False P \<Longrightarrow> \<not> snd (snd (snd v)) \<Longrightarrow> matches v True (deliver now [(fst v, SIGCONT)] P)"
  by (cases v) (auto simp: matches_def handle_sigcont_def)

lemma matches_stop:
  "matches (i, d, r, False) True P \<Longrightarrow> r \<le> r' \<Longrightarrow> matches (i, d, r', False) False (deliver now [(i, SIGSTOP)] P)"
  by (auto simp: matches_def)

lemma sys_ok_scheduler:
  assumes ok: "sys_ok k ps c d st y" and k: "kernel_ok k {c, d}" and fl: "file_fine ps"
    and run: "exec Loop (At (sch_phase y) (sch y)) = Some (At ph s')"
  shows "sys_ok k ps c d st (y\<lparr>sch_phase := ph, sch := s',
      procs := deliver (clk s') (drop (length (kills (sch y))) (kills s')) (procs y)\<rparr>)"
proof -
  let ?ms = "pcb_sent (gen y)" and ?s = "sch y" and ?P = "procs y"
  note good = sys_okD(1) [OF ok] and rch = sys_okD(2) [OF ok] and inv = sys_okD(3) [OF ok] and b = sys_okD(4,5) [OF ok]
    and q = sys_okD(6) [OF ok] and dom = sys_okD(7) [OF ok] and view = sys_okD(8) [OF ok] and wait = sys_okD(9) [OF ok]
  have step: "sched_step (At (sch_phase y) ?s) (At ph s')" by (rule exec_step [OF run])
  have rch': "reachable st (At ph s')" by (rule reachable.step [OF rch step])
  have inv': "sched_inv s'" using inv.step [OF step] inv by simp
  have valid: "valid_pcb m \<and> msg_ok m" if "m \<in> set (msgs_pcb ?s)" for m
    using sent_accepted [OF good k fl, of m] that unfolding q by (meson in_set_dropD)
  have goal: "sys_ok k ps c d st (y\<lparr>sch_phase := ph, sch := s', procs := P'\<rparr>)"
    if "0 < pcb_brk s'" "pcb_brk s' \<le> Suc (length ?ms)" "msgs_pcb s' = drop (pcb_brk s' - 1) ?ms"
      "\<And>p v. pview s' p = Some v \<Longrightarrow> fst v = pid (?ms ! (p - 1)) \<and> fst (snd v) = PDATA (?ms ! (p - 1)) \<and>
         matches v (p = current_pcb s') P'" "dom P' \<subseteq> pid ` set ?ms"
      "\<And>m. m \<in> set (msgs_pcb s') \<Longrightarrow> matches (brief m) False P'" for P'
    using good rch' inv' that by (auto simp: sys_ok_def Let_def)
  from valid have "\<forall>m \<in> set (msgs_pcb ?s). valid_pcb m" by blast
  with inv run show ?thesis
  proof (cases rule: loop_moves)
    case quiet
    show ?thesis
      by (rule goal) (use quiet b q view dom wait in \<open>auto simp: outside_def\<close>)
  next
    case receive
    have cur: "current_pcb ?s < pcb_brk ?s"
      using current_unfinished [OF inv] b(1) by (cases "current_pcb ?s = NULL") auto
    have len: "pcb_brk ?s + length (msgs_pcb ?s) = Suc (length ?ms)" using b q by simp
    have nth: "msgs_pcb ?s ! (p - pcb_brk ?s) = ?ms ! (p - 1)" if "pcb_brk ?s \<le> p" "p \<le> length ?ms" for p
      using that b q by simp
    have pv: "pview s' p = (if pcb_brk ?s \<le> p \<and> p \<le> length ?ms then Some (brief (?ms ! (p - 1))) else pview ?s p)" for p
      using receive(7) [of p] len nth [of p] by (auto simp: pview_def)
    have new: "matches (brief (?ms ! (p - 1))) False ?P" if "pcb_brk ?s \<le> p" "p \<le> length ?ms" for p
    proof -
      have "msgs_pcb ?s ! (p - pcb_brk ?s) \<in> set (msgs_pcb ?s)" using that len by (intro nth_mem) simp
      then show ?thesis using wait nth [OF that] by simp
    qed
    show ?thesis
    proof (rule goal)
      fix p v
      assume v: "pview s' p = Some v"
      show "fst v = pid (?ms ! (p - 1)) \<and> fst (snd v) = PDATA (?ms ! (p - 1)) \<and>
        matches v (p = current_pcb s') (deliver (clk s') (drop (length (kills ?s)) (kills s')) ?P)"
        using v pv [of p] view [of p v] new [of p] cur receive(3,4) by (auto simp: brief_def split: if_splits)
    qed (use receive len dom in auto)
  next
    case (begin_run x)
    have x: "pview ?s (current_pcb s') = Some (brief x)" using begin_run(5) by (simp add: pview_def)
    have P': "deliver (clk s') (drop (length (kills ?s)) (kills s')) ?P = deliver (clk s') [(pid x, SIGCONT)] ?P" (is "_ = ?P'")
      using begin_run(7) by simp
    have other: "?P' i = ?P i" if "i \<noteq> pid x" for i using that by simp
    have "matches (brief x) False ?P" using view [OF x] begin_run(3,4) by simp
    then have moved: "matches (brief x) True ?P'"
      using matches_cont [of "brief x" ?P "clk s'"] begin_run(6) by (simp add: brief_def)
    show ?thesis unfolding P'
    proof (rule goal)
      fix p v
      assume "pview s' p = Some v"
      then have v: "pview ?s p = Some v" using begin_run(2) by simp
      show "fst v = pid (?ms ! (p - 1)) \<and> fst (snd v) = PDATA (?ms ! (p - 1)) \<and> matches v (p = current_pcb s') ?P'"
      proof (cases "p = current_pcb s'")
        case True
        then show ?thesis using view [OF v] moved v x by simp
      next
        case False
        then have "fst v \<noteq> pid x" using view_inj [OF ok v x] by (auto simp: brief_def)
        then show ?thesis using view [OF v] view_index(1) [OF ok v] begin_run(3) False
          matches_cong [of ?P' v ?P] other by simp
      qed
    next
      fix m
      assume "m \<in> set (msgs_pcb s')"
      then have m: "m \<in> set (msgs_pcb ?s)" using begin_run(1) by (simp add: outside_def)
      have "fst (brief m) \<noteq> pid x" using view_not_waiting [OF ok x m] by (simp add: brief_def)
      then show "matches (brief m) False ?P'" using wait [OF m] matches_cong [of ?P' "brief m" ?P] other by blast
    qed (use begin_run(1) b q dom in \<open>auto simp: outside_def split: if_splits\<close>)
  next
    case (end_run x r)
    let ?c = "current_pcb ?s"
    have x: "pview ?s ?c = Some (brief x)" using end_run(3) by (simp add: pview_def)
    have P': "deliver (clk s') (drop (length (kills ?s)) (kills s')) ?P = deliver (clk s') [(pid x, SIGSTOP)] ?P" (is "_ = ?P'")
      using end_run(7) by simp
    have other: "?P' i = ?P i" if "i \<noteq> pid x" for i using that by simp
    have "state x \<noteq> Some ''finished''" using current_unfinished [OF inv end_run(2)] end_run(3) by auto
    then have e: "brief x = (pid x, PDATA x, remaining_time x, False)" by (simp add: brief_def)
    have "matches (brief x) True ?P" using view [OF x] by simp
    then have "matches (pid x, PDATA x, remaining_time x, False) True ?P" unfolding e .
    then have moved: "matches (pid x, PDATA x, r, False) False ?P'" using matches_stop end_run(4) by blast
    show ?thesis unfolding P'
    proof (rule goal)
      fix p v
      assume v: "pview s' p = Some v"
      show "fst v = pid (?ms ! (p - 1)) \<and> fst (snd v) = PDATA (?ms ! (p - 1)) \<and> matches v (p = current_pcb s') ?P'"
      proof (cases "p = ?c")
        case True
        then have "v = (pid x, PDATA x, r, False)" "p \<noteq> current_pcb s'" using v end_run(2,5,6) by simp_all
        moreover have "pid x = pid (?ms ! (p - 1))" "PDATA x = PDATA (?ms ! (p - 1))"
          using view [OF x] True by (simp_all add: brief_def)
        ultimately show ?thesis using moved by (simp only: fst_conv snd_conv simp_thms)
      next
        case False
        then have v: "pview ?s p = Some v" using v end_run(5) by simp
        then have "fst v \<noteq> pid x" using view_inj [OF ok v x] False by (auto simp: brief_def)
        then show ?thesis using view [OF v] view_index(1) [OF ok v] end_run(6) False
          matches_cong [of ?P' v ?P] other by simp
      qed
    next
      fix m
      assume "m \<in> set (msgs_pcb s')"
      then have m: "m \<in> set (msgs_pcb ?s)" using end_run(1) by (simp add: outside_def)
      have "fst (brief m) \<noteq> pid x" using view_not_waiting [OF ok x m] by (simp add: brief_def)
      then show "matches (brief m) False ?P'" using wait [OF m] matches_cong [of ?P' "brief m" ?P] other by blast
    qed (use end_run(1) b q dom in \<open>auto simp: outside_def split: if_splits\<close>)
  qed
qed

text \<open>A process that runs and has time left is the scheduler's current one.\<close>

lemma running_process:
  assumes ok: "sys_ok k ps c d st y" and p: "procs y i = Some p" "\<not> stopped p" "0 < left p"
  shows "current_pcb (sch y) \<noteq> NULL \<and> (\<exists>x. pcb_heap (sch y) (current_pcb (sch y)) = Some x \<and> pid x = i \<and>
    left p \<le> remaining_time x \<and> pcb_ok x)"
proof -
  let ?ms = "pcb_sent (gen y)" and ?s = "sch y"
  have "i \<in> pid ` set ?ms" using sys_okD(7) [OF ok] p(1) by blast
  then obtain j where j: "j < length ?ms" "pid (?ms ! j) = i" by (auto simp: in_set_conv_nth)
  have H: "pcbs_ok (pcb_heap ?s) (pcb_brk ?s)"
    using sys_okD(3) [OF ok] by (auto simp: sched_inv_def sched_rep_def sched_core_def)
  have "Suc j < pcb_brk ?s"
  proof (rule ccontr)
    assume "\<not> Suc j < pcb_brk ?s"
    then have "msgs_pcb ?s ! (j - (pcb_brk ?s - 1)) = ?ms ! j" "j - (pcb_brk ?s - 1) < length (msgs_pcb ?s)"
      using sys_okD(4-6) [OF ok] j(1) by auto
    then have "?ms ! j \<in> set (msgs_pcb ?s)" by (metis nth_mem)
    from sys_okD(9) [OF ok this] p j(2) show False by (auto simp: matches_def brief_def split: if_splits)
  qed
  then have "Suc j \<in> dom (pcb_heap ?s)" using H by (simp add: pcbs_ok_def)
  then obtain x where x: "pcb_heap ?s (Suc j) = Some x" by blast
  then have v: "pview ?s (Suc j) = Some (brief x)" by (simp add: pview_def)
  have "pid x = i" using sys_okD(8) [OF ok v] j(2) by (simp add: brief_def)
  moreover have "matches (brief x) (Suc j = current_pcb ?s) (procs y)" using sys_okD(8) [OF ok v] by blast
  ultimately have "Suc j = current_pcb ?s \<and> left p \<le> remaining_time x"
    using p by (auto simp: matches_def brief_def split: if_splits)
  moreover have "pcb_ok x" using pcbs_ok_get(1) [OF H, of "Suc j" x] x by simp
  ultimately show ?thesis using x \<open>pid x = i\<close> by auto
qed

lemma tick_signal_ok:
  assumes "sys_ok k ps c d st y" "procs y i = Some p" "ticks (clk (sch y)) p"
    "selected_algorithm (sch y) = SRTN \<longrightarrow> front (rdy_queue (sch y)) = Some (Some (current_pcb (sch y)))"
  shows "signal_ok (sch y)"
proof -
  have "\<not> stopped p" "0 < left p" using assms(3) by (simp_all add: ticks_def)
  from running_process [OF assms(1,2) this] assms(4) \<open>0 < left p\<close> show ?thesis
    by (auto simp: signal_ok_def)
qed

lemma poll_ticks:
  assumes "ticks now p" "left p < 1073741824"
  shows "left (poll now p) = left p - 1" "stopped (poll now p) = stopped p" "exited (poll now p) = exited p"
    "last (signals (poll now p)) = (if left p = 1 then SIGUSR1 else SIGUSR2)"
proof -
  have "0 < left p" "now \<noteq> last_clk p" using assms(1) by (simp_all add: ticks_def)
  moreover from this assms(2) have "wrap32 (left p - 1) = left p - 1" by (simp add: c_int)
  ultimately show "left (poll now p) = left p - 1" "stopped (poll now p) = stopped p" "exited (poll now p) = exited p"
    "last (signals (poll now p)) = (if left p = 1 then SIGUSR1 else SIGUSR2)"
    by (auto simp: poll_def Let_def)
qed

lemma sys_ok_signal:
  assumes ok: "sys_ok k ps c d st y" and p: "procs y i = Some p" "ticks (clk (sch y)) p"
    "selected_algorithm (sch y) = SRTN \<longrightarrow> front (rdy_queue (sch y)) = Some (Some (current_pcb (sch y)))"
    and run: "handle_signal (poll (clk (sch y)) p) (sch y) = Some s'" and live: "sch_phase y \<noteq> Done"
  shows "sys_ok k ps c d st (y\<lparr>sch := s', procs := (procs y)(i \<mapsto> poll (clk (sch y)) p)\<rparr>)"
proof -
  let ?ms = "pcb_sent (gen y)" and ?s = "sch y" and ?P = "procs y" and ?c = "current_pcb (sch y)"
  let ?p = "poll (clk ?s) p"
  note good = sys_okD(1) [OF ok] and rch = sys_okD(2) [OF ok] and inv = sys_okD(3) [OF ok] and b = sys_okD(4,5) [OF ok]
    and q = sys_okD(6) [OF ok] and dom = sys_okD(7) [OF ok] and view = sys_okD(8) [OF ok] and wait = sys_okD(9) [OF ok]
  have lp: "\<not> stopped p" "0 < left p" "\<not> exited p" using p(2) by (simp_all add: ticks_def)
  have sig: "signal_ok ?s" by (rule tick_signal_ok [OF ok p])
  obtain x where x: "?c \<noteq> NULL" "pcb_heap ?s ?c = Some x" "pid x = i" "left p \<le> remaining_time x" "pcb_ok x"
    using running_process [OF ok p(1) lp(1,2)] by blast
  have vx: "pview ?s ?c = Some (brief x)" using x(2) by (simp add: pview_def)
  note po = poll_ticks [OF p(2)]
  have "left p < 1073741824" using x(4,5) by (simp add: pcb_ok_def prio_ok_def)
  note po = po [OF this]
  obtain xs where core: "sched_core ?s xs" using inv by (auto simp: sched_inv_def sched_rep_def)
  define fin where "fin = (left p = 1)"
  have run: "(if fin then handle_process_termination ?s else handle_process_tick ?s) = Some s'"
    using run po(4) by (auto simp: handle_signal_def fin_def)
  have v: "outside s' = outside ?s" "current_pcb s' = (if fin then NULL else ?c)"
    "pview s' = (pview ?s)(?c \<mapsto> (i, PDATA x, remaining_time x - 1, fin))"
    using termination_view [OF core sig _ x(2)] tick_view [OF core sig _ x(2)] run x(3) by (auto split: if_splits)
  have step: "sched_step (At (sch_phase y) ?s) (At (sch_phase y) s')"
    using sched_step.sigusr1 [OF sig live] sched_step.sigusr2 [OF sig live] run
    by (auto simp: outcome_def split: if_splits)
  have rch': "reachable st (At (sch_phase y) s')" by (rule reachable.step [OF rch step])
  have inv': "sched_inv s'" using inv.step [OF step] inv by simp
  have other: "((?P)(i \<mapsto> ?p)) j = ?P j" if "j \<noteq> i" for j using that by simp
  have view': "fst v = pid (?ms ! (n - 1)) \<and> fst (snd v) = PDATA (?ms ! (n - 1)) \<and>
      matches v (n = current_pcb s') (?P(i \<mapsto> ?p))" if n: "pview s' n = Some v" for n v
  proof (cases "n = ?c")
    case True
    then have "v = (i, PDATA x, remaining_time x - 1, fin)" using n v(3) by simp
    moreover have "matches (i, PDATA x, remaining_time x - 1, fin) (n = current_pcb s') (?P(i \<mapsto> ?p))"
      using True po(1-3) lp x(1,4) v(2) by (auto simp: matches_def fin_def)
    ultimately show ?thesis using view [OF vx] x(3) True by (simp add: brief_def)
  next
    case False
    then have vn: "pview ?s n = Some v" using n v(3) by simp
    then have "fst v \<noteq> i" using view_inj [OF ok vn vx] False x(3) by (auto simp: brief_def)
    then show ?thesis using view [OF vn] view_index(1) [OF ok vn] v(2) False
      matches_cong [of "?P(i \<mapsto> ?p)" v ?P] other by simp
  qed
  have wait': "matches (brief m) False (?P(i \<mapsto> ?p))" if "m \<in> set (msgs_pcb ?s)" for m
  proof -
    have "fst (brief m) \<noteq> i" using view_not_waiting [OF ok vx that] x(3) by (simp add: brief_def)
    then show ?thesis using wait [OF that] matches_cong [of "?P(i \<mapsto> ?p)" "brief m" ?P] other by blast
  qed
  have "i \<in> pid ` set ?ms" using dom p(1) by blast
  then show ?thesis using good rch' inv' b q dom v(1) view' wait'
    by (auto simp: sys_ok_def Let_def outside_def)
qed

text \<open>A change of the processes alone, or of what the scheduler and the PCBs sent do not depend on.\<close>

lemma sys_ok_procs:
  assumes ok: "sys_ok k ps c d st y"
    and same: "\<And>v cur. matches v cur (procs y) \<Longrightarrow> matches v cur P'" "dom P' \<subseteq> dom (procs y)"
  shows "sys_ok k ps c d st (y\<lparr>procs := P'\<rparr>)"
proof -
  have "dom P' \<subseteq> pid ` set (pcb_sent (gen y))" by (rule subset_trans [OF same(2) sys_okD(7) [OF ok]])
  then show ?thesis using ok unfolding sys_ok_def Let_def by (simp add: same(1) del: gen_good_simps)
qed

lemma sys_ok_gen:
  assumes ok: "sys_ok k ps c d st y" and g: "gen_good k ps c d (Gen (gen_phase y) g')" "pcb_sent g' = pcb_sent (gen y)"
  shows "sys_ok k ps c d st (y\<lparr>gen := g'\<rparr>)"
  using ok g unfolding sys_ok_def Let_def by (simp del: gen_good_simps)

lemma sys_ok_idle:
  assumes ok: "sys_ok k ps c d st y" and p: "procs y i = Some p" "\<not> stopped p" "\<not> exited p" "\<not> ticks (clk (sch y)) p"
  shows "sys_ok k ps c d st (y\<lparr>procs := (procs y)(i \<mapsto> poll (clk (sch y)) p)\<rparr>)"
proof (rule sys_ok_procs [OF ok])
  have poll: "0 < left p \<Longrightarrow> poll (clk (sch y)) p = p" "\<not> 0 < left p \<Longrightarrow> poll (clk (sch y)) p = p\<lparr>exited := True\<rparr>"
    using p(2-4) by (auto simp: poll_def ticks_def)
  show "matches v cur ((procs y)(i \<mapsto> poll (clk (sch y)) p))" if "matches v cur (procs y)" for v cur
    using that p(1) poll by (cases v; cases "0 < left p") (auto simp: matches_def split: if_splits)
  show "dom ((procs y)(i \<mapsto> poll (clk (sch y)) p)) \<subseteq> dom (procs y)" using p(1) by auto
qed

lemma sys_ok_reap:
  assumes ok: "sys_ok k ps c d st y" and k: "kernel_ok k {c, d}" and i: "i \<in> set (children (gen y))"
    "case procs y i of None \<Rightarrow> True | Some p \<Rightarrow> exited p" "handle_child_exit [i] (gen y) = Some g'"
  shows "sys_ok k ps c d st (y\<lparr>gen := g', procs := (procs y)(i := None)\<rparr>)"
proof -
  have "gen_step k (Gen (gen_phase y) (gen y)) (goutcome (gen_phase y) (handle_child_exit [i] (gen y)))"
    using i(1) by (intro gen_step.child_exit) auto
  from gen_step_good [OF this [unfolded i(3) goutcome_def option.case] sys_okD(1) [OF ok] k]
  have "gen_good k ps c d (Gen (gen_phase y) g')" .
  moreover have "pcb_sent g' = pcb_sent (gen y)" using handle_child_exit_frame [OF i(3)] by simp
  ultimately have "sys_ok k ps c d st (y\<lparr>gen := g'\<rparr>)" by (rule sys_ok_gen [OF ok])
  moreover have "matches v cur ((procs y)(i := None))" if "matches v cur (procs y)" for v cur
    using that i(2) by (cases v) (auto simp: matches_def split: if_splits option.splits)
  ultimately have "sys_ok k ps c d st (y\<lparr>gen := g'\<rparr>\<lparr>procs := (procs y)(i := None)\<rparr>)"
    by (intro sys_ok_procs) auto
  then show ?thesis by simp
qed

lemma sys_ok_clock:
  assumes ok: "sys_ok k ps c d st y" and k: "kernel_ok k {c, d}"
    and t: "clk (sch y) < 2147483647" "gen_clk (gen y) < 2147483647"
  shows "sys_ok k ps c d st (y\<lparr>gen := (gen y)\<lparr>gen_clk := gen_clk (gen y) + 1\<rparr>, sch := (sch y)\<lparr>clk := clk (sch y) + 1\<rparr>\<rparr>)"
proof -
  let ?g = "(gen y)\<lparr>gen_clk := gen_clk (gen y) + 1\<rparr>" and ?s = "(sch y)\<lparr>clk := clk (sch y) + 1\<rparr>"
  have g: "gen_good k ps c d (Gen (gen_phase y) ?g)"
    by (rule gen_step_good [OF gen_step.clock [OF t(2)] sys_okD(1) [OF ok] k])
  have step: "sched_step (At (sch_phase y) (sch y)) (At (sch_phase y) ?s)" by (rule sched_step.clock [OF t(1)])
  have "reachable st (At (sch_phase y) ?s)" by (rule reachable.step [OF sys_okD(2) [OF ok] step])
  moreover have "sched_inv ?s" using inv.step [OF step] sys_okD(3) [OF ok] by simp
  moreover have "pview ?s = pview (sch y)" by (simp add: pview_def fun_eq_iff)
  ultimately show ?thesis using ok g unfolding sys_ok_def Let_def by (simp del: gen_good_simps)
qed

section \<open>Runs of the system\<close>

definition system_fine :: "kernel \<Rightarrow> string \<Rightarrow> int \<Rightarrow> Process list \<Rightarrow> int \<Rightarrow> int \<Rightarrow> bool" where
  "system_fine k algo q ps c d \<longleftrightarrow> run_ok k ps c d \<and> file_fine ps \<and> slice_ok algo q \<and> in_int q"

abbreviation sched_starts :: "string \<Rightarrow> int \<Rightarrow> Process list \<Rightarrow> int \<Rightarrow> config" where
  "sched_starts algo q ps now \<equiv> At Guard (run_scheduler algo q (int (length ps)) now)"

lemma sys_ok_start:
  assumes "system_fine k algo q ps c d"
  shows "sys_ok k ps c d (sched_starts algo q ps now) (start_system algo q ps c d now)"
proof -
  have "run_ok k ps c d" using assms by (simp add: system_fine_def)
  then have "gen_good k ps c d (gen_starts ps c d now)" by (rule run_good) (rule gen_reachable.start)
  moreover have "pcb_sent (start_generator ps c d now) = []" by (simp add: start_generator_def)
  moreover have "sched_inv (run_scheduler algo q (int (length ps)) now)"
    using assms sched_inv_start by (simp add: system_fine_def)
  moreover have "pcb_heap (run_scheduler algo q (int (length ps)) now) = Map.empty"
    "msgs_pcb (run_scheduler algo q (int (length ps)) now) = []"
    "pcb_brk (run_scheduler algo q (int (length ps)) now) = 1" by (simp_all add: run_scheduler_def Let_def)
  ultimately show ?thesis using reachable.start
    by (simp add: sys_ok_def Let_def start_system_def pview_def del: gen_good_simps)
qed

lemma signal_not_done:
  assumes ok: "sys_ok k ps c d (sched_starts algo q ps now) y" and fine: "system_fine k algo q ps c d"
    and cur: "current_pcb (sch y) \<noteq> NULL"
  shows "sch_phase y \<noteq> Done"
proof
  assume "sch_phase y = Done"
  then have "reachable (sched_starts algo q ps now) (At Done (sch y))" using sys_okD(2) [OF ok] by simp
  moreover have "holds sched_inv (sched_starts algo q ps now)"
    using fine sched_inv_start by (simp add: system_fine_def)
  ultimately have "\<not> loop_guard (sch y)" using reachable_Done by blast
  then show False using cur by (simp add: loop_guard_def)
qed

lemma sys_step_ok:
  assumes fine: "system_fine k algo q ps c d" and step: "sys_step k (Up y) e"
    and ok: "sys_ok k ps c d (sched_starts algo q ps now) y"
  shows "\<exists>y'. e = Up y' \<and> sys_ok k ps c d (sched_starts algo q ps now) y'"
proof -
  have k: "kernel_ok k {c, d}" and fl: "file_fine ps" using fine by (simp_all add: system_fine_def run_ok_def)
  note good = sys_okD(1) [OF ok] and inv = sys_okD(3) [OF ok]
  from step show ?thesis
  proof (induct "Up y" e rule: sys_step.induct)
    case (generator ph g')
    then show ?case using sys_ok_generator [OF ok k fl] by blast
  next
    case generator_down
    from gen_step_good [OF gen_exec_step [OF generator_down] good k] show ?case by simp
  next
    case (scheduler ph s')
    then show ?case using sys_ok_scheduler [OF ok k fl] by blast
  next
    case scheduler_down
    from inv.step [OF exec_step [OF scheduler_down]] inv show ?case by simp
  next
    case (signal i p s')
    have "sch_phase y \<noteq> Done"
      using signal_not_done [OF ok fine] tick_signal_ok [OF ok signal(1-3)] by (simp add: signal_ok_def)
    then show ?case using sys_ok_signal [OF ok signal] by blast
  next
    case (signal_down i p)
    have "signal_ok (sch y)" by (rule tick_signal_ok [OF ok signal_down(1-3)])
    from handle_process_tick_inv [OF inv this] handle_process_termination_inv [OF inv this] signal_down(4)
    show ?case by (auto simp: handle_signal_def split: if_splits)
  next
    case (idle_round i p)
    then show ?case using sys_ok_idle [OF ok] by blast
  next
    case (reap i g')
    then show ?case using sys_ok_reap [OF ok k] by blast
  next
    case (reap_down i)
    have "gen_step k (Gen (gen_phase y) (gen y)) (goutcome (gen_phase y) (handle_child_exit [i] (gen y)))"
      using reap_down(1) by (intro gen_step.child_exit) auto
    from gen_step_good [OF this [unfolded reap_down(2) goutcome_def option.case] good k] show ?case by simp
  next
    case clock
    then show ?case using sys_ok_clock [OF ok k] by blast
  qed
qed

lemma sys_reachable_ok:
  "sys_reachable k x e \<Longrightarrow> x = Up (start_system algo q ps c d now) \<Longrightarrow> system_fine k algo q ps c d \<Longrightarrow>
   \<exists>y. e = Up y \<and> sys_ok k ps c d (sched_starts algo q ps now) y"
proof (induct rule: sys_reachable.induct)
  case start
  then show ?case using sys_ok_start by blast
next
  case (step d e)
  then show ?case using sys_step_ok by blast
qed

end
