(* ===== verification/Scheduler_Properties.thy ===== *)
theory Scheduler_Properties
  imports Scheduler_Accounts
begin

text \<open>
  What the invariants say about runs of the scheduler that start as \<open>run_scheduler\<close> starts it, and a
  concrete run of two processes under round robin on which the statements are evaluated. The runs are
  those of \<open>sched_step\<close>: signals come between the functions, where \<open>signal_ok\<close> holds.
\<close>

section \<open>A concrete run\<close>

definition demo_pcb :: "int \<Rightarrow> int \<Rightarrow> int \<Rightarrow> int \<Rightarrow> PCB" where
  "demo_pcb i t r prio =
     \<lparr>pid = 100 + i, start_time = - 1, wait_time = 0, remaining_time = r, state = None,
      memory_block = None,
      PDATA = \<lparr>proc_id = i, arrival_time = t, runtime = r, proc_priority = prio, memory_size = 64\<rparr>\<rparr>"

abbreviation body :: "event list" where
  "body \<equiv> [Loop, Loop, Loop, Loop, Loop]"

text \<open>
  Process 1 needs two time units and process 2 one; both arrive at time 0, and the quantum is 1. At
  time 2 process 1 is preempted, process 2 finishes at 3 and process 1 at 4.
\<close>

definition demo_start :: config where
  "demo_start = At Guard (run_scheduler ''rr'' 1 2 0)"

definition demo_events :: "event list" where
  "demo_events = [Send_pcb (demo_pcb 1 0 2 0), Send_pcb (demo_pcb 2 0 1 0), Send_str ''no_more_processes'', Clock] @
     body @ [Clock, Sigusr2] @ body @ body @ [Clock, Sigusr1] @ body @ [Clock, Sigusr1, Loop]"

definition demo_at :: "nat \<Rightarrow> config" where
  "demo_at k = (case exec_all (take k demo_events) demo_start of None \<Rightarrow> Crashed | Some c \<Rightarrow> c)"

definition demo_state :: "nat \<Rightarrow> sched" where
  "demo_state k = (case demo_at k of At ph s \<Rightarrow> s | Crashed \<Rightarrow> run_scheduler ''rr'' 1 2 0)"

lemma demo_reachable: "demo_at k \<noteq> Crashed \<Longrightarrow> reachable demo_start (demo_at k)"
  by (auto simp: demo_at_def split: option.splits intro: exec_all_reachable reachable.start)

primrec phase_of :: "config \<Rightarrow> phase option" where
  "phase_of Crashed = None"
| "phase_of (At ph s) = Some ph"

lemma demo_phases:
  "phase_of (demo_at 31) = Some Done" "phase_of (demo_at 29) = Some Guard"
  "phase_of (demo_at 14) = Some Running"
  by code_simp+

lemma demo_at_state: "phase_of (demo_at k) = Some ph \<Longrightarrow> demo_at k = At ph (demo_state k)"
  by (auto simp: demo_state_def split: config.splits)

lemmas demo_configs = demo_phases [THEN demo_at_state]

lemma demo_reachable_At: "phase_of (demo_at k) = Some ph \<Longrightarrow> reachable demo_start (At ph (demo_state k))"
  using demo_reachable [of k] demo_at_state [of k ph] by (cases "demo_at k") auto

lemma demo_values:
  "current_pcb (demo_state 29) = 1" "signal_ok (demo_state 29)"
  "execution_log (demo_state 31) = [Idle 0 1, Runs 1 2 1 2 1, Finishes 2 1 2 3, Finishes 1 2 3 4]"
  "map_option state (pcb_heap (demo_state 31) 2) = Some (Some ''finished'')"
  "map waited (fin_entries (files (demo_state 31))) = [2, 2]"
  by code_simp+

section \<open>Lemmas on reachable states\<close>

abbreviation started :: "string \<Rightarrow> int \<Rightarrow> int \<Rightarrow> int \<Rightarrow> config" where
  "started name q n now \<equiv> At Guard (run_scheduler name q n now)"

lemma reachable_sched_inv:
  "reachable (started name q n now) (At ph s) \<Longrightarrow> slice_ok name q \<Longrightarrow> in_int q \<Longrightarrow> sched_inv s"
  using reachable_inv by fastforce

lemma reachable_time:
  assumes "reachable (started name q n now) (At ph s)" "slice_ok name q" "in_int q"
    "set_selected_algorithm name RR \<noteq> HPF" "0 \<le> now" "now \<le> 2147483647"
  shows "time_ok now s"
  using time.reachable [OF assms(1), of now] time_ok_start [OF assms(4-6)] sched_inv_start [OF assms(2,3)]
  by simp

lemma reachable_accounts:
  assumes "reachable (started name q n now) (At ph s)" "slice_ok name q" "in_int q"
  shows "accounts_ok s"
  using accounts.reachable [OF assms(1)] accounts_start sched_inv_start [OF assms(2,3)] by simp

lemma reachable_wait:
  assumes "reachable (started name q n now) (At ph s)" "slice_ok name q" "in_int q" "0 \<le> now"
  shows "wait_ok s"
  using waits.reachable [OF assms(1)] wait_start [OF assms(4)] sched_inv_start [OF assms(2,3)] by simp

lemma inv_core: "sched_inv s \<Longrightarrow> \<exists>xs. sched_core s xs"
  by (auto simp: sched_inv_def sched_rep_def)

text \<open>A process that has not finished is queued or running.\<close>

lemma unfinished_live:
  "sched_core s xs \<Longrightarrow> pcb_heap s p = Some pcb \<Longrightarrow> state pcb \<noteq> Some ''finished'' \<Longrightarrow>
   p \<in> fst ` set xs \<or> p = current_pcb s"
  by (auto simp: sched_core_def finished_ok_def)

lemma queued_priority:
  assumes "sched_core s xs" "p \<in> fst ` set xs" "pcb_heap s p = Some pcb"
  shows "(p, queue_priority (selected_algorithm s) pcb) \<in> set xs"
  using assms by (fastforce simp: sched_core_def entries_ok_def)

text \<open>The first entry of a priority queue has the least priority value of the queued processes.\<close>

lemma first_entry_min:
  assumes core: "sched_core s (x # ys)" and p: "p \<in> fst ` set (x # ys)" "pcb_heap s p = Some pcb"
  shows "\<exists>c. pcb_heap s (fst x) = Some c \<and>
    queue_priority (selected_algorithm s) c \<le> queue_priority (selected_algorithm s) pcb"
proof -
  let ?alg = "selected_algorithm s"
  have q: "queue_is ?alg (rdy_queue s) (x # ys)" and ent: "entries_ok ?alg (pcb_heap s) (x # ys)"
    using core by (simp_all add: sched_core_def)
  obtain c where c: "pcb_heap s (fst x) = Some c" "snd x = queue_priority ?alg c"
    using ent by (auto simp: entries_ok_def)
  have mem: "(p, queue_priority ?alg pcb) \<in> set (x # ys)" by (rule queued_priority [OF core p])
  have "snd x \<le> queue_priority ?alg pcb"
  proof (cases "?alg = RR")
    case True
    then show ?thesis using c(2) by (simp add: queue_priority_def)
  next
    case False
    then show ?thesis using queue_is_first_min [OF q False] mem by fastforce
  qed
  with c show ?thesis by auto
qed

lemma handle_current_srtn:
  assumes core: "sched_core s xs" and alg: "selected_algorithm s = SRTN" and c: "current_pcb s \<noteq> NULL"
    and run: "handle_current_running_process s = Some s'"
  shows "current_pcb s' = NULL \<or> s' = s \<and> xs \<noteq> [] \<and> fst (hd xs) = current_pcb s"
proof -
  have q: "queue_is SRTN (rdy_queue s) xs" and ne: "xs \<noteq> []"
    using core alg c by (auto simp: sched_core_def current_ok_def)
  show ?thesis
  proof (cases "fst (hd xs) = current_pcb s")
    case True
    then have "s' = s" using run alg queue_is_front [OF q] ne
      by (auto simp: handle_current_running_process_def ptr_of_def Let_def bind_eq_Some_conv split: if_splits)
    with True ne show ?thesis by simp
  next
    case False
    have "fst (hd xs) \<noteq> NULL"
      using core ne pcbs_ok_get(2) [of "pcb_heap s" "pcb_brk s" "fst (hd xs)"]
      by (cases xs) (auto simp: sched_core_def entries_ok_def)
    then have "handle_quantum_expiration s = Some s'" using run alg queue_is_front [OF q] ne c False
      by (auto simp: handle_current_running_process_def ptr_of_def Let_def bind_eq_Some_conv split: if_splits)
    then show ?thesis using handle_quantum_expiration_run [OF core c] alg by auto
  qed
qed

section \<open>Properties\<close>

text \<open>
  C2: when the loop ends, every process the scheduler has received is finished, and the log holds
  exactly one "finished" entry for each. The run is one of \<open>sched_step\<close>, in which signals are handled where
  \<open>signal_ok\<close> holds.
\<close>

theorem scheduler_finishes_all:
  assumes "reachable (started name q n now) (At Done s)" "slice_ok name q" "in_int q"
  shows "(\<forall>p pcb. pcb_heap s p = Some pcb \<longrightarrow> state pcb = Some ''finished'') \<and>
    mset (map process_id (fin_entries (files s))) =
      image_mset (\<lambda>p. proc_id (PDATA (the (pcb_heap s p)))) (mset_set (dom (pcb_heap s)))"
proof -
  have inv: "sched_inv s" by (rule reachable_sched_inv [OF assms])
  have "\<not> loop_guard s"
    using reachable_Done [OF assms(1) refl] sched_inv_start [OF assms(2,3)] by simp
  then have all: "\<forall>p pcb. pcb_heap s p = Some pcb \<longrightarrow> state pcb = Some ''finished''"
    using not_guard_finished [OF inv] by blast
  then have "fin_pcbs (pcb_heap s) = dom (pcb_heap s)" by (auto simp: fin_pcbs_def)
  then show ?thesis using all reachable_accounts [OF assms] by (simp add: accounts_ok_def ids_of_def)
qed

theorem scheduler_finishes_all_witness:
  "mset (map process_id (fin_entries (files (demo_state 31)))) =
     image_mset (\<lambda>p. proc_id (PDATA (the (pcb_heap (demo_state 31) p)))) (mset_set (dom (pcb_heap (demo_state 31))))"
  using scheduler_finishes_all [of "''rr''" 1 2 0 "demo_state 31"] demo_reachable_At [OF demo_phases(1)]
  by (simp add: demo_start_def in_int_def)

text \<open>
  C8: under RR and SRTN the intervals of the execution log, idle and busy, follow one another without
  gap or overlap from the start of the scheduler to the end of the last run, or to the start of the
  current one, and the idle time that goes into the CPU utilisation is the sum of the idle
  intervals, never negative and never more than the time that has passed. The run is one of \<open>sched_step\<close>,
  whose functions read the clock once; the code's dispatch reads it twice, and a tick between the two
  leaves a gap of a second.
\<close>

theorem execution_log_contiguous:
  assumes "reachable (started name q n now) (At ph s)" "slice_ok name q" "in_int q"
    "set_selected_algorithm name RR \<noteq> HPF" "0 \<le> now" "now \<le> 2147483647"
  shows "contiguous now (execution_log s)
      (if current_pcb s = NULL then last_process_end_time s else log_start_time s) \<and>
    idle_time s = idle_sum (execution_log s) \<and> 0 \<le> idle_time s \<and> idle_time s \<le> clk s - now"
proof -
  have t: "time_ok now s" by (rule reachable_time [OF assms])
  then have c: "contiguous now (execution_log s)
      (if current_pcb s = NULL then last_process_end_time s else log_start_time s)"
    by (simp add: time_ok_def)
  from contiguous_idle [OF c] t show ?thesis using c by (auto simp: time_ok_def split: if_splits)
qed

theorem execution_log_contiguous_witness:
  "contiguous 0 [Idle 0 1, Runs 1 2 1 2 1, Finishes 2 1 2 3, Finishes 1 2 3 4]
     (if current_pcb (demo_state 31) = NULL then last_process_end_time (demo_state 31)
      else log_start_time (demo_state 31)) \<and>
   idle_time (demo_state 31) = idle_sum [Idle 0 1, Runs 1 2 1 2 1, Finishes 2 1 2 3, Finishes 1 2 3 4]"
  using execution_log_contiguous [of "''rr''" 1 2 0 Done "demo_state 31"]
    demo_reachable_At [OF demo_phases(1)] unfolding demo_values(3)
  by (simp add: demo_start_def in_int_def set_selected_algorithm_def Let_def del: contiguous.simps)

text \<open>
  In every reachable state \<open>total_wait\<close> and \<open>total_WTA\<close>, from which scheduler.perf's averages are
  computed, are the sums of the waiting times and weighted turnaround times of the "finished"
  entries of scheduler.log, each logged with its weighted turnaround as \<open>round_number\<close> prints it.
\<close>

theorem totals_sum_log:
  assumes "reachable (started name q n now) (At ph s)" "slice_ok name q" "in_int q"
  shows "total_wait (files s) = wrap32 (sum_list (map waited (fin_entries (files s)))) \<and>
    total_WTA (files s) = sum_list (map weighted (fin_entries (files s))) \<and>
    (\<forall>e \<in> set (fin_entries (files s)).
       finished e = Some (turnaround e, round_number (of_int (turnaround e) / of_int (total e))))"
  using reachable_accounts [OF assms] by (simp add: accounts_ok_def log_ok_def weighted_def)

theorem totals_sum_log_witness: "total_wait (files (demo_state 31)) = 4"
  using totals_sum_log [of "''rr''" 1 2 0 Done "demo_state 31"] demo_reachable_At [OF demo_phases(1)]
    demo_values(5) by (simp add: demo_start_def in_int_def wrap32_def)

text \<open>
  C9: when the running process terminates, its log entry's turnaround time is the time since its arrival,
  and this is its waiting time plus its run time, plus the time of its last run by which that run was longer than what the process
  had left at its dispatch. So the equation in PCB.h, "TA = wait_time + runtime", holds only when it ran
  exactly that long. It is not what the samples in tests.md print: there TA is counted from the process's first start (process 2
  under RR: finished at 14, arrived at 11, waited 2, TA 1; this theorem gives 3). The run is one of
  \<open>sched_step\<close>, in which signals are handled where \<open>signal_ok\<close> holds.
\<close>

theorem turnaround_is_wait_plus_runtime:
  assumes "reachable (started name q n now) (At ph s)" "slice_ok name q" "in_int q" "0 \<le> now"
    "signal_ok s" "handle_process_termination s = Some s'"
  shows "\<exists>e. scheduler_log (files s') = scheduler_log (files s) @ [e] \<and> event e = ''finished'' \<and>
    turnaround e = wrap32 (clk s - arr e) \<and>
    turnaround e = wrap32 (waited e + total e + (clk s - log_start_time s - last_remain_time s))"
proof -
  obtain xs where core: "sched_core s xs" using inv_core [OF reachable_sched_inv [OF assms(1-3)]] by blast
  have w: "wait_ok s" by (rule reachable_wait [OF assms(1-4)])
  obtain pcb where pcb: "pcb_heap s (current_pcb s) = Some pcb" and c: "current_pcb s \<noteq> NULL"
    using assms(5) by (auto simp: signal_ok_def)
  have f: "log_event (clk s) (terminated pcb) (files s) = Some (files s')"
    using handle_process_termination_run [OF core assms(5) pcb] assms(6) by auto
  let ?e = "entry_of (clk s) (terminated pcb)"
  let ?r = "runtime (PDATA pcb) + (clk s - log_start_time s - last_remain_time s)"
  have wt: "waited ?e = wrap32 (log_start_time s - arrival_time (PDATA pcb) -
      (runtime (PDATA pcb) - last_remain_time s))"
    using w pcb c by (simp add: wait_ok_def entry_of_def terminated_def)
  have "wrap32 (waited ?e + ?r) = wrap32 (clk s - arrival_time (PDATA pcb))"
    unfolding wt wrap32_add by (simp add: algebra_simps)
  then have "turnaround ?e = wrap32 (waited ?e + total ?e + (clk s - log_start_time s - last_remain_time s))"
    by (simp add: turnaround_def entry_of_def terminated_def Let_def algebra_simps)
  moreover have "event ?e = ''finished''" "turnaround ?e = wrap32 (clk s - arr ?e)"
    by (simp_all add: turnaround_def entry_of_def terminated_def Let_def)
  ultimately show ?thesis using log_event_entry(1) [OF f] by blast
qed

theorem turnaround_is_wait_plus_runtime_witness:
  "\<exists>s' e. handle_process_termination (demo_state 29) = Some s' \<and>
     scheduler_log (files s') = scheduler_log (files (demo_state 29)) @ [e] \<and>
     turnaround e = wrap32 (clk (demo_state 29) - arr e) \<and>
     turnaround e = wrap32 (waited e + total e +
       (clk (demo_state 29) - log_start_time (demo_state 29) - last_remain_time (demo_state 29)))"
proof -
  have r: "reachable (started ''rr'' 1 2 0) (At Guard (demo_state 29))"
    using demo_reachable_At [OF demo_phases(2)] by (simp add: demo_start_def)
  have q: "in_int 1" by (simp add: in_int_def)
  have "sched_inv (demo_state 29)" by (rule reachable_sched_inv [OF r _ q]) simp
  from handle_process_termination_inv [OF this demo_values(2)] obtain s' where
    "handle_process_termination (demo_state 29) = Some s'" by blast
  with turnaround_is_wait_plus_runtime [OF r _ q _ demo_values(2) this] show ?thesis by auto
qed

text \<open>
  C14: under RR, a running process that has used up its quantum is stopped, left with exactly the
  remaining time of its dispatch less the quantum, and goes to the end of the queue; the order of
  the others does not change. The state is one of a run of \<open>sched_step\<close>.
\<close>

theorem rr_quantum_rotates:
  assumes "reachable (started name q n now) (At ph s)" "slice_ok name q" "in_int q" "selected_algorithm s = RR"
    "current_pcb s \<noteq> NULL" "pcb_heap s (current_pcb s) = Some pcb"
    "remaining_time pcb \<le> last_remain_time s - quantum s"
  shows "\<exists>s' x xs pcb'. handle_current_running_process s = Some s' \<and>
    queue_is RR (rdy_queue s) (x # xs) \<and> fst x = current_pcb s \<and> queue_is RR (rdy_queue s') (xs @ [x]) \<and>
    current_pcb s' = NULL \<and> kills s' = kills s @ [(pid pcb, SIGSTOP)] \<and>
    pcb_heap s' (current_pcb s) = Some pcb' \<and> state pcb' = Some ''stopped'' \<and>
    remaining_time pcb' = last_remain_time s - quantum s"
proof -
  obtain xs where core: "sched_core s xs" using inv_core [OF reachable_sched_inv [OF assms(1-3)]] by blast
  have q: "quantum_ok RR (quantum s)" and qi: "queue_is RR (rdy_queue s) xs" and
    cur: "current_ok RR (pcb_heap s) (current_pcb s) (last_remain_time s) xs"
    using core assms(4) by (simp_all add: sched_core_def)
  then have xs: "xs = hd xs # tl xs" "fst (hd xs) = current_pcb s" using assms(5) by (auto simp: current_ok_def)
  let ?r = "last_remain_time s - quantum s"
  let ?t = "put_pcb s (current_pcb s) (pcb\<lparr>remaining_time := ?r\<rparr>)"
  have t: "sched_core ?t xs" by (rule put_pcb_core [OF core assms(4-7)]) (use q in \<open>simp add: quantum_ok_def\<close>)
  have tc: "current_pcb ?t \<noteq> NULL" "selected_algorithm ?t \<noteq> HPF" using assms(4,5) by (simp_all add: put_pcb_def)
  have run: "handle_current_running_process s = handle_quantum_expiration ?t"
    using assms(4-7) quantum_limit [OF core assms(5,4)]
    by (simp add: handle_current_running_process_def get_pcb_def Let_def)
  have sel: "selected_algorithm ?t = RR" "current_pcb ?t = current_pcb s" "kills ?t = kills s"
    "pcb_heap ?t (current_pcb s) = Some (pcb\<lparr>remaining_time := ?r\<rparr>)"
    using assms(4) by (simp_all add: put_pcb_def)
  obtain qq f where qq: "queue_is RR qq (tl xs @ [hd xs])" and
    e: "handle_quantum_expiration ?t = Some (?t\<lparr>
      execution_log := execution_log ?t @ [Runs (proc_id (PDATA pcb)) (runtime (PDATA pcb))
        (log_start_time ?t) (clk ?t) ?r],
      last_process_end_time := clk ?t, kills := kills s @ [(pid pcb, SIGSTOP)],
      pcb_heap := (pcb_heap ?t)(current_pcb s \<mapsto> pcb\<lparr>remaining_time := ?r, state := Some ''stopped''\<rparr>),
      files := f, current_pcb := NULL, rdy_queue := qq, log_start_time := 0\<rparr>)"
    using handle_quantum_expiration_run [OF t tc] by (auto simp: sel)
  have "queue_is RR (rdy_queue s) (hd xs # tl xs)" using qi xs(1) by simp
  then show ?thesis unfolding run e using xs(2) qq
    by (intro exI conjI) (rule refl | assumption | simp)+
qed

theorem rr_quantum_rotates_witness:
  "\<exists>s' x xs. handle_current_running_process (demo_state 14) = Some s' \<and>
     queue_is RR (rdy_queue (demo_state 14)) (x # xs) \<and> queue_is RR (rdy_queue s') (xs @ [x]) \<and>
     current_pcb s' = NULL"
proof -
  have v: "selected_algorithm (demo_state 14) = RR" "current_pcb (demo_state 14) = 1"
    "map_option remaining_time (pcb_heap (demo_state 14) 1) = Some 1"
    "last_remain_time (demo_state 14) - quantum (demo_state 14) = 1" by code_simp+
  then obtain pcb where "pcb_heap (demo_state 14) 1 = Some pcb" "remaining_time pcb = 1" by auto
  with v rr_quantum_rotates [of "''rr''" 1 2 0 Running "demo_state 14" pcb]
    demo_reachable_At [OF demo_phases(3)] show ?thesis
    by (simp add: demo_start_def in_int_def) blast
qed

text \<open>A run of SRTN in which a tick falls between an arrival and the preemption check.\<close>

definition srtn_race :: "sched option" where
  "srtn_race = do {
     s \<leftarrow> check_for_new_processes ((run_scheduler ''srtn'' 1 3 0)\<lparr>msgs_pcb := [demo_pcb 1 0 6 0]\<rparr>);
     s \<leftarrow> dispatch s;
     s \<leftarrow> check_for_new_processes (s\<lparr>msgs_pcb := [demo_pcb 2 0 2 0]\<rparr>);
     s \<leftarrow> handle_process_tick (s\<lparr>clk := 1\<rparr>);
     s \<leftarrow> handle_current_running_process s;
     s \<leftarrow> check_for_new_processes (s\<lparr>msgs_pcb := [demo_pcb 3 1 4 0]\<rparr>);
     dispatch s
   }"

text \<open>
  The guard under which signals are modelled is needed for SRTN. Process 1 runs with six units left
  when process 2, with two, has been received; a tick of process 1 that arrives before
  \<open>handle_current_running_process\<close> preempts it gives process 2, now the front of the queue, the priority
  5. When process 3, with four units, is received next, the scheduler runs it although process 2 has
  only two left.
\<close>

theorem srtn_signal_race:
  "map_option (\<lambda>s. (current_pcb s, map_option remaining_time (pcb_heap s 2), map_option remaining_time (pcb_heap s 3)))
     srtn_race = Some (3, Some 2, Some 4)"
  by code_simp

lemma receive_valid_core:
  assumes "sched_core s xs" "\<forall>x \<in> set us. valid_pcb x \<and> msg_ok x" "pcb_brk s + length us < queue_limit"
  shows "\<exists>t ys. receive_all (us @ ws) s = receive_all ws t \<and> sched_core t ys \<and>
    pcb_brk t = pcb_brk s + length us \<and> (\<forall>p < pcb_brk s. pcb_heap t p = pcb_heap s p) \<and>
    (\<forall>i < length us. pcb_heap t (pcb_brk s + i) = Some (us ! i)) \<and>
    queue_size (rdy_queue t) = queue_size (rdy_queue s) + int (length us)"
  using assms
proof (induct us arbitrary: s xs)
  case Nil
  then show ?case by auto
next
  case (Cons u us)
  let ?H = "pcb_heap s" and ?b = "pcb_brk s"
  obtain q xs' s1 where s1: "s1 = s\<lparr>pcb_heap := ?H(?b \<mapsto> u), pcb_brk := Suc ?b, rdy_queue := q\<rparr>"
    and a: "admit u s = Some s1" "sched_core s1 xs'"
    using admit_core [OF Cons.prems(1), of u] Cons.prems(2,3) by auto
  have ent: "entries_ok (selected_algorithm s) ?H xs" "pcbs_ok ?H ?b" "queue_is (selected_algorithm s) (rdy_queue s) xs"
    using Cons.prems(1) by (simp_all add: sched_core_def)
  have one: "queue_size q = queue_size (rdy_queue s) + 1"
  proof -
    let ?k = "queue_priority (selected_algorithm s) u"
    have "enqueue (rdy_queue s) ?b ?k = Some q"
      using a(1) s1 by (auto simp: admit_def Let_def bind_eq_Some_conv dest: arg_cong [of _ _ rdy_queue])
    moreover have "prio_ok ?k" using Cons.prems(2)
      by (auto simp: queue_priority_def msg_ok_def prio_ok_def split: SchedulingAlgorithm.splits)
    ultimately obtain zs where zs: "iq_rep q zs" "mset (map fst zs) = add_mset ?b (mset (map fst xs))"
      using iq.enq_ok [OF queue_is_iq_rep [OF ent(3)], of ?k ?b] entries_length [OF ent(1,2)] Cons.prems(3) by auto
    have "length zs = Suc (length xs)" using arg_cong [OF zs(2), of size] by simp
    then show ?thesis using iq.cnt_ok [OF zs(1)] iq.cnt_ok [OF queue_is_iq_rep [OF ent(3)]] by simp
  qed
  from Cons.hyps [OF a(2)] Cons.prems(2,3) s1 obtain t ys where t:
    "receive_all (us @ ws) s1 = receive_all ws t" "sched_core t ys" "pcb_brk t = Suc ?b + length us"
    "\<forall>p < Suc ?b. pcb_heap t p = (?H(?b \<mapsto> u)) p"
    "\<forall>i < length us. pcb_heap t (Suc ?b + i) = Some (us ! i)"
    "queue_size (rdy_queue t) = queue_size q + int (length us)" by auto
  have "receive_all ((u # us) @ ws) s = receive_all ws t" using Cons.prems(2) a(1) t(1) by simp
  moreover have "pcb_heap t (?b + i) = Some ((u # us) ! i)" if "i < length (u # us)" for i
    using that t(4,5) by (cases i) auto
  ultimately show ?case using t one by (intro exI [of _ t] exI [of _ ys]) auto
qed

text \<open>
  C36: \<open>check_for_new_processes\<close> admits the messages up to the first invalid one (a pid, process id or
  run time that is not positive), drops that one, and leaves the rest for its next call.
\<close>

theorem receive_stops_at_invalid:
  assumes "sched_inv s" "msgs_pcb s = ms @ m # ms'" "\<forall>x \<in> set ms. valid_pcb x" "\<not> valid_pcb m"
  shows "\<exists>s'. check_for_new_processes s = Some s' \<and> msgs_pcb s' = ms' \<and>
    pcb_brk s' = pcb_brk s + length ms \<and>
    (\<forall>i < length ms. pcb_heap s' (pcb_brk s + i) = Some (ms ! i)) \<and>
    queue_size (rdy_queue s') = queue_size (rdy_queue s) + int (length ms)"
proof -
  obtain xs where core: "sched_core s xs" "\<forall>x \<in> set ms. valid_pcb x \<and> msg_ok x" "pcb_brk s + length ms < queue_limit"
    using assms by (auto simp: sched_inv_def sched_rep_def)
  from receive_valid_core [OF core, of "m # ms'"] assms(2,4) show ?thesis
    by (auto simp: check_for_new_processes_def)
qed

theorem receive_stops_at_invalid_witness:
  "\<exists>s'. check_for_new_processes ((run_scheduler ''hpf'' 1 2 0)\<lparr>msgs_pcb := [demo_pcb 1 0 3 0, demo_pcb 2 0 0 0, demo_pcb 3 0 1 0]\<rparr>) =
     Some s' \<and> msgs_pcb s' = [demo_pcb 3 0 1 0] \<and> pcb_heap s' 1 = Some (demo_pcb 1 0 3 0)"
proof -
  let ?s = "(run_scheduler ''hpf'' 1 2 0)\<lparr>msgs_pcb := [demo_pcb 1 0 3 0, demo_pcb 2 0 0 0, demo_pcb 3 0 1 0]\<rparr>"
  have "sched_inv (run_scheduler ''hpf'' 1 2 0)" by (rule sched_inv_start) (simp_all add: in_int_def)
  then have "sched_inv ?s"
    by (auto simp: sched_inv_def sched_rep_def sched_core_def run_scheduler_def Let_def msg_ok_def pcb_typed_def
        process_in_int_def in_int_def demo_pcb_def prio_ok_def)
  moreover have "valid_pcb (demo_pcb 1 0 3 0)" "\<not> valid_pcb (demo_pcb 2 0 0 0)"
    by (simp_all add: valid_pcb_def demo_pcb_def)
  moreover have "pcb_brk ?s = 1" by (simp add: run_scheduler_def Let_def)
  ultimately show ?thesis
    using receive_stops_at_invalid [of ?s "[demo_pcb 1 0 3 0]" "demo_pcb 2 0 0 0" "[demo_pcb 3 0 1 0]"] by auto
qed

text \<open>
  At the end of a run, \<open>scheduler_perf_out\<close> reports the mean waiting time and mean weighted
  turnaround time of the processes logged as finished, over the number of processes of the input
  file, and the share of the time in which the CPU was not idle.
\<close>

theorem perf_reports_means:
  assumes "reachable (started name q n now) (At ph s)" "slice_ok name q" "in_int q"
    "scheduler_perf_out WTAs (files s) (idle_time s) (clk s) = Some r"
  shows "perf_wait r = round_number (of_int (wrap32 (sum_list (map waited (fin_entries (files s))))) / of_int (proc_count (files s))) \<and>
    perf_wta r = round_number (sum_list (map weighted (fin_entries (files s))) / of_int (proc_count (files s))) \<and>
    perf_cpu r = round_number ((1 - of_int (idle_time s) / of_int (clk s)) * 100)"
proof -
  have "log_ok (files s)" using reachable_accounts [OF assms(1-3)] by (simp add: accounts_ok_def)
  then show ?thesis using assms(4)
    by (auto simp: scheduler_perf_out_def double_div_def Let_def log_ok_def bind_eq_Some_conv split: if_splits)
qed

theorem perf_reports_means_witness:
  "\<exists>r. scheduler_perf_out [0, 0] (files (demo_state 31)) (idle_time (demo_state 31)) (clk (demo_state 31)) = Some r \<and>
     perf_wait r = round_number 2"
proof -
  have v: "total_wait (files (demo_state 31)) = 4" "proc_count (files (demo_state 31)) = 2" "clk (demo_state 31) = 4"
    by code_simp+
  then obtain r where "scheduler_perf_out [0, 0] (files (demo_state 31)) (idle_time (demo_state 31)) (clk (demo_state 31)) = Some r"
    by (auto simp: scheduler_perf_out_def double_div_def)
  with perf_reports_means [of "''rr''" 1 2 0 Done "demo_state 31" "[0, 0]" r] v demo_values(5)
    demo_reachable_At [OF demo_phases(1)] show ?thesis
    by (auto simp: demo_start_def in_int_def wrap32_def)
qed

end
