(* ===== verification/System_Properties.thy ===== *)
theory System_Properties
  imports System Scheduler_Properties
begin

text \<open>
  What the invariant says about runs of the whole system: its parts run as their own theories assume,
  only the process the scheduler believes to run does, and when the scheduler ends every process of
  the input file has run to its end, unless its message was never read. Two runs of one process serve
  as examples, one for each of these ends.
\<close>

section \<open>Executing the steps\<close>

datatype sevent = Create | Schedule | Round int | Reap int | Second

fun sys_exec :: "kernel \<Rightarrow> sevent \<Rightarrow> sysconf \<Rightarrow> sysconf option" where
  "sys_exec k e Down = None"
| "sys_exec k Create (Up y) =
     (case gen_exec k Go (Gen (gen_phase y) (gen y)) of
        None \<Rightarrow> None
      | Some Broken \<Rightarrow> Some Down
      | Some (Gen ph g') \<Rightarrow> Some (Up (y\<lparr>gen_phase := ph, gen := g', sch := receive_new (gen y) g' (sch y),
          procs := spawn (drop (length (pcb_sent (gen y))) (pcb_sent g')) (procs y)\<rparr>)))"
| "sys_exec k Schedule (Up y) =
     (case exec Loop (At (sch_phase y) (sch y)) of
        None \<Rightarrow> None
      | Some Crashed \<Rightarrow> Some Down
      | Some (At ph s') \<Rightarrow> Some (Up (y\<lparr>sch_phase := ph, sch := s',
          procs := deliver (clk s') (drop (length (kills (sch y))) (kills s')) (procs y)\<rparr>)))"
| "sys_exec k (Round i) (Up y) =
     (case procs y i of
        None \<Rightarrow> None
      | Some p \<Rightarrow>
          if ticks (clk (sch y)) p then
            if selected_algorithm (sch y) = SRTN \<and> front (rdy_queue (sch y)) \<noteq> Some (Some (current_pcb (sch y)))
            then None
            else (case handle_signal (poll (clk (sch y)) p) (sch y) of
                    None \<Rightarrow> Some Down
                  | Some s' \<Rightarrow> Some (Up (y\<lparr>sch := s', procs := (procs y)(i \<mapsto> poll (clk (sch y)) p)\<rparr>)))
          else if stopped p \<or> exited p then None
          else Some (Up (y\<lparr>procs := (procs y)(i \<mapsto> poll (clk (sch y)) p)\<rparr>)))"
| "sys_exec k (Reap i) (Up y) =
     (if i \<in> set (children (gen y)) \<and> i \<noteq> clk_pid (gen y) \<and> i \<noteq> sch_pid (gen y) \<and>
         (case procs y i of None \<Rightarrow> True | Some p \<Rightarrow> exited p)
      then (case handle_child_exit [i] (gen y) of
              None \<Rightarrow> Some Down
            | Some g' \<Rightarrow> Some (Up (y\<lparr>gen := g', procs := (procs y)(i := None)\<rparr>)))
      else None)"
| "sys_exec k Second (Up y) =
     (if clk (sch y) < 2147483647 \<and> gen_clk (gen y) < 2147483647
      then Some (Up (y\<lparr>gen := (gen y)\<lparr>gen_clk := gen_clk (gen y) + 1\<rparr>, sch := (sch y)\<lparr>clk := clk (sch y) + 1\<rparr>\<rparr>))
      else None)"

primrec sys_exec_all :: "kernel \<Rightarrow> sevent list \<Rightarrow> sysconf \<Rightarrow> sysconf option" where
  "sys_exec_all k [] c = Some c"
| "sys_exec_all k (e # es) c = do { d \<leftarrow> sys_exec k e c; sys_exec_all k es d }"

lemma sys_exec_step: "sys_exec k e c = Some d \<Longrightarrow> sys_step k c d"
proof (induct k e c rule: sys_exec.induct)
  case (2 k y)
  then show ?case by (auto split: option.splits gconfig.splits simp del: gen_exec.simps
      intro: sys_step.generator sys_step.generator_down)
next
  case (3 k y)
  then show ?case by (auto split: option.splits config.splits simp del: exec.simps
      intro: sys_step.scheduler sys_step.scheduler_down)
next
  case (4 k i y)
  then obtain p where p: "procs y i = Some p" by (auto split: option.splits)
  show ?case
  proof (cases "ticks (clk (sch y)) p")
    case True
    then show ?thesis using 4 p sys_step.signal [OF p True] sys_step.signal_down [OF p True]
      by (auto split: if_splits option.splits)
  next
    case False
    then show ?thesis using 4 p sys_step.idle_round [OF p _ _ False] by (auto split: if_splits)
  qed
next
  case (5 k i y)
  then show ?case using sys_step.reap [of i y] sys_step.reap_down [of i y]
    by (auto split: if_splits option.splits simp del: handle_child_exit.simps)
next
  case (6 k y)
  then show ?case by (auto split: if_splits intro: sys_step.clock)
qed simp

lemma sys_exec_all_reachable: "sys_exec_all k es c = Some d \<Longrightarrow> sys_reachable k b c \<Longrightarrow> sys_reachable k b d"
  by (induct es arbitrary: c) (auto simp: bind_eq_Some_conv dest: sys_exec_step intro: sys_reachable.step)

section \<open>Concrete runs\<close>

text \<open>One process of two seconds that arrives at time 1, under HPF.\<close>

definition one_file :: "Process list" where
  "one_file = [\<lparr>proc_id = 1, arrival_time = 1, runtime = 2, proc_priority = 0, memory_size = 100\<rparr>]"

definition whole_events :: "sevent list" where
  "whole_events = [Second, Create, Create, Create, Create, Schedule, Schedule, Schedule, Schedule, Schedule,
     Second, Round 1000, Second, Round 1000, Round 1000, Reap 1000, Schedule]"

text \<open>The PCB and "no_more_processes" both arrive after the PCBs have been looked for.\<close>

definition lost_events :: "sevent list" where
  "lost_events = [Second, Schedule, Schedule, Create, Create, Create, Create, Schedule, Schedule, Schedule, Schedule]"

definition sys_after :: "sevent list \<Rightarrow> sysconf" where
  "sys_after es = (case sys_exec_all demo_kernel es (Up (start_system ''hpf'' 1 one_file 500 501 0)) of
     None \<Rightarrow> Down | Some c \<Rightarrow> c)"

definition sys_state :: "sevent list \<Rightarrow> system" where
  "sys_state es = (case sys_after es of Up y \<Rightarrow> y | Down \<Rightarrow> start_system ''hpf'' 1 one_file 500 501 0)"

primrec sphases :: "sysconf \<Rightarrow> (gphase \<times> phase) option" where
  "sphases Down = None"
| "sphases (Up y) = Some (gen_phase y, sch_phase y)"

lemma sys_after_reachable:
  "sphases (sys_after es) = Some (a, b) \<Longrightarrow>
   sys_reachable demo_kernel (Up (start_system ''hpf'' 1 one_file 500 501 0)) (Up (sys_state es)) \<and>
   gen_phase (sys_state es) = a \<and> sch_phase (sys_state es) = b"
  by (auto simp: sys_after_def sys_state_def split: option.splits sysconf.splits
      intro: sys_exec_all_reachable sys_reachable.start)

lemma whole_phases: "sphases (sys_after whole_events) = Some (Sent, Done)"
  by code_simp

lemmas whole_run = sys_after_reachable [OF whole_phases]

lemma whole_values: "msgs_pcb (sch (sys_state whole_events)) = []"
  by code_simp

lemma one_fine: "system_fine demo_kernel ''hpf'' 1 one_file 500 501"
  by (auto simp: system_fine_def run_ok_def kernel_ok_def demo_kernel_def one_file_def file_fine_def
      prio_ok_def in_int_def process_in_int_def)

section \<open>The parts run by themselves\<close>

lemma start_sys: "gen_phase (start_system algo q ps c d now) = Outer"
  "gen (start_system algo q ps c d now) = start_generator ps c d now"
  "sch (start_system algo q ps c d now) = run_scheduler algo q (int (length ps)) now"
  by (simp_all add: start_system_def)

lemma sys_step_gen:
  "sys_step k x e \<Longrightarrow> x = Up y \<Longrightarrow> e = Up y' \<Longrightarrow>
   gen_reachable k b (Gen (gen_phase y) (gen y)) \<Longrightarrow> gen_reachable k b (Gen (gen_phase y') (gen y'))"
proof (induct arbitrary: y y' rule: sys_step.induct)
  case (generator y1 ph g')
  then show ?case using gen_reachable.step [OF generator(4) [unfolded generator(2) [symmetric]]] gen_exec_step
    by fastforce
next
  case (reap i y1 g')
  have "gen_step k (Gen (gen_phase y1) (gen y1)) (goutcome (gen_phase y1) (handle_child_exit [i] (gen y1)))"
    using reap(1) by (intro gen_step.child_exit) auto
  then have "gen_step k (Gen (gen_phase y1) (gen y1)) (Gen (gen_phase y1) g')"
    by (simp only: reap(5) goutcome_def option.case)
  then show ?case using reap(6-8) gen_reachable.step by fastforce
next
  case (clock y1)
  then show ?case using gen_reachable.step gen_step.clock by fastforce
qed auto

text \<open>The string message reaches the scheduler only after the loop that creates the processes.\<close>

definition noticed :: "system \<Rightarrow> bool" where
  "noticed y \<longleftrightarrow> gen_phase y \<noteq> Sent \<longrightarrow> notices (sch y) = ([], 0)"

lemma noticed_step:
  "sys_step k x e \<Longrightarrow> x = Up y \<Longrightarrow> e = Up y' \<Longrightarrow> noticed y \<Longrightarrow>
   gen_phase y' \<noteq> Sent \<longrightarrow> str_sent (gen y') = [] \<Longrightarrow> noticed y'"
proof (induct arbitrary: y y' rule: sys_step.induct)
  case (generator y1 ph g')
  have "gen_phase y1 \<noteq> Sent" using generator(1) by auto
  then show ?case using generator(2-) by (auto simp: noticed_def receive_new_def notices_def)
next
  case (scheduler y1 ph s')
  then show ?case using loop_notices [OF scheduler(1)] no_more_notices [of "sch y1"]
    by (auto simp: noticed_def notices_def simp del: exec.simps split: if_splits)
next
  case (signal y1 i p s')
  have "notices s' = notices (sch y1)"
    using signal(4) signal_notices [of "sch y1" s'] by (auto simp: handle_signal_def split: if_splits)
  then show ?case using signal(5-) by (auto simp: noticed_def)
qed (auto simp: noticed_def notices_def)

lemma sys_reachable_parts:
  assumes fine: "system_fine k algo q ps c d"
  shows "sys_reachable k x e \<Longrightarrow> x = Up (start_system algo q ps c d now) \<Longrightarrow>
    \<exists>y. e = Up y \<and> gen_reachable k (gen_starts ps c d now) (Gen (gen_phase y) (gen y)) \<and> noticed y"
proof (induct rule: sys_reachable.induct)
  case start
  then show ?case using gen_reachable.start
    by (auto simp: noticed_def start_sys notices_def run_scheduler_def Let_def)
next
  case (step u v)
  then obtain y where y: "u = Up y" "gen_reachable k (gen_starts ps c d now) (Gen (gen_phase y) (gen y))" "noticed y"
    by blast
  have "sys_reachable k (Up (start_system algo q ps c d now)) v"
    using sys_reachable.step [OF step.hyps(1,3)] step.prems by simp
  from sys_reachable_ok [OF this refl fine] obtain y' where y': "v = Up y'" by blast
  have g: "gen_reachable k (gen_starts ps c d now) (Gen (gen_phase y') (gen y'))"
    by (rule sys_step_gen [OF step.hyps(3) y(1) y' y(2)])
  have "run_ok k ps c d" using fine by (simp add: system_fine_def)
  from run_end [OF this g refl] have "gen_phase y' \<noteq> Sent \<longrightarrow> str_sent (gen y') = []" by (auto simp: at_end_def)
  with noticed_step [OF step.hyps(3) y(1) y' y(3)] g y' show ?case by blast
qed

text \<open>When the scheduler has ended, its string message has been sent.\<close>

lemma done_sent:
  assumes "system_fine k algo q ps c d" "sys_reachable k (Up (start_system algo q ps c d now)) (Up y)" "sch_phase y = Done"
  shows "gen_phase y = Sent \<and> \<not> loop_guard (sch y)"
proof -
  have "sys_ok k ps c d (sched_starts algo q ps now) y" using sys_reachable_ok [OF assms(2) refl assms(1)] by simp
  from sys_okD(2) [OF this] have "reachable (sched_starts algo q ps now) (At Done (sch y))" using assms(3) by simp
  from reachable_Done [OF this refl] have l: "\<not> loop_guard (sch y)"
    using sched_inv_start [of algo q] assms(1) by (simp add: system_fine_def)
  moreover have "noticed y" using sys_reachable_parts [OF assms(1,2) refl] by simp
  ultimately show ?thesis by (auto simp: noticed_def notices_def loop_guard_def)
qed

text \<open>When no message waits, the scheduler's PCBs are those that were sent.\<close>

lemma ids_received:
  assumes ok: "sys_ok k ps c d st y" and empty: "msgs_pcb (sch y) = []" and fin: "\<not> loop_guard (sch y)"
  shows "ids_of (pcb_heap (sch y)) = mset (map (\<lambda>m. proc_id (PDATA m)) (pcb_sent (gen y)))"
proof -
  let ?ms = "pcb_sent (gen y)" and ?H = "pcb_heap (sch y)" and ?f = "\<lambda>m. proc_id (PDATA m)"
  have inv: "sched_inv (sch y)" by (rule sys_okD(3) [OF ok])
  have "pcb_brk (sch y) = Suc (length ?ms)" using sys_okD(4-6) [OF ok] empty by simp
  moreover have "pcbs_ok ?H (pcb_brk (sch y))" using inv by (auto simp: sched_inv_def sched_rep_def sched_core_def)
  ultimately have "dom ?H = {0<..<Suc (length ?ms)}" by (simp add: pcbs_ok_def)
  moreover have "{0<..<Suc (length ?ms)} = Suc ` {0..<length ?ms}"
    by (simp add: atLeastSucLessThan_greaterThanLessThan)
  ultimately have dom: "dom ?H = Suc ` {0..<length ?ms}" by simp
  have "fin_pcbs ?H = dom ?H" using not_guard_finished [OF inv fin] by (auto simp: fin_pcbs_def)
  then have "ids_of ?H = image_mset (\<lambda>p. ?f (the (?H p))) (image_mset Suc (mset_set {0..<length ?ms}))"
    by (simp add: ids_of_def dom image_mset_mset_set)
  also have "\<dots> = image_mset (\<lambda>j. ?f (?ms ! j)) (mset_set {0..<length ?ms})"
    unfolding multiset.map_comp
  proof (intro image_mset_cong)
    fix j
    assume "j \<in># mset_set {0..<length ?ms}"
    then have "Suc j \<in> dom ?H" using dom by simp
    then obtain x where x: "?H (Suc j) = Some x" by blast
    then show "((\<lambda>p. ?f (the (?H p))) \<circ> Suc) j = ?f (?ms ! j)"
      using sys_okD(8) [OF ok, of "Suc j" "brief x"] by (simp add: pview_def brief_def)
  qed
  also have "\<dots> = mset (map (\<lambda>j. ?f (?ms ! j)) [0..<length ?ms])" by (simp only: mset_map mset_upt)
  also have "map (\<lambda>j. ?f (?ms ! j)) [0..<length ?ms] = map ?f ?ms" by (rule nth_equalityI) simp_all
  finally show ?thesis .
qed

text \<open>A process that is not finished is known to the scheduler as such, or its message waits.\<close>

lemma process_known:
  assumes ok: "sys_ok k ps c d st y" and p: "procs y i = Some p" "0 < left p"
  shows "(\<exists>n x. pcb_heap (sch y) n = Some x \<and> pid x = i \<and> state x \<noteq> Some ''finished'') \<or>
    i \<in> pid ` set (msgs_pcb (sch y))"
proof -
  let ?ms = "pcb_sent (gen y)" and ?s = "sch y"
  have "i \<in> pid ` set ?ms" using sys_okD(7) [OF ok] p(1) by blast
  then obtain j where j: "j < length ?ms" "pid (?ms ! j) = i" by (auto simp: in_set_conv_nth)
  show ?thesis
  proof (cases "Suc j < pcb_brk ?s")
    case False
    then have "msgs_pcb ?s ! (j - (pcb_brk ?s - 1)) = ?ms ! j" "j - (pcb_brk ?s - 1) < length (msgs_pcb ?s)"
      using sys_okD(4-6) [OF ok] j(1) by auto
    then have "?ms ! j \<in> set (msgs_pcb ?s)" by (metis nth_mem)
    then show ?thesis using j(2) by blast
  next
    case True
    have "pcbs_ok (pcb_heap ?s) (pcb_brk ?s)"
      using sys_okD(3) [OF ok] by (auto simp: sched_inv_def sched_rep_def sched_core_def)
    then have "Suc j \<in> dom (pcb_heap ?s)" using True by (simp add: pcbs_ok_def)
    then obtain x where x: "pcb_heap ?s (Suc j) = Some x" by blast
    then have v: "pview ?s (Suc j) = Some (brief x)" by (simp add: pview_def)
    have "pid x = i" using sys_okD(8) [OF ok v] j(2) by (simp add: brief_def)
    moreover have "state x \<noteq> Some ''finished''"
      using sys_okD(8) [OF ok v] p \<open>pid x = i\<close> by (auto simp: brief_def matches_def)
    ultimately show ?thesis using x by blast
  qed
qed

section \<open>Properties\<close>

text \<open>
  C7: at most one process is not stopped and has work left, the one the scheduler believes to run, and
  it has no more left than the scheduler has recorded. The run is one of \<open>sys_step\<close>, in which a process
  under SRTN signals while it is the front of the ready queue; that no other than the scheduler's current
  process runs holds without this condition too, as C6 says.
\<close>

theorem only_scheduled_runs:
  assumes "system_fine k algo q ps c d" "sys_reachable k (Up (start_system algo q ps c d now)) (Up y)"
    "procs y i = Some p" "\<not> stopped p" "0 < left p"
  shows "\<exists>pcb. current_pcb (sch y) \<noteq> NULL \<and> pcb_heap (sch y) (current_pcb (sch y)) = Some pcb \<and> pid pcb = i \<and>
    left p \<le> remaining_time pcb"
proof -
  have "sys_ok k ps c d (sched_starts algo q ps now) y" using sys_reachable_ok [OF assms(2) refl assms(1)] by simp
  from running_process [OF this assms(3-5)] show ?thesis by blast
qed

theorem only_scheduled_runs_witness:
  "\<exists>pcb. pcb_heap (sch (sys_state (take 11 whole_events))) (current_pcb (sch (sys_state (take 11 whole_events)))) = Some pcb \<and>
     pid pcb = 1000"
proof -
  let ?y = "sys_state (take 11 whole_events)"
  have "sphases (sys_after (take 11 whole_events)) = Some (Sent, Guard)" by code_simp
  note r = sys_after_reachable [OF this]
  have v: "map_option (\<lambda>p. (stopped p, left p)) (procs ?y 1000) = Some (False, 2)" by code_simp
  then obtain p where "procs ?y 1000 = Some p" "\<not> stopped p" "0 < left p" by auto
  with only_scheduled_runs [OF one_fine, of 0 ?y 1000] r show ?thesis by blast
qed

text \<open>When the scheduler has ended and has read all its messages, every process has run to its end.\<close>

lemma system_completes:
  assumes "system_fine k algo q ps c d" "sys_reachable k (Up (start_system algo q ps c d now)) (Up y)"
    "sch_phase y = Done" "msgs_pcb (sch y) = []" "no_failure k"
  shows "mset (map process_id (fin_entries (files (sch y)))) = mset (map proc_id ps) \<and>
    (\<forall>i p. procs y i = Some p \<longrightarrow> left p \<le> 0) \<and> gen_phase y = Sent"
proof -
  have ok: "sys_ok k ps c d (started algo q (int (length ps)) now) y"
    using sys_reachable_ok [OF assms(2) refl assms(1)] by simp
  have f: "gen_phase y = Sent" "\<not> loop_guard (sch y)" using done_sent [OF assms(1-3)] by simp_all
  have q: "slice_ok algo q" "in_int q" and run: "run_ok k ps c d" using assms(1) by (simp_all add: system_fine_def)
  have "accounts_ok (sch y)" by (rule reachable_accounts [OF sys_okD(2) [OF ok] q])
  then have "mset (map process_id (fin_entries (files (sch y)))) = mset (map (\<lambda>m. proc_id (PDATA m)) (pcb_sent (gen y)))"
    using ids_received [OF ok assms(4) f(2)] by (simp add: accounts_ok_def)
  also have "\<dots> = image_mset proc_id (mset (map PDATA (pcb_sent (gen y))))"
    by (simp add: multiset.map_comp comp_def)
  also have "mset (map PDATA (pcb_sent (gen y))) = mset ps"
    using all_sent [OF run _ assms(5)] sys_reachable_parts [OF assms(1,2) refl] f(1) by auto
  finally have "mset (map process_id (fin_entries (files (sch y)))) = mset (map proc_id ps)" by simp
  moreover have "left p \<le> 0" if "procs y i = Some p" for i p
  proof (rule ccontr)
    assume "\<not> left p \<le> 0"
    then show False
      using process_known [OF ok that] not_guard_finished [OF sys_okD(3) [OF ok] f(2)] assms(4) by auto
  qed
  ultimately show ?thesis using f(1) by blast
qed

text \<open>What \<open>parse_args\<close> promises of the quantum.\<close>

lemma parse_args_quantum:
  assumes "parse_args argv = Some (Args algo path qo)" "in_int u"
  shows "slice_ok algo (case qo of None \<Rightarrow> u | Some q \<Rightarrow> q)" "in_int (case qo of None \<Rightarrow> u | Some q \<Rightarrow> q)"
proof -
  have "atoi n = Some v \<Longrightarrow> in_int v" for n v
    by (auto simp: atoi_def scan_int_def Let_def in_int_def bind_eq_Some_conv split: if_splits option.splits prod.splits)
  then show "slice_ok algo (case qo of None \<Rightarrow> u | Some q \<Rightarrow> q)" "in_int (case qo of None \<Rightarrow> u | Some q \<Rightarrow> q)"
    using assms parse_args_accepts [of argv algo path qo]
    by (auto simp: set_selected_algorithm_def)
qed

text \<open>
  C4: the program from its arguments on. Given accepted arguments, an input file of lines as the README
  describes them, with positive ids, run times and sizes, and an environment in which no call of
  \<open>main\<close> fails, \<open>main\<close> starts the simulation of the processes of the file, and if no fork and no message
  fails, then whenever the scheduler has ended and no message is left in its queue, every process of
  the file has been run to its end and logged as finished exactly once.
\<close>

theorem program_completes:
  assumes "parse_args argv = Some (Args algo path qo)" "readable env path = Some (concat (map line_text ls))"
    "\<forall>l \<in> set ls. line_ok l" "run_ok k (entries ls) (clk_fork env) (sch_fork env)" "file_fine (entries ls)"
    "no_failure k" "in_int u" "env_ok env"
  shows "\<exists>y0. main_program env u now argv = Some (Simulates y0) \<and>
    (\<forall>y. sys_reachable k (Up y0) (Up y) \<longrightarrow> sch_phase y = Done \<longrightarrow> msgs_pcb (sch y) = [] \<longrightarrow>
       mset (map process_id (fin_entries (files (sch y)))) = mset (map proc_id (entries ls)) \<and>
       (\<forall>i p. procs y i = Some p \<longrightarrow> left p \<le> 0))"
proof -
  let ?q = "case qo of None \<Rightarrow> u | Some q \<Rightarrow> q" and ?c = "clk_fork env" and ?d = "sch_fork env"
  have "read_input_file (readable env path) = Some (0, entries ls)"
    using read_lines_text [OF assms(3), of "[]" "[]"] assms(2)
    by (simp add: read_input_file_def read_lines.simps [of "[]"] fgets_def)
  then have m: "main_program env u now argv = Some (Simulates (start_system algo ?q (entries ls) ?c ?d now))"
    using assms(1,8) by (simp add: main_program_def scheduler_main_def env_ok_def)
  have "system_fine k algo ?q (entries ls) ?c ?d"
    using parse_args_quantum [OF assms(1,7)] assms(4,5) by (simp add: system_fine_def)
  note c = system_completes [OF this _ _ _ assms(6)]
  show ?thesis using m c by (intro exI [of _ "start_system algo ?q (entries ls) ?c ?d now"]) blast
qed

text \<open>An environment in which nothing fails, and the file of one process in it.\<close>

definition demo_env :: environment where
  "demo_env = \<lparr>readable = [''in.txt'' \<mapsto> concat (map line_text [Comment '' demo'', Entry (hd one_file)])],
     creatable = (\<lambda>_. True), clk_fork = 500, sch_fork = 501, gen_queue = 7, sch_queue = 7\<rparr>"

theorem program_completes_witness:
  "main_program demo_env 1 0 [''os-sim'', ''-s'', ''hpf'', ''-f'', ''in.txt''] =
     Some (Simulates (start_system ''hpf'' 1 one_file 500 501 0)) \<and>
   mset (map process_id (fin_entries (files (sch (sys_state whole_events))))) = {#1#}"
proof -
  let ?argv = "[''os-sim'', ''-s'', ''hpf'', ''-f'', ''in.txt'']" and ?ls = "[Comment '' demo'', Entry (hd one_file)]"
  have a: "parse_args ?argv = Some (Args ''hpf'' ''in.txt'' None)" by (simp add: parse_args_def)
  have e: "entries ?ls = one_file" by (simp add: one_file_def)
  have l: "\<forall>l \<in> set ?ls. line_ok l" by (simp add: one_file_def process_in_int_def in_int_def)
  have f: "run_ok demo_kernel one_file 500 501" "file_fine one_file" "no_failure demo_kernel"
    using one_fine by (simp_all add: system_fine_def no_failure_def demo_kernel_def)
  have env: "env_ok demo_env" "readable demo_env ''in.txt'' = Some (concat (map line_text ?ls))"
    "clk_fork demo_env = 500" "sch_fork demo_env = 501" by (simp_all add: demo_env_def env_ok_def)
  have m: "main_program demo_env 1 0 ?argv = Some (Simulates (start_system ''hpf'' 1 one_file 500 501 0))"
    using read_lines_text [OF l, of "[]" "[]"] e env
    by (simp add: main_program_def scheduler_main_def env_ok_def a read_input_file_def read_lines.simps [of "[]"] fgets_def)
  have "mset (map process_id (fin_entries (files (sch (sys_state whole_events))))) = {#1#}"
    using program_completes [OF a env(2) l, of demo_kernel 1 0] e f m env whole_run whole_values
    by (simp add: in_int_def one_file_def)
  with m show ?thesis by blast
qed

text \<open>
  The end of a round in which nothing is queued, nothing runs and "no_more_processes" is read, and what
  comes after it: nothing is looked for again, whatever else waits.
\<close>

definition gives_up :: "system \<Rightarrow> bool" where
  "gives_up y \<longleftrightarrow> gen_phase y = Sent \<and> is_empty (rdy_queue (sch y)) \<and> current_pcb (sch y) = NULL \<and>
     (case sch_phase y of Notice \<Rightarrow> no_more_processes (check_no_more_processes (sch y)) \<noteq> 0
      | Guard \<Rightarrow> no_more_processes (sch y) \<noteq> 0 | Done \<Rightarrow> True | _ \<Rightarrow> False)"

lemma check_no_more_frame:
  "rdy_queue (check_no_more_processes s) = rdy_queue s" "current_pcb (check_no_more_processes s) = current_pcb s"
  "kills (check_no_more_processes s) = kills s" "files (check_no_more_processes s) = files s"
  "msgs_pcb (check_no_more_processes s) = msgs_pcb s"
  by (simp_all add: check_no_more_processes_def Let_def split: list.splits)

lemma gives_up_step:
  assumes ok: "sys_ok k ps c d st y" and up: "gives_up y" and step: "sys_step k (Up y) (Up y')"
  shows "gives_up y' \<and> msgs_pcb (sch y') = msgs_pcb (sch y) \<and> files (sch y') = files (sch y) \<and>
    (\<forall>i p. procs y i = Some p \<longrightarrow> stopped p \<longrightarrow> \<not> exited p \<longrightarrow> procs y' i = Some p)"
proof -
  have idle: "\<not> ticks (clk (sch y)) p" if "procs y i = Some p" for i p
    using running_process [OF ok that] up by (auto simp: gives_up_def ticks_def)
  from step show ?thesis
  proof (cases rule: sys_step.cases)
    case (generator ph g')
    then show ?thesis using up by (simp add: gives_up_def)
  next
    case (scheduler ph s')
    then show ?thesis using up
      by (cases "sch_phase y") (auto simp: gives_up_def loop_guard_def check_no_more_frame)
  next
    case (signal i p s')
    then show ?thesis using idle by blast
  next
    case clock
    then show ?thesis using up
      by (cases "sch_phase y") (auto simp: gives_up_def check_no_more_processes_def Let_def split: list.splits)
  next
    case idle_round
    then show ?thesis using up by (cases "sch_phase y") (auto simp: gives_up_def)
  next
    case reap
    then show ?thesis using up by (cases "sch_phase y") (auto simp: gives_up_def)
  qed
qed

lemma gives_up_run:
  assumes fine: "system_fine k algo q ps c d" and start: "sys_reachable k (Up (start_system algo q ps c d now)) (Up y)"
    and up: "gives_up y"
  shows "sys_reachable k x e \<Longrightarrow> x = Up y \<Longrightarrow> \<exists>y'. e = Up y' \<and> gives_up y' \<and>
    sys_reachable k (Up (start_system algo q ps c d now)) (Up y') \<and>
    msgs_pcb (sch y') = msgs_pcb (sch y) \<and> files (sch y') = files (sch y) \<and>
    (\<forall>i p. procs y i = Some p \<longrightarrow> stopped p \<longrightarrow> \<not> exited p \<longrightarrow> procs y' i = Some p)"
proof (induct rule: sys_reachable.induct)
  case start
  then show ?case using assms(2) up by blast
next
  case (step u v)
  then obtain y1 where y1: "u = Up y1" "gives_up y1" "sys_reachable k (Up (start_system algo q ps c d now)) (Up y1)"
    "msgs_pcb (sch y1) = msgs_pcb (sch y)" "files (sch y1) = files (sch y)"
    "\<forall>i p. procs y i = Some p \<longrightarrow> stopped p \<longrightarrow> \<not> exited p \<longrightarrow> procs y1 i = Some p" by blast
  have r: "sys_reachable k (Up (start_system algo q ps c d now)) v"
    by (rule sys_reachable.step [OF y1(3) step.hyps(3) [unfolded y1(1)]])
  from sys_reachable_ok [OF r refl fine] obtain y2 where y2: "v = Up y2" by blast
  have "sys_ok k ps c d (sched_starts algo q ps now) y1" using sys_reachable_ok [OF y1(3) refl fine] by simp
  from gives_up_step [OF this y1(2) step.hyps(3) [unfolded y1(1) y2]] y1(4-6) r y2 show ?case by simp
qed

text \<open>
  C40: why C4 asks for an empty queue at the end. The scheduler looks for new PCBs at the start of a round
  and for "no_more_processes" at its end. When at the end of a round it reads that string with nothing
  queued and nothing running, it is lost on every PCB that has arrived since: in every continuation the
  message stays in the queue, the process stays stopped with work left, and the logs do not change any
  more.
\<close>

theorem last_process_lost:
  assumes "system_fine k algo q ps c d" "sys_reachable k (Up (start_system algo q ps c d now)) (Up y)"
    "sch_phase y = Notice" "is_empty (rdy_queue (sch y))" "current_pcb (sch y) = NULL"
    "no_more_processes (check_no_more_processes (sch y)) \<noteq> 0"
    "m \<in> set (msgs_pcb (sch y))" "sys_reachable k (Up y) (Up y')"
  shows "m \<in> set (msgs_pcb (sch y')) \<and> sch_phase y' \<in> {Notice, Guard, Done} \<and> files (sch y') = files (sch y) \<and>
    (\<exists>p. procs y' (pid m) = Some p \<and> stopped p \<and> 0 < left p)"
proof -
  have ok: "sys_ok k ps c d (sched_starts algo q ps now) y" using sys_reachable_ok [OF assms(2) refl assms(1)] by simp
  have "notices (sch y) \<noteq> ([], 0)" using assms(6) by (auto simp: check_no_more_processes_def notices_def)
  then have "gen_phase y = Sent" using sys_reachable_parts [OF assms(1,2) refl] by (auto simp: noticed_def)
  then have up: "gives_up y" using assms(3-6) by (simp add: gives_up_def)
  have "msg_ok m" using sys_okD(3) [OF ok] assms(7) by (auto simp: sched_inv_def sched_rep_def)
  then obtain p where p: "procs y (pid m) = Some p" "stopped p" "\<not> exited p" "0 < left p"
    using sys_okD(9) [OF ok assms(7)] by (auto simp: msg_ok_def matches_def brief_def split: if_splits)
  from gives_up_run [OF assms(1,2) up assms(8) refl] p assms(7) show ?thesis
    by (auto simp: gives_up_def split: phase.splits)
qed

lemma sys_exec_all_append:
  "sys_exec_all k (es @ fs) c = do { d \<leftarrow> sys_exec_all k es c; sys_exec_all k fs d }"
  by (induct es arbitrary: c) (simp_all add: Option.bind_assoc)

lemma sys_after_exec:
  "sphases (sys_after es) = Some v \<Longrightarrow>
   sys_exec_all demo_kernel es (Up (start_system ''hpf'' 1 one_file 500 501 0)) = Some (Up (sys_state es))"
  by (auto simp: sys_after_def sys_state_def split: option.splits sysconf.splits)

theorem last_process_lost_witness:
  "sch_phase (sys_state lost_events) \<in> {Notice, Guard, Done} \<and>
   (\<exists>p. procs (sys_state lost_events) 1000 = Some p \<and> stopped p \<and> 0 < left p)"
proof -
  let ?y = "sys_state (take 9 lost_events)" and ?y' = "sys_state lost_events"
  have v: "sphases (sys_after (take 9 lost_events)) = Some (Sent, Notice)" "sphases (sys_after lost_events) = Some (Sent, Done)"
    "is_empty (rdy_queue (sch ?y))" "current_pcb (sch ?y) = NULL"
    "no_more_processes (check_no_more_processes (sch ?y)) \<noteq> 0" "map pid (msgs_pcb (sch ?y)) = [1000]"
    by code_simp+
  then obtain m where m: "m \<in> set (msgs_pcb (sch ?y))" "pid m = 1000" by (cases "msgs_pcb (sch ?y)") auto
  have "sys_exec_all demo_kernel (drop 9 lost_events) (Up ?y) = Some (Up ?y')"
    using sys_exec_all_append [of demo_kernel "take 9 lost_events" "drop 9 lost_events"]
      sys_after_exec [OF v(1)] sys_after_exec [OF v(2)] by simp
  then have r: "sys_reachable demo_kernel (Up ?y) (Up ?y')"
    by (rule sys_exec_all_reachable) (rule sys_reachable.start)
  note s = sys_after_reachable [OF v(1)]
  show ?thesis
    using last_process_lost [OF one_fine conjunct1 [OF s] conjunct2 [OF conjunct2 [OF s]] v(3-5) m(1) r] m(2) by simp
qed

text \<open>
  C26: a process of the file that asks for more than the 1024 units of the memory, which nothing checks,
  stops the whole program: neither the generator nor the scheduler ever leaves its loop, in any run
  of \<open>sys_step\<close>.
\<close>

theorem too_big_never_ends:
  assumes "system_fine k algo q ps c d" "sys_reachable k (Up (start_system algo q ps c d now)) (Up y)"
    "proc \<in> set ps" "1024 < memory_size proc"
  shows "gen_phase y \<noteq> Sent \<and> sch_phase y \<noteq> Done"
proof -
  have run: "run_ok k ps c d" using assms(1) by (simp add: system_fine_def)
  have g: "gen_reachable k (gen_starts ps c d now) (Gen (gen_phase y) (gen y))"
    using sys_reachable_parts [OF assms(1,2) refl] by blast
  obtain xs own lost ws where rep: "gen_rep k (gen y) xs own lost ws (mset (take (nat (idx (gen y))) ps))"
    and f: "file_ok (gen y) ws" "process_list (gen y) = ps" using run_rep [OF run g] by blast
  have "gen_phase y \<noteq> Sent"
  proof
    assume "gen_phase y = Sent"
    then have e: "int (length ps) \<le> idx (gen y)" "ll_size (waiting_list (gen y)) = 0"
      using run_end [OF run g refl] f(2) by (auto simp: at_end_def)
    then have "proc \<in> snd ` set ws" using f assms(3,4) by (simp add: file_ok_def)
    moreover have "ws = []" using rep e(2) by (auto simp: gen_rep_def ll_rep_def)
    ultimately show False by simp
  qed
  then show ?thesis using done_sent [OF assms(1,2)] by blast
qed

text \<open>A run of a file whose one process asks for 2000 units.\<close>

definition big_file :: "Process list" where
  "big_file = [\<lparr>proc_id = 1, arrival_time = 1, runtime = 2, proc_priority = 0, memory_size = 2000\<rparr>]"

definition big_state :: "sevent list \<Rightarrow> sysconf" where
  "big_state es = (case sys_exec_all demo_kernel es (Up (start_system ''hpf'' 1 big_file 500 501 0)) of
     None \<Rightarrow> Down | Some c \<Rightarrow> c)"

lemma big_reachable:
  "big_state es = Up y \<Longrightarrow> sys_reachable demo_kernel (Up (start_system ''hpf'' 1 big_file 500 501 0)) (Up y)"
  by (auto simp: big_state_def split: option.splits intro: sys_exec_all_reachable sys_reachable.start)

theorem too_big_never_ends_witness:
  "\<exists>y. big_state [Second, Create, Create, Create, Schedule, Create] = Up y \<and> gen_phase y \<noteq> Sent \<and> sch_phase y \<noteq> Done"
proof -
  let ?es = "[Second, Create, Create, Create, Schedule, Create]"
  have "system_fine demo_kernel ''hpf'' 1 big_file 500 501"
    by (auto simp: system_fine_def run_ok_def kernel_ok_def demo_kernel_def big_file_def file_fine_def
        prio_ok_def in_int_def process_in_int_def)
  note fine = this
  have "sphases (big_state ?es) = Some (Inner, Receive)" by code_simp
  then obtain y where y: "big_state ?es = Up y" by (cases "big_state ?es") auto
  from too_big_never_ends [OF fine big_reachable [OF y]] y show ?thesis by (simp add: big_file_def)
qed

end
