(* ===== verification/Program_End.thy ===== *)
theory Program_End
  imports System_Properties
begin

text \<open>
  The end of the program: when the scheduler has ended, \<open>main\<close> detaches the clock and interrupts its
  process group, which runs its own SIGINT handler, the clock's, and ends the children that are left.
\<close>

section \<open>The children of the generator\<close>

lemma child_grows:
  "fork_and_send k proc p g = Some g' \<Longrightarrow> \<exists>new. children g' = children g @ new"
  "send_waiting k g = Some (b, g') \<Longrightarrow> \<exists>new. children g' = children g @ new"
  "arrive k g = Some g' \<Longrightarrow> \<exists>new. children g' = children g @ new"
proof -
  have f: "\<exists>new. children v = children u @ new" if "fork_and_send k proc p u = Some v" for proc p u v
    using that by (cases "fork_result k (forks u) = - 1") (auto simp: fork_and_send_def Let_def bind_eq_Some_conv)
  show "fork_and_send k proc p g = Some g' \<Longrightarrow> \<exists>new. children g' = children g @ new" by (rule f)
  show "send_waiting k g = Some (b, g') \<Longrightarrow> \<exists>new. children g' = children g @ new"
    by (auto simp: send_waiting_def Let_def bind_eq_Some_conv split: if_splits option.splits dest!: f)
  show "arrive k g = Some g' \<Longrightarrow> \<exists>new. children g' = children g @ new"
    by (auto simp: arrive_def Let_def bind_eq_Some_conv split: if_splits prod.splits dest!: f)
qed

lemma go_children:
  "gen_exec k Go (Gen ph g) = Some (Gen ph' g') \<Longrightarrow> \<exists>new. children g' = children g @ new"
  by (cases ph) (auto simp: goutcome_def finish_creating_def split: option.splits if_splits dest: child_grows)

text \<open>The clock and the scheduler are not reaped before the end.\<close>

lemma parents_stay:
  assumes fine: "system_fine k algo q ps c d"
  shows "sys_reachable k x e \<Longrightarrow> x = Up (start_system algo q ps c d now) \<Longrightarrow>
    \<exists>y. e = Up y \<and> clk_pid (gen y) = c \<and> sch_pid (gen y) = d \<and> {c, d} \<subseteq> set (children (gen y))"
proof (induct rule: sys_reachable.induct)
  case start
  then show ?case by (simp add: start_sys start_generator_def)
next
  case (step u v)
  then obtain y where y: "u = Up y" "clk_pid (gen y) = c" "sch_pid (gen y) = d" "{c, d} \<subseteq> set (children (gen y))"
    by blast
  have r: "sys_reachable k (Up (start_system algo q ps c d now)) v"
    using sys_reachable.step [OF step.hyps(1,3)] step.prems by simp
  from sys_reachable_parts [OF fine this refl] obtain y' where
    y': "v = Up y'" "gen_reachable k (gen_starts ps c d now) (Gen (gen_phase y') (gen y'))" by blast
  have run: "run_ok k ps c d" using fine by (simp add: system_fine_def)
  have "clk_pid (gen y') = c" "sch_pid (gen y') = d" using run_rep [OF run y'(2)] by blast+
  moreover have "{c, d} \<subseteq> set (children (gen y'))"
    using step.hyps(3) unfolding y(1) y'(1)
  proof (cases rule: sys_step.cases)
    case (generator ph g')
    then show ?thesis using go_children y(4) by fastforce
  next
    case (reap i g')
    then have "children g' = remove1 i (children (gen y))"
      by (auto simp: Let_def bind_eq_Some_conv split: if_splits)
    then show ?thesis using reap y(2-4) by auto
  qed (use y(4) in auto)
  ultimately show ?case using y'(1) by blast
qed

section \<open>Properties\<close>

text \<open>
  C5: the end of a run. Whenever the scheduler has ended, \<open>main\<close> has left its loop, and what follows
  \<open>waitpid\<close> returns. It releases exactly this, each object once: the struct \<open>Memory\<close> of every block,
  free or in use, and of the map the node of every occupied bucket, the array of the buckets and the
  map itself; the waiting list is empty by then, and no node is left to free. It frees nothing else:
  the \<open>ProcessMemory\<close> structs that are the map's values and \<open>process_list\<close> are left to the operating
  system. The clock and all other children that have not been reaped are interrupted, the scheduler,
  which has been waited for, is not, the segment of the clock is gone and detached, and the exit code
  is 0 if the message queue could be removed and 1 otherwise.
\<close>

theorem main_ends:
  assumes "system_fine k algo q ps c d" "sys_reachable k (Up (start_system algo q ps c d now)) (Up y)"
    "sch_phase y = Done"
  shows "gen_phase y = Sent \<and> (\<exists>r cl' xs. finish_main ctl cl (gen y) = Some (Some r, cl') \<and>
    ll_rep (waiting_list (gen y)) [] \<and> mem (left_nodes r) = mem (ll_heap (waiting_list (gen y))) \<and>
    buddy_ok (mm_heap (mm (gen y))) (memory (mm (gen y))) xs \<and>
    mem (left_blocks r) = mem (mm_heap (mm (gen y))) |` (- addrs xs) \<and> distinct (freed_map r) \<and>
    set (freed_map r) = {Whole, Array} \<union> Slot ` {i. i < length (buckets (memory_map (mm (gen y)))) \<and>
      buckets (memory_map (mm (gen y))) ! i \<noteq> None} \<and>
    mset (interrupts r) = mset (children (gen y)) - {#d#} \<and> c \<in> set (interrupts r) \<and> d \<notin> set (interrupts r) \<and>
    shm cl' = None \<and> \<not> attached cl' \<and> exit_code r = (if ctl = - 1 then 1 else 0))"
proof -
  let ?g = "gen y"
  let ?g' = "?g\<lparr>children := remove1 d (children ?g)\<rparr>"
  have run: "run_ok k ps c d" using assms(1) by (simp add: system_fine_def)
  obtain xs own lost ws where rep: "gen_rep k ?g xs own lost ws (mset (take (nat (idx ?g)) ps))"
    using run_rep [OF run] sys_reachable_parts [OF assms(1,2) refl] by blast
  note sent = done_sent [OF assms]
  have "ll_size (waiting_list ?g) = 0"
    using run_end [OF run _ refl, of now "Gen (gen_phase y) (gen y)"] sys_reachable_parts [OF assms(1,2) refl] sent
    by (simp add: at_end_def)
  then have ws: "ws = []" "ll_rep (waiting_list ?g) []" using rep by (auto simp: gen_rep_def ll_rep_def)
  have par: "clk_pid ?g = c" "sch_pid ?g = d" "{c, d} \<subseteq> set (children ?g)"
    using parents_stay [OF assms(1,2) refl] by auto
  have cd: "c \<noteq> d" using run by (simp add: run_ok_def)
  have "clear_and_exit ctl ?g' = map_option (\<lambda>r. r\<lparr>interrupts := remove1 d (children ?g)\<rparr>) (clear_and_exit ctl ?g)"
    by (cases "free_linked_list (waiting_list ?g)"; cases "free_memory_manager (mm ?g)")
      (auto simp: clear_and_exit_def)
  with clear_parts [OF rep, of ctl] obtain fs where r: "distinct fs" "set fs = {Whole, Array} \<union>
      Slot ` {i. i < length (buckets (memory_map (mm ?g))) \<and> buckets (memory_map (mm ?g)) ! i \<noteq> None}"
    "clear_and_exit ctl ?g' = Some \<lparr>exit_code = (if ctl = - 1 then 1 else 0),
      left_nodes = (ll_heap (waiting_list ?g))\<lparr>mem := mem (ll_heap (waiting_list ?g)) |` (- addrs ws)\<rparr>,
      left_blocks = (mm_heap (mm ?g))\<lparr>mem := mem (mm_heap (mm ?g)) |` (- addrs xs)\<rparr>,
      freed_map = fs, interrupts = remove1 d (children ?g)\<rparr>" by auto
  have b: "buddy_ok (mm_heap (mm ?g)) (memory (mm ?g)) xs" using rep by (simp add: gen_rep_def mm_ok_def)
  have "distinct (children ?g)" using rep by (simp add: gen_rep_def)
  then have "c \<in> set (remove1 d (children ?g))" "d \<notin> set (remove1 d (children ?g))" using par(3) cd by auto
  moreover have "finish_main ctl cl ?g = Some (Some \<lparr>exit_code = (if ctl = - 1 then 1 else 0),
      left_nodes = (ll_heap (waiting_list ?g))\<lparr>mem := mem (ll_heap (waiting_list ?g)) |` (- addrs ws)\<rparr>,
      left_blocks = (mm_heap (mm ?g))\<lparr>mem := mem (mm_heap (mm ?g)) |` (- addrs xs)\<rparr>,
      freed_map = fs, interrupts = remove1 d (children ?g)\<rparr>, \<lparr>shm = None, attached = False\<rparr>)"
    using r(3) par(1,2) calculation(1) by (simp add: finish_main_def destroy_clk_def clk_cleanup_def)
  moreover have "mem (ll_heap (waiting_list ?g)) |` (- addrs ws) = mem (ll_heap (waiting_list ?g))"
    by (simp add: ws(1) restrict_map_def)
  ultimately show ?thesis using sent r(1,2) b ws(2)
    by (intro conjI exI) (assumption | simp)+
qed

theorem main_ends_witness:
  "\<exists>r cl'. finish_main 0 \<lparr>shm = Some 4, attached = True\<rparr> (gen (sys_state whole_events)) = Some (Some r, cl') \<and>
     interrupts r = [500] \<and> {Whole, Array} \<subseteq> set (freed_map r) \<and> distinct (freed_map r) \<and>
     shm cl' = None \<and> exit_code r = 0"
proof -
  have v: "children (gen (sys_state whole_events)) = [500, 501]" by code_simp
  have d: "sch_phase (sys_state whole_events) = Done" using whole_run by blast
  from main_ends [OF one_fine conjunct1 [OF whole_run] d, of 0 "\<lparr>shm = Some 4, attached = True\<rparr>"]
  obtain r cl' where r: "finish_main 0 \<lparr>shm = Some 4, attached = True\<rparr> (gen (sys_state whole_events)) = Some (Some r, cl')"
    "mset (interrupts r) = mset (children (gen (sys_state whole_events))) - {#501#}"
    "{Whole, Array} \<subseteq> set (freed_map r)" "distinct (freed_map r)" "shm cl' = None" "exit_code r = 0"
    by (elim conjE exE) simp
  from r(2) have "mset (interrupts r) = mset [500, 501] - {#501#}" unfolding v .
  then have "mset (interrupts r) = {#500#}" by simp
  then have "interrupts r = [500]" by simp
  with r show ?thesis by blast
qed

end
