(* ===== verification/System_Liveness.thy ===== *)
theory System_Liveness
  imports System_Properties
begin

text \<open>
  The system does not get stuck: once the generator has sent its last message, the scheduler, the
  processes and the clock can go on to the end of the scheduler, and on the way the clock need not
  advance by more seconds than there is work left. The measure is the time the processes have left;
  turns of the scheduler keep it, and between two rounds of the scheduler it can be made smaller.
\<close>

section \<open>What a turn of the scheduler does\<close>

text \<open>Some process the scheduler knows is not finished.\<close>

definition todo :: "sched \<Rightarrow> bool" where
  "todo s \<longleftrightarrow> (\<exists>p i d r. pview s p = Some (i, d, r, False))"

lemma todo_iff: "todo s \<longleftrightarrow> (\<exists>p c. pcb_heap s p = Some c \<and> state c \<noteq> Some ''finished'')"
  by (auto simp: todo_def pview_def brief_def)

lemma todo_queue:
  assumes core: "sched_core s xs" and null: "current_pcb s = NULL"
  shows "todo s \<longleftrightarrow> xs \<noteq> []"
proof
  assume "todo s"
  then obtain p c where c: "pcb_heap s p = Some c" "state c \<noteq> Some ''finished''" by (auto simp: todo_iff)
  have "pcbs_ok (pcb_heap s) (pcb_brk s)" using core by (simp add: sched_core_def)
  then have "p \<noteq> NULL" by (rule pcbs_ok_get(2)) (rule c(1))
  then show "xs \<noteq> []" using unfinished_live [OF core c] null by auto
next
  assume "xs \<noteq> []"
  then obtain x ys where x: "xs = x # ys" by (cases xs) auto
  then obtain c where c: "pcb_heap s (fst x) = Some c" using core by (auto simp: sched_core_def entries_ok_def)
  with queued_unfinished [OF core _ c] x show "todo s" by (auto simp: todo_iff)
qed

lemma todo_not_empty:
  assumes "sched_inv s" "current_pcb s = NULL"
  shows "todo s \<longleftrightarrow> \<not> is_empty (rdy_queue s)"
proof -
  obtain xs where core: "sched_core s xs" using inv_core [OF assms(1)] by blast
  then have "is_empty (rdy_queue s) = (xs = [])" using queue_is_empty by (auto simp: sched_core_def)
  then show ?thesis using todo_queue [OF core assms(2)] by simp
qed

text \<open>The running process can send its signal.\<close>

definition ready :: "sched \<Rightarrow> bool" where
  "ready s \<longleftrightarrow> current_pcb s \<noteq> NULL \<and>
     (selected_algorithm s = SRTN \<longrightarrow> front (rdy_queue s) = Some (Some (current_pcb s)))"

lemma schedule_ready:
  assumes core: "sched_core s xs" and null: "current_pcb s = NULL" and xs: "xs \<noteq> []"
    and run: "schedule_next_process s = Some s'"
  shows "ready s'"
proof -
  obtain x ys where x: "xs = x # ys" using xs by (cases xs) auto
  obtain pcb q f xs' where c: "pcb_heap s (fst x) = Some pcb" and q: "queue_is (selected_algorithm s) q xs'"
    "if selected_algorithm s = HPF then mset xs' = mset ys else xs' = x # ys"
    and s': "s' = s\<lparr>current_pcb := fst x, rdy_queue := q, pcb_heap := (pcb_heap s)(fst x \<mapsto> dispatched (clk s) pcb),
      kills := kills s @ [(pid pcb, SIGCONT)], last_remain_time := remaining_time pcb,
      log_start_time := clk s, files := f\<rparr>"
    using schedule_next_Cons [OF core [unfolded x] null] run by auto
  have "pcbs_ok (pcb_heap s) (pcb_brk s)" using core by (simp add: sched_core_def)
  then have "fst x \<noteq> NULL" by (rule pcbs_ok_get(2)) (rule c)
  moreover have "front q = Some (Some (fst x))" if "selected_algorithm s = SRTN"
    using queue_is_front [OF q(1)] q(2) that by simp
  ultimately show ?thesis by (simp add: ready_def s')
qed

lemma dispatch_ready:
  assumes inv: "sched_inv s" and null: "current_pcb s = NULL" and todo: "todo s" and run: "dispatch s = Some s'"
  shows "ready s'"
proof -
  obtain xs where core: "sched_core s xs" using inv_core [OF inv] by blast
  let ?i = "if clk s > last_process_end_time s \<and> \<not> is_empty (rdy_queue s) then
      log_execution (Idle (last_process_end_time s) (clk s))
        (s\<lparr>idle_time := wrap32 (idle_time s + wrap32 (clk s - last_process_end_time s))\<rparr>) else s"
  have i: "sched_core ?i xs" "current_pcb ?i = NULL" using core null by (auto simp: sched_core_def log_execution_def)
  have "schedule_next_process ?i = Some s'" using run null by (simp add: dispatch_def)
  with schedule_ready [OF i] todo todo_queue [OF core null] show ?thesis by blast
qed

lemma preempt_null:
  assumes inv: "sched_inv s" and cur: "current_pcb s \<noteq> NULL" "\<not> ready s"
    and run: "handle_current_running_process s = Some s'"
  shows "current_pcb s' = NULL"
proof -
  obtain xs where core: "sched_core s xs" using inv_core [OF inv] by blast
  have srtn: "selected_algorithm s = SRTN" "front (rdy_queue s) \<noteq> Some (Some (current_pcb s))"
    using cur by (auto simp: ready_def)
  then have "xs \<noteq> []" using core cur(1) by (auto simp: sched_core_def current_ok_def)
  then obtain x ys where x: "xs = x # ys" by (cases xs) auto
  have fr: "front (rdy_queue s) = Some (Some (fst x))"
    using queue_is_front [of "selected_algorithm s" "rdy_queue s" xs] core x by (simp add: sched_core_def)
  obtain z where "pcb_heap s (fst x) = Some z" using core x by (auto simp: sched_core_def entries_ok_def)
  moreover from this have "fst x \<noteq> NULL" using pcbs_ok_get(2) core by (auto simp: sched_core_def)
  moreover obtain c where "get_pcb s (current_pcb s) = Some c" by (rule sched_core_current [OF core cur(1)])
  ultimately have "handle_quantum_expiration s = Some s'"
    using run srtn fr cur(1) by (auto simp: handle_current_running_process_def get_pcb_def ptr_of_def Let_def)
  then show ?thesis using handle_quantum_expiration_run [OF core cur(1)] srtn(1) by auto
qed

lemma idle_current:
  "current_pcb s = NULL \<Longrightarrow> is_empty (rdy_queue s) \<Longrightarrow> sched_inv s \<Longrightarrow> handle_current_running_process s = Some s"
proof -
  assume n: "current_pcb s = NULL" and e: "is_empty (rdy_queue s)" and inv: "sched_inv s"
  obtain xs where core: "sched_core s xs" using inv_core [OF inv] by blast
  then have "xs = []" using e queue_is_empty by (auto simp: sched_core_def)
  then have "front (rdy_queue s) = Some None" using queue_is_front core by (fastforce simp: sched_core_def)
  then show ?thesis using n e
    by (cases "selected_algorithm s")
      (auto simp: handle_current_running_process_def schedule_next_process_def ptr_of_def Let_def)
qed

lemma idle_dispatch: "current_pcb s = NULL \<Longrightarrow> is_empty (rdy_queue s) \<Longrightarrow> dispatch s = Some s"
  by (simp add: dispatch_def schedule_next_process_def)

lemma turn_current:
  assumes "exec Loop (At ph s) = Some (At ph' s')" "ph \<noteq> Dispatch" "ph \<noteq> Running"
  shows "current_pcb s' = current_pcb s"
proof (cases ph)
  case Receive
  have "receive_all ms u = Some v \<Longrightarrow> current_pcb v = current_pcb u" for ms u v
    by (induct ms arbitrary: u) (auto simp: bind_eq_Some_conv admit_def Let_def split: if_splits)
  then show ?thesis using assms Receive by (auto simp: outcome_def check_for_new_processes_def split: option.splits)
qed (use assms in \<open>auto simp: check_no_more_processes_def Let_def split: if_splits list.splits\<close>)

lemma turn_todo:
  assumes inv: "sched_inv s" and run: "exec Loop (At ph s) = Some (At ph' s')"
    and valid: "\<forall>m \<in> set (msgs_pcb s). valid_pcb m" and todo: "todo s"
  shows "todo s'"
  using inv run valid
proof (cases rule: loop_moves)
  case receive
  obtain p c where c: "pcb_heap s p = Some c" "state c \<noteq> Some ''finished''" using todo by (auto simp: todo_iff)
  have "pcbs_ok (pcb_heap s) (pcb_brk s)" using inv by (auto simp: sched_inv_def sched_rep_def sched_core_def)
  then have "p < pcb_brk s" by (rule pcbs_ok_get(3)) (rule c(1))
  then have "pcb_heap s' p = Some c" using receive(7) [of p] c(1) by simp
  then show ?thesis using c(2) by (auto simp: todo_iff)
next
  case (end_run c r)
  then show ?thesis by (auto simp: todo_def intro!: exI [of _ "current_pcb s"])
qed (use todo in \<open>simp_all add: todo_def\<close>)

section \<open>The string message\<close>

text \<open>Once the generator is done, its string message is in the queue or has been read.\<close>

definition told :: "system \<Rightarrow> bool" where
  "told y \<longleftrightarrow> gen_phase y = Sent \<longrightarrow>
     notices (sch y) = ([''no_more_processes''], 0) \<or> notices (sch y) = ([], 1)"

lemma told_step:
  "sys_step k x e \<Longrightarrow> x = Up y \<Longrightarrow> e = Up y' \<Longrightarrow> told y \<Longrightarrow> noticed y \<Longrightarrow>
   (gen_phase y \<noteq> Sent \<longrightarrow> str_sent (gen y) = []) \<Longrightarrow>
   (gen_phase y' = Sent \<longrightarrow> str_sent (gen y') = [''no_more_processes'']) \<Longrightarrow> told y'"
proof (induct arbitrary: y y' rule: sys_step.induct)
  case (generator y1 ph g')
  have "gen_phase y1 \<noteq> Sent" using generator(1) by auto
  then show ?case using generator(2-) by (auto simp: told_def noticed_def receive_new_def notices_def)
next
  case (scheduler y1 ph s')
  then show ?case using loop_notices [OF scheduler(1)] no_more_notices [of "sch y1"]
    by (auto simp: told_def notices_def simp del: exec.simps split: if_splits)
next
  case (signal y1 i p s')
  have "notices s' = notices (sch y1)"
    using signal(4) signal_notices [of "sch y1" s'] by (auto simp: handle_signal_def split: if_splits)
  then show ?case using signal(5-) by (auto simp: told_def)
qed (auto simp: told_def notices_def)

lemma sys_reachable_told:
  assumes fine: "system_fine k algo q ps c d"
  shows "sys_reachable k x e \<Longrightarrow> x = Up (start_system algo q ps c d now) \<Longrightarrow> \<exists>y. e = Up y \<and> told y"
proof (induct rule: sys_reachable.induct)
  case start
  then show ?case by (auto simp: told_def start_sys)
next
  case (step u v)
  then obtain y where y: "u = Up y" "told y" by blast
  have v: "sys_reachable k (Up (start_system algo q ps c d now)) v"
    using sys_reachable.step [OF step.hyps(1,3)] step.prems by simp
  obtain y' where y': "v = Up y'" "gen_reachable k (gen_starts ps c d now) (Gen (gen_phase y') (gen y'))"
    using sys_reachable_parts [OF fine v refl] by blast
  have u: "noticed y" "gen_reachable k (gen_starts ps c d now) (Gen (gen_phase y) (gen y))"
    using sys_reachable_parts [OF fine step.hyps(1)] step.prems y(1) by auto
  have run: "run_ok k ps c d" using fine by (simp add: system_fine_def)
  have "told y'" using told_step [OF step.hyps(3) y(1) y'(1) y(2) u(1)] run_end [OF run u(2) refl]
      run_end [OF run y'(2) refl] by (auto simp: at_end_def)
  then show ?case using y'(1) by blast
qed

section \<open>The measure\<close>

text \<open>The time the processes that were forked have left.\<close>

definition time_left :: "process option \<Rightarrow> nat" where
  "time_left p = (case p of None \<Rightarrow> 0 | Some p \<Rightarrow> nat (left p))"

definition work :: "system \<Rightarrow> nat" where
  "work y = (\<Sum>m\<leftarrow>pcb_sent (gen y). time_left (procs y (pid m)))"

lemma deliver_left: "time_left (deliver t ks P i) = time_left (P i)"
proof (induct ks arbitrary: P)
  case (Cons x ks)
  have "left (live m p) = left p" if "m = Stop \<or> m = Cont t" for m p
    using that by (auto simp: handle_sigcont_def)
  then have "time_left ((P(fst x := map_option (live (case snd x of SIGCONT \<Rightarrow> Cont t | SIGSTOP \<Rightarrow> Stop)) (P (fst x)))) i) =
      time_left (P i)" by (auto simp: time_left_def split: option.splits signal.splits)
  then show ?case using Cons by simp
qed simp

lemma sum_list_less:
  "\<forall>x \<in> set xs. f x \<le> (g x :: nat) \<Longrightarrow> x \<in> set xs \<Longrightarrow> f x < g x \<Longrightarrow> sum_list (map f xs) < sum_list (map g xs)"
proof (induct xs)
  case (Cons a xs)
  have "sum_list (map f xs) \<le> sum_list (map g xs)" using Cons.prems(1) by (intro sum_list_mono) auto
  moreover have "f a \<le> g a" using Cons.prems(1) by simp
  ultimately show ?case using Cons by auto
qed simp

lemma sys_trans: "sys_reachable k d e \<Longrightarrow> sys_reachable k b d \<Longrightarrow> sys_reachable k b e"
  by (induct rule: sys_reachable.induct) (auto intro: sys_reachable.step)

lemma work_upd: "work (y\<lparr>sch := s, procs := P\<rparr>) = (\<Sum>m\<leftarrow>pcb_sent (gen y). time_left (P (pid m)))"
  by (simp add: work_def)

text \<open>The system goes on, and the clocks advance at most by the work that is done.\<close>

definition follows :: "kernel \<Rightarrow> system \<Rightarrow> system \<Rightarrow> bool" where
  "follows k y y' \<longleftrightarrow> sys_reachable k (Up y) (Up y') \<and> gen_phase y' = gen_phase y \<and> work y' \<le> work y \<and>
     clk (sch y') + int (work y') \<le> clk (sch y) + int (work y) \<and>
     gen_clk (gen y') + int (work y') \<le> gen_clk (gen y) + int (work y) \<and>
     (msgs_pcb (sch y) = [] \<longrightarrow> msgs_pcb (sch y') = [])"

lemma follows_refl: "follows k y y"
  by (simp add: follows_def sys_reachable.start)

lemma follows_trans: "follows k a b \<Longrightarrow> follows k b c \<Longrightarrow> follows k a c"
  by (auto simp: follows_def intro: sys_trans)

text \<open>A state after the last message of the generator; there may be enough time on both clocks.\<close>

definition in_time :: "system \<Rightarrow> bool" where
  "in_time y \<longleftrightarrow> clk (sch y) + int (work y) \<le> 2147483647 \<and> gen_clk (gen y) + int (work y) \<le> 2147483647"

definition settled :: "kernel \<Rightarrow> string \<Rightarrow> int \<Rightarrow> Process list \<Rightarrow> int \<Rightarrow> int \<Rightarrow> int \<Rightarrow> system \<Rightarrow> bool" where
  "settled k algo q ps c d now y \<longleftrightarrow> system_fine k algo q ps c d \<and>
     sys_reachable k (Up (start_system algo q ps c d now)) (Up y) \<and> gen_phase y = Sent"

lemma settled_follows: "settled k algo q ps c d now y \<Longrightarrow> follows k y y' \<Longrightarrow> settled k algo q ps c d now y'"
  by (auto simp: settled_def follows_def intro: sys_trans)

lemma in_time_follows: "in_time y \<Longrightarrow> follows k y y' \<Longrightarrow> in_time y'"
  by (simp add: in_time_def follows_def)

lemma settledD:
  assumes "settled k algo q ps c d now y"
  shows "sys_ok k ps c d (sched_starts algo q ps now) y" "told y" "system_fine k algo q ps c d" "sched_inv (sch y)"
    "\<forall>m \<in> set (msgs_pcb (sch y)). valid_pcb m"
proof -
  have f: "system_fine k algo q ps c d" and r: "sys_reachable k (Up (start_system algo q ps c d now)) (Up y)"
    using assms by (simp_all add: settled_def)
  show "system_fine k algo q ps c d" by (rule f)
  show ok: "sys_ok k ps c d (sched_starts algo q ps now) y" using sys_reachable_ok [OF r refl f] by blast
  show "told y" using sys_reachable_told [OF f r refl] by blast
  show "sched_inv (sch y)" by (rule sys_okD(3) [OF ok])
  have "kernel_ok k {c, d}" "file_fine ps" using f by (simp_all add: system_fine_def run_ok_def)
  from sent_accepted [OF sys_okD(1) [OF ok] this] show "\<forall>m \<in> set (msgs_pcb (sch y)). valid_pcb m"
    unfolding sys_okD(6) [OF ok] by (meson in_set_dropD)
qed

section \<open>Going on\<close>

lemma turn:
  assumes set: "settled k algo q ps c d now y" and ph: "sch_phase y \<noteq> Done"
  obtains y' where "exec Loop (At (sch_phase y) (sch y)) = Some (At (sch_phase y') (sch y'))" "follows k y y'"
    "settled k algo q ps c d now y'"
proof -
  note inv = settledD(4) [OF set]
  have "exec Loop (At (sch_phase y) (sch y)) \<noteq> None" using ph by (cases "sch_phase y") auto
  moreover have "exec Loop (At (sch_phase y) (sch y)) \<noteq> Some Crashed"
    using inv.step [OF exec_step] inv by fastforce
  ultimately obtain conf where "exec Loop (At (sch_phase y) (sch y)) = Some conf" "conf \<noteq> Crashed" by blast
  then obtain ph' s' where run: "exec Loop (At (sch_phase y) (sch y)) = Some (At ph' s')" by (cases conf) auto
  define y' where "y' = y\<lparr>sch_phase := ph', sch := s',
      procs := deliver (clk s') (drop (length (kills (sch y))) (kills s')) (procs y)\<rparr>"
  have "work y' = work y" by (simp add: work_def y'_def deliver_left)
  moreover have "sys_step k (Up y) (Up y')" unfolding y'_def by (rule sys_step.scheduler [OF run])
  then have "sys_reachable k (Up y) (Up y')" by (rule sys_reachable.step [OF sys_reachable.start])
  moreover have "clk s' = clk (sch y) \<and> (msgs_pcb (sch y) = [] \<longrightarrow> msgs_pcb s' = [])"
    using inv run settledD(5) [OF set] by (cases rule: loop_moves) (auto simp: outside_def)
  ultimately have f: "follows k y y'" by (simp add: follows_def y'_def)
  show thesis by (rule that [OF _ f settled_follows [OF set f]]) (simp add: y'_def run del: exec.simps)
qed

lemma signal_now:
  assumes set: "settled k algo q ps c d now y" and r: "ready (sch y)" and p: "procs y i = Some p"
    "ticks (clk (sch y)) p"
  obtains y' where "sys_step k (Up y) (Up y')" "gen_phase y' = gen_phase y" "gen y' = gen y"
    "clk (sch y') = clk (sch y)" "msgs_pcb (sch y') = msgs_pcb (sch y)" "work y' < work y"
proof -
  note ok = settledD(1) [OF set] and inv = settledD(4) [OF set]
  have srtn: "selected_algorithm (sch y) = SRTN \<longrightarrow> front (rdy_queue (sch y)) = Some (Some (current_pcb (sch y)))"
    using r by (simp add: ready_def)
  let ?p = "poll (clk (sch y)) p"
  have sig: "signal_ok (sch y)" by (rule tick_signal_ok [OF ok p srtn])
  obtain s' where run: "handle_signal ?p (sch y) = Some s'"
    using handle_process_tick_inv [OF inv sig] handle_process_termination_inv [OF inv sig]
    by (cases "last (signals ?p) = SIGUSR1") (auto simp: handle_signal_def)
  have lp: "\<not> stopped p" "0 < left p" using p(2) by (simp_all add: ticks_def)
  from running_process [OF ok p(1) lp] obtain x where x: "pcb_heap (sch y) (current_pcb (sch y)) = Some x"
    "left p \<le> remaining_time x" "pcb_ok x" by blast
  then have "left p < 1073741824" by (simp add: pcb_ok_def prio_ok_def)
  note po = poll_ticks [OF p(2) this]
  obtain xs where core: "sched_core (sch y) xs" using inv_core [OF inv] by blast
  have out: "outside s' = outside (sch y)"
    using tick_view [OF core sig _ x(1)] termination_view [OF core sig _ x(1)] run
    by (auto simp: handle_signal_def split: if_splits)
  obtain m where m: "m \<in> set (pcb_sent (gen y))" "pid m = i" using sys_okD(7) [OF ok] p(1) by blast
  have "(\<Sum>m\<leftarrow>pcb_sent (gen y). time_left (((procs y)(i \<mapsto> ?p)) (pid m))) < work y" unfolding work_def
    by (rule sum_list_less [where x = m]) (use m p(1) po(1) lp(2) in \<open>auto simp: time_left_def\<close>)
  then have "work (y\<lparr>sch := s', procs := (procs y)(i \<mapsto> ?p)\<rparr>) < work y" by (simp only: work_upd)
  then show thesis using out by (intro that [OF sys_step.signal [OF p srtn run]]) (simp_all add: outside_def)
qed

lemma signal_turn:
  assumes set: "settled k algo q ps c d now y" and time: "in_time y" and r: "ready (sch y)"
  obtains y' where "follows k y y'" "work y' < work y"
proof -
  note ok = settledD(1) [OF set] and inv = settledD(4) [OF set]
  obtain x where x: "pcb_heap (sch y) (current_pcb (sch y)) = Some x" "state x \<noteq> Some ''finished''"
    using current_unfinished [OF inv] r by (auto simp: ready_def)
  then have v: "pview (sch y) (current_pcb (sch y)) = Some (pid x, PDATA x, remaining_time x, False)"
    by (simp add: pview_def brief_def)
  from sys_okD(8) [OF ok this] obtain p where p: "procs y (pid x) = Some p" "\<not> stopped p" "\<not> exited p" "0 < left p"
    by (auto simp: matches_def)
  show thesis
  proof (cases "clk (sch y) = last_clk p")
    case False
    then have "ticks (clk (sch y)) p" using p by (simp add: ticks_def)
    from signal_now [OF set r p(1) this] obtain y' where
      y': "sys_step k (Up y) (Up y')" "gen_phase y' = gen_phase y" "gen y' = gen y"
      "clk (sch y') = clk (sch y)" "msgs_pcb (sch y') = msgs_pcb (sch y)" "work y' < work y" .
    then show thesis using sys_reachable.step [OF sys_reachable.start y'(1)]
      by (intro that [of y']) (simp_all add: follows_def)
  next
    case True
    define y1 where "y1 = y\<lparr>gen := (gen y)\<lparr>gen_clk := gen_clk (gen y) + 1\<rparr>, sch := (sch y)\<lparr>clk := clk (sch y) + 1\<rparr>\<rparr>"
    have "pid x \<in> pid ` set (pcb_sent (gen y))"
      by (rule subsetD [OF sys_okD(7) [OF ok]]) (simp add: p(1) dom_def)
    then have "time_left (procs y (pid x)) \<in> set (map (\<lambda>m. time_left (procs y (pid m))) (pcb_sent (gen y)))" by force
    from member_le_sum_list [OF this] have "time_left (procs y (pid x)) \<le> work y" unfolding work_def by simp
    then have "0 < work y" using p(1,4) by (simp add: time_left_def)
    then have b: "clk (sch y) < 2147483647" "gen_clk (gen y) < 2147483647" using time by (simp_all add: in_time_def)
    have r1: "sys_reachable k (Up y) (Up y1)"
      unfolding y1_def by (rule sys_reachable.step [OF sys_reachable.start sys_step.clock [OF b]])
    have set1: "settled k algo q ps c d now y1" using set sys_trans [OF r1] by (simp add: settled_def y1_def)
    have "ready (sch y1)" "procs y1 (pid x) = Some p" "ticks (clk (sch y1)) p"
      using r p True by (simp_all add: ready_def y1_def ticks_def)
    from signal_now [OF set1 this] obtain y' where
      y': "sys_step k (Up y1) (Up y')" "gen_phase y' = gen_phase y1" "gen y' = gen y1"
      "clk (sch y') = clk (sch y1)" "msgs_pcb (sch y') = msgs_pcb (sch y1)" "work y' < work y1" .
    have "work y1 = work y" by (simp add: work_def y1_def)
    then show thesis using sys_reachable.step [OF r1 y'(1)] y'(2-)
      by (intro that [of y']) (simp_all add: follows_def y1_def)
  qed
qed

section \<open>To the end of the scheduler\<close>

text \<open>With nothing running and something to do, the scheduler comes to its dispatch and runs it.\<close>

lemma null_turn:
  assumes set: "settled k algo q ps c d now y" and ph: "sch_phase y \<in> {Receive, Guard, Notice}"
    and s: "current_pcb (sch y) = NULL" "todo (sch y)"
  obtains y' where "follows k y y'" "settled k algo q ps c d now y'" "current_pcb (sch y') = NULL" "todo (sch y')"
    "sch_phase y = Receive \<Longrightarrow> sch_phase y' = Dispatch" "sch_phase y = Guard \<Longrightarrow> sch_phase y' = Receive"
    "sch_phase y = Notice \<Longrightarrow> sch_phase y' = Guard"
proof -
  have "sch_phase y \<noteq> Done" using ph by auto
  from turn [OF set this] obtain y' where y': "exec Loop (At (sch_phase y) (sch y)) = Some (At (sch_phase y') (sch y'))"
    "follows k y y'" "settled k algo q ps c d now y'" .
  note inv = settledD(4) [OF set]
  have "current_pcb (sch y') = NULL" using turn_current [OF y'(1)] ph s(1) by auto
  moreover have "todo (sch y')" by (rule turn_todo [OF inv y'(1) settledD(5) [OF set] s(2)])
  moreover have "loop_guard (sch y)" using todo_not_empty [OF inv s(1)] s(2) by (simp add: loop_guard_def)
  then have "sch_phase y = Receive \<Longrightarrow> sch_phase y' = Dispatch" "sch_phase y = Guard \<Longrightarrow> sch_phase y' = Receive"
    "sch_phase y = Notice \<Longrightarrow> sch_phase y' = Guard"
    using y'(1) by (auto simp: outcome_def split: option.splits)
  ultimately show thesis by (rule that [OF y'(2,3)])
qed

text \<open>A state from which the system comes to a process that can send its signal, or to the end.\<close>

definition rests :: "kernel \<Rightarrow> system \<Rightarrow> bool" where
  "rests k y \<longleftrightarrow> (\<exists>y'. follows k y y' \<and> (ready (sch y') \<or> sch_phase y' = Done))"

lemma rests_follows: "follows k y y' \<Longrightarrow> rests k y' \<Longrightarrow> rests k y"
  unfolding rests_def by (meson follows_trans)

lemma rests_now: "ready (sch y) \<or> sch_phase y = Done \<Longrightarrow> rests k y"
  unfolding rests_def using follows_refl by blast

lemma rests_dispatch:
  assumes set: "settled k algo q ps c d now y" and s: "sch_phase y = Dispatch" "current_pcb (sch y) = NULL" "todo (sch y)"
  shows "rests k y"
proof -
  have "sch_phase y \<noteq> Done" using s(1) by simp
  from turn [OF set this] obtain y' where y': "exec Loop (At (sch_phase y) (sch y)) = Some (At (sch_phase y') (sch y'))"
    "follows k y y'" "settled k algo q ps c d now y'" .
  have "dispatch (sch y) = Some (sch y')" using y'(1) s(1) by (auto simp: outcome_def split: option.splits)
  from dispatch_ready [OF settledD(4) [OF set] s(2,3) this] show ?thesis
    by (intro rests_follows [OF y'(2)] rests_now) simp
qed

lemma rests_todo:
  assumes "settled k algo q ps c d now y" "sch_phase y \<in> {Receive, Guard, Notice}" "current_pcb (sch y) = NULL"
    "todo (sch y)"
  shows "rests k y"
proof -
  have receive: "rests k y" if "settled k algo q ps c d now y" "sch_phase y = Receive" "current_pcb (sch y) = NULL"
    "todo (sch y)" for y
  proof -
    have "sch_phase y \<in> {Receive, Guard, Notice}" using that(2) by simp
    from null_turn [OF that(1) this that(3,4)] show ?thesis by (metis rests_dispatch rests_follows that(2))
  qed
  have guard: "rests k y" if "settled k algo q ps c d now y" "sch_phase y = Guard" "current_pcb (sch y) = NULL"
    "todo (sch y)" for y
  proof -
    have "sch_phase y \<in> {Receive, Guard, Notice}" using that(2) by simp
    from null_turn [OF that(1) this that(3,4)] show ?thesis by (metis receive rests_follows that(2))
  qed
  from null_turn [OF assms] receive guard assms show ?thesis by (metis insertE singletonD rests_follows)
qed

text \<open>With nothing running and nothing to do, it comes to its end.\<close>

lemma rests_idle:
  assumes set: "settled k algo q ps c d now y" and s: "sch_phase y = Running" "current_pcb (sch y) = NULL" "\<not> todo (sch y)"
  shows "rests k y"
proof -
  have e: "is_empty (rdy_queue (sch y))" using todo_not_empty [OF settledD(4) [OF set] s(2)] s(3) by simp
  have "sch_phase y \<noteq> Done" using s(1) by simp
  from turn [OF set this] obtain y1 where y1: "exec Loop (At (sch_phase y) (sch y)) = Some (At (sch_phase y1) (sch y1))"
    "follows k y y1" "settled k algo q ps c d now y1" .
  have 1: "sch y1 = sch y" "sch_phase y1 = Notice"
    using y1(1) s(1) idle_current [OF s(2) e settledD(4) [OF set]] by (auto simp: outcome_def)
  then have "sch_phase y1 \<noteq> Done" by simp
  from turn [OF y1(3) this] obtain y2 where y2: "exec Loop (At (sch_phase y1) (sch y1)) = Some (At (sch_phase y2) (sch y2))"
    "follows k y1 y2" "settled k algo q ps c d now y2" .
  have 2: "sch_phase y2 = Guard" "sch y2 = check_no_more_processes (sch y)" using y2(1) 1 by simp_all
  have "notices (sch y) = ([''no_more_processes''], 0) \<or> notices (sch y) = ([], 1)"
    using settledD(2) [OF set] set by (simp add: told_def settled_def)
  then have "\<not> loop_guard (sch y2)" using e s(2)
    by (auto simp: 2 check_no_more_processes_def loop_guard_def notices_def Let_def)
  moreover have "sch_phase y2 \<noteq> Done" using 2 by simp
  from turn [OF y2(3) this] obtain y3 where y3: "exec Loop (At (sch_phase y2) (sch y2)) = Some (At (sch_phase y3) (sch y3))"
    "follows k y2 y3" "settled k algo q ps c d now y3" .
  ultimately have "sch_phase y3 = Done" using y3(1) 2(1) by simp
  then have "rests k y3" by (intro rests_now) simp
  then show ?thesis by (intro rests_follows [OF y1(2)] rests_follows [OF y2(2)] rests_follows [OF y3(2)])
qed

text \<open>A process that runs can send its signal, or is preempted.\<close>

lemma rests_running:
  assumes set: "settled k algo q ps c d now y" and s: "sch_phase y = Running" "current_pcb (sch y) \<noteq> NULL"
  shows "rests k y"
proof (cases "ready (sch y)")
  case True
  then show ?thesis by (intro rests_now) simp
next
  case False
  note inv = settledD(4) [OF set]
  have "sch_phase y \<noteq> Done" using s(1) by simp
  from turn [OF set this] obtain y' where y': "exec Loop (At (sch_phase y) (sch y)) = Some (At (sch_phase y') (sch y'))"
    "follows k y y'" "settled k algo q ps c d now y'" .
  have run: "handle_current_running_process (sch y) = Some (sch y')" "sch_phase y' = Notice"
    using y'(1) s(1) by (auto simp: outcome_def split: option.splits)
  have "todo (sch y)" using current_unfinished [OF inv s(2)] by (auto simp: todo_iff)
  from turn_todo [OF inv y'(1) settledD(5) [OF set] this] have "todo (sch y')" .
  then have "rests k y'" using rests_todo [OF y'(3)] run(2) preempt_null [OF inv s(2) False run(1)] by simp
  then show ?thesis by (rule rests_follows [OF y'(2)])
qed

lemma rests_loop:
  assumes set: "settled k algo q ps c d now y" and s: "sch_phase y = Dispatch"
  shows "rests k y"
proof (cases "current_pcb (sch y) = NULL \<and> todo (sch y)")
  case True
  then show ?thesis using rests_dispatch [OF set s] by simp
next
  case False
  have "sch_phase y \<noteq> Done" using s by simp
  from turn [OF set this] obtain y' where y': "exec Loop (At (sch_phase y) (sch y)) = Some (At (sch_phase y') (sch y'))"
    "follows k y y'" "settled k algo q ps c d now y'" .
  have "dispatch (sch y) = Some (sch y)"
    using False idle_dispatch [of "sch y"] todo_not_empty [OF settledD(4) [OF set]]
    by (cases "current_pcb (sch y) = NULL") (auto simp: dispatch_def)
  then have "sch y' = sch y" "sch_phase y' = Running" using y'(1) s by (simp_all add: outcome_def)
  then have "rests k y'" using rests_running [OF y'(3)] rests_idle [OF y'(3)] False by (cases "current_pcb (sch y) = NULL") simp_all
  then show ?thesis by (rule rests_follows [OF y'(2)])
qed

lemma rests_always:
  assumes "settled k algo q ps c d now y"
  shows "rests k y"
proof -
  have step: "\<exists>y'. follows k y y' \<and> settled k algo q ps c d now y' \<and>
      (case sch_phase y of Guard \<Rightarrow> sch_phase y' \<in> {Receive, Done} | Receive \<Rightarrow> sch_phase y' = Dispatch
        | Dispatch \<Rightarrow> sch_phase y' = Running | Running \<Rightarrow> sch_phase y' = Notice | Notice \<Rightarrow> sch_phase y' = Guard | Done \<Rightarrow> True)"
    if set: "settled k algo q ps c d now y" "sch_phase y \<noteq> Done" for y
  proof -
    from turn [OF set] obtain y' where y': "exec Loop (At (sch_phase y) (sch y)) = Some (At (sch_phase y') (sch y'))"
      "follows k y y'" "settled k algo q ps c d now y'" .
    then show ?thesis by (intro exI [of _ y']) (auto simp: outcome_def split: phase.splits option.splits if_splits)
  qed
  have receive: "rests k y" if "settled k algo q ps c d now y" "sch_phase y = Receive" for y
    using step [OF that(1)] that(2) rests_loop rests_follows by fastforce
  have guard: "rests k y" if "settled k algo q ps c d now y" "sch_phase y = Guard" for y
    using step [OF that(1)] that(2) receive rests_now rests_follows by fastforce
  have notice: "rests k y" if "settled k algo q ps c d now y" "sch_phase y = Notice" for y
    using step [OF that(1)] that(2) guard rests_follows by fastforce
  have running: "rests k y" if "settled k algo q ps c d now y" "sch_phase y = Running" for y
    using step [OF that(1)] that(2) notice rests_follows by fastforce
  show ?thesis
    by (cases "sch_phase y") (use assms receive guard notice running rests_loop rests_now in blast)+
qed

text \<open>Induction on the work left.\<close>

lemma comes_to_end:
  "settled k algo q ps c d now y \<Longrightarrow> in_time y \<Longrightarrow> \<exists>y'. follows k y y' \<and> sch_phase y' = Done"
proof (induct "work y" arbitrary: y rule: less_induct)
  case less
  obtain y1 where y1: "follows k y y1" "ready (sch y1) \<or> sch_phase y1 = Done"
    using rests_always [OF less.prems(1)] by (auto simp: rests_def)
  show ?case
  proof (cases "sch_phase y1 = Done")
    case True
    then show ?thesis using y1(1) by blast
  next
    case False
    note set1 = settled_follows [OF less.prems(1) y1(1)] and time1 = in_time_follows [OF less.prems(2) y1(1)]
    have "ready (sch y1)" using y1(2) False by simp
    from signal_turn [OF set1 time1 this] obtain y2 where y2: "follows k y1 y2" "work y2 < work y1" .
    have "work y2 < work y" using y1(1) y2(2) by (simp add: follows_def)
    from less.hyps [OF this settled_follows [OF set1 y2(1)] in_time_follows [OF time1 y2(1)]]
    obtain y3 where "follows k y2 y3" "sch_phase y3 = Done" by blast
    then show ?thesis using follows_trans [OF follows_trans [OF y1(1) y2(1)]] by blast
  qed
qed

section \<open>The property\<close>

text \<open>
  C25: the simulation does not get stuck at its end. From every state in which the generator has sent
  its last message, the system can go on until the scheduler leaves its loop, in as many seconds as the
  processes that were forked have left to run, as long as the clocks have room for them. When no
  message waits in that state and no call of the kernel fails, every process of the file is then logged
  as finished exactly once. (Which of the possible runs happens is up to the timing of the parts;
  the runs are those of \<open>sys_step\<close>.)
\<close>

theorem system_can_end:
  assumes "system_fine k algo q ps c d" "no_failure k"
    "sys_reachable k (Up (start_system algo q ps c d now)) (Up y)" "gen_phase y = Sent"
    "clk (sch y) + int (work y) \<le> 2147483647" "gen_clk (gen y) + int (work y) \<le> 2147483647"
  shows "\<exists>y'. sys_reachable k (Up y) (Up y') \<and> sch_phase y' = Done \<and>
    clk (sch y') \<le> clk (sch y) + int (work y) \<and>
    (msgs_pcb (sch y) = [] \<longrightarrow>
      mset (map process_id (fin_entries (files (sch y')))) = mset (map proc_id ps) \<and> msgs_pcb (sch y') = [])"
proof -
  have "settled k algo q ps c d now y" "in_time y" using assms by (simp_all add: settled_def in_time_def)
  from comes_to_end [OF this] obtain y' where y': "follows k y y'" "sch_phase y' = Done" by blast
  then have r: "sys_reachable k (Up y) (Up y')" "clk (sch y') \<le> clk (sch y) + int (work y)"
    "msgs_pcb (sch y) = [] \<longrightarrow> msgs_pcb (sch y') = []" by (auto simp: follows_def)
  have "msgs_pcb (sch y) = [] \<longrightarrow> mset (map process_id (fin_entries (files (sch y')))) = mset (map proc_id ps)"
    using system_completes [OF assms(1) sys_trans [OF r(1) assms(3)] y'(2) _ assms(2)] r(3) by blast
  then show ?thesis using r y'(2) by blast
qed

theorem system_can_end_witness:
  "\<exists>y'. sys_reachable demo_kernel (Up (sys_state (take 11 whole_events))) (Up y') \<and> sch_phase y' = Done \<and>
     clk (sch y') \<le> 4 \<and> mset (map process_id (fin_entries (files (sch y')))) = {#1#}"
proof -
  let ?y = "sys_state (take 11 whole_events)"
  have "sphases (sys_after (take 11 whole_events)) = Some (Sent, Guard)" by code_simp
  note r = sys_after_reachable [OF this]
  have "(clk (sch ?y), gen_clk (gen ?y), work ?y, msgs_pcb (sch ?y)) = (2, 2, 2, [])" by code_simp
  then have v: "clk (sch ?y) = 2" "gen_clk (gen ?y) = 2" "work ?y = 2" "msgs_pcb (sch ?y) = []" by simp_all
  have "no_failure demo_kernel" by (simp add: no_failure_def demo_kernel_def)
  from system_can_end [OF one_fine this, of 0 ?y] r show ?thesis by (auto simp: v one_file_def)
qed

end
