(* ===== verification/Scheduler_Signals.thy ===== *)
theory Scheduler_Signals
  imports Scheduler_Properties
begin

text \<open>
  The scheduler when signals and messages come at any moment: \<open>any_exec\<close> runs the handlers of SIGUSR1
  and SIGUSR2 in every state, also where \<open>signal_ok\<close> does not hold and \<open>sched_step\<close> has no step, and
  lets every message arrive. What then still holds is memory safety, with one exception: a handler
  that runs while no process does.
\<close>

section \<open>Events at any moment\<close>

text \<open>The number of PCBs stays below the bound of the queues' ints, and the clock in the range of an int.\<close>

fun any_exec :: "event \<Rightarrow> config \<Rightarrow> config option" where
  "any_exec Sigusr2 (At ph s) = (if ph \<noteq> Done then Some (outcome ph (handle_process_tick s)) else None)"
| "any_exec Sigusr1 (At ph s) = (if ph \<noteq> Done then Some (outcome ph (handle_process_termination s)) else None)"
| "any_exec (Send_pcb m) (At ph s) =
     (if int (pcb_brk s + length (msgs_pcb s)) < 1073741824
      then Some (At ph (s\<lparr>msgs_pcb := msgs_pcb s @ [m]\<rparr>)) else None)"
| "any_exec e c = exec e c"

primrec any_run :: "event list \<Rightarrow> config \<Rightarrow> config option" where
  "any_run [] c = Some c"
| "any_run (e # es) c = do { d \<leftarrow> any_exec e c; any_run es d }"

text \<open>
  An event as \<open>sched_step\<close> allows it: a signal comes where \<open>signal_ok\<close> holds, and a PCB is as
  \<open>fork_and_send\<close> makes it. Only SRTN asks more of a signal than that the process that runs sends it.
\<close>

definition in_order :: "event \<Rightarrow> config \<Rightarrow> bool" where
  "in_order e c = (case c of
     Crashed \<Rightarrow> True
   | At ph s \<Rightarrow> (case e of Sigusr1 \<Rightarrow> signal_ok s | Sigusr2 \<Rightarrow> signal_ok s | Send_pcb m \<Rightarrow> msg_ok m | _ \<Rightarrow> True))"

primrec orderly :: "event list \<Rightarrow> config \<Rightarrow> bool" where
  "orderly [] c = True"
| "orderly (e # es) c \<longleftrightarrow> in_order e c \<and> (case any_exec e c of None \<Rightarrow> True | Some d \<Rightarrow> orderly es d)"

lemma any_run_append: "any_run (xs @ ys) c = Option.bind (any_run xs c) (any_run ys)"
  by (induct xs arbitrary: c) (auto split: option.splits bind_splits)

lemma orderly_append:
  "orderly (xs @ ys) c \<longleftrightarrow> orderly xs c \<and> (case any_run xs c of None \<Rightarrow> True | Some d \<Rightarrow> orderly ys d)"
  by (induct xs arbitrary: c) (auto split: option.splits bind_splits)

lemma in_order_exec: "in_order e c \<Longrightarrow> any_exec e c = Some d \<Longrightarrow> exec e c = Some d"
  by (induct e c rule: any_exec.induct) (auto simp: in_order_def split: if_splits)

lemma orderly_exec: "orderly es c \<Longrightarrow> any_run es c = Some d \<Longrightarrow> exec_all es c = Some d"
  by (induct es arbitrary: c) (auto simp: bind_eq_Some_conv dest: in_order_exec)

lemma orderly_reachable: "any_run es c = Some d \<Longrightarrow> orderly es c \<Longrightarrow> reachable c d"
  using exec_all_reachable [OF orderly_exec reachable.start] by blast

section \<open>The queue, whatever its priorities\<close>

definition holds_ptrs :: "SchedulingAlgorithm \<Rightarrow> ptr IQueue \<Rightarrow> ptr list \<Rightarrow> bool" where
  "holds_ptrs alg q xs \<longleftrightarrow>
     (case q of CIRCULAR_QUEUE c \<Rightarrow> alg = RR \<and> cq_items c xs
      | PRIORITY_QUEUE c \<Rightarrow> alg \<noteq> RR \<and> xs = map item (pq_nodes c))"

lemma ptrs_init: "holds_ptrs alg (init_queue alg) []"
  by (cases alg) (simp_all add: holds_ptrs_def init_queue_def cq_items_init priority_queue_def)

lemma ptrs_empty: "holds_ptrs alg q xs \<Longrightarrow> is_empty q = (xs = [])"
  by (cases q) (auto simp: holds_ptrs_def cq_is_empty_def pq_is_empty_def pq_size_def dest: cq_items_length)

lemma ptrs_front: "holds_ptrs alg q xs \<Longrightarrow> front q = Some (if xs = [] then None else Some (hd xs))"
  by (cases q) (auto simp: holds_ptrs_def cq_front_items pq_front_def pq_is_empty_def pq_size_def hd_map hd_conv_nth)

lemma ptrs_enqueue:
  assumes q: "holds_ptrs alg q xs" and len: "length xs < queue_limit"
  shows "\<exists>q' xs'. enqueue q v p = Some q' \<and> holds_ptrs alg q' xs' \<and> mset xs' = add_mset v (mset xs)"
proof (cases q)
  case (CIRCULAR_QUEUE c)
  then have a: "alg = RR" "cq_pairs c (map (\<lambda>x. (x, 0)) xs)"
    using q by (auto simp: holds_ptrs_def cq_pairs_def comp_def)
  from cq_pairs_enq [OF a(2), of v] len obtain c' xs' where
    "cq_enqueue c v = Some c'" "cq_pairs c' xs'" "mset (map fst xs') = add_mset v (mset xs)"
    by (auto simp: comp_def)
  then show ?thesis using a(1) CIRCULAR_QUEUE
    by (intro exI [of _ "IQueue.CIRCULAR_QUEUE c'"] exI [of _ "map fst xs'"]) (simp add: holds_ptrs_def cq_pairs_def)
next
  case (PRIORITY_QUEUE c)
  have "mset (pq_nodes (pq_enqueue c v p)) = add_mset \<lparr>item = v, priority = wrap32 (- p)\<rparr> (mset (pq_nodes c))"
    by (simp add: pq_enqueue_def Let_def mset_sift_up)
  then have "mset (map item (pq_nodes (pq_enqueue c v p))) = add_mset v (mset (map item (pq_nodes c)))" by simp
  then show ?thesis using q PRIORITY_QUEUE by (auto simp: holds_ptrs_def)
qed

lemma ptrs_dequeue:
  assumes "holds_ptrs alg q xs"
  shows "\<exists>q' xs'. dequeue q b = Some (if xs = [] then None else Some (hd xs), q') \<and> holds_ptrs alg q' xs' \<and>
    set xs' \<subseteq> set xs \<and> length xs' \<le> length xs"
proof (cases q)
  case (CIRCULAR_QUEUE c)
  then have a: "alg = RR" "cq_items c xs" using assms by (auto simp: holds_ptrs_def)
  show ?thesis
  proof (cases xs)
    case Nil
    then show ?thesis using a CIRCULAR_QUEUE cq_items_NilE [of c] cq_dequeue_empty [of c] cq_remove_empty [of c]
      by (auto simp: holds_ptrs_def intro!: exI [of _ "IQueue.CIRCULAR_QUEUE c"])
  next
    case (Cons x ys)
    obtain c1 c2 where "cq_dequeue c = Some (Some x, c1)" "cq_items c1 (ys @ [x])"
      "cq_dequeue_and_remove c = Some (Some x, c2)" "cq_items c2 ys"
      using a(2) cq_dequeue_items cq_remove_items Cons by metis
    then show ?thesis using a(1) CIRCULAR_QUEUE Cons
      by (intro exI [of _ "IQueue.CIRCULAR_QUEUE (if b \<noteq> 0 then c2 else c1)"] exI [of _ "if b \<noteq> 0 then ys else ys @ [x]"])
        (auto simp: holds_ptrs_def)
  qed
next
  case (PRIORITY_QUEUE c)
  let ?ns = "pq_nodes c"
  have xs: "alg \<noteq> RR" "xs = map item ?ns" using assms PRIORITY_QUEUE by (auto simp: holds_ptrs_def)
  show ?thesis
  proof (cases "?ns = []")
    case True
    then show ?thesis using xs PRIORITY_QUEUE
      by (auto simp: holds_ptrs_def pq_dequeue_def pq_is_empty_def pq_size_def
          intro!: exI [of _ "IQueue.PRIORITY_QUEUE c"])
  next
    case False
    let ?us = "take (length ?ns - 1) (pq_swap ?ns 0 (length ?ns - 1))"
    let ?zs = "if ?us \<noteq> [] then pq_heapify ?us 0 else ?us"
    have "mset ?zs = mset ?us" using mset_pq_heapify [of 0 ?us] by simp
    then have "set ?zs = set ?us" "length ?zs = length ?us" by (auto dest: mset_eq_setD mset_eq_length)
    moreover have "mset (pq_swap ?ns 0 (length ?ns - 1)) = mset ?ns" using False by (intro mset_pq_swap) simp_all
    then have "set ?us \<subseteq> set ?ns" by (metis set_mset_mset set_take_subset)
    moreover have "pq_dequeue c = (Some (item (?ns ! 0)), c\<lparr>pq_nodes := ?zs\<rparr>)"
      using False by (simp add: pq_dequeue_def pq_is_empty_def pq_size_def Let_def)
    moreover have "hd xs = item (?ns ! 0)" using False xs(2) by (simp add: hd_map hd_conv_nth)
    ultimately show ?thesis using xs False PRIORITY_QUEUE
      by (intro exI [of _ "IQueue.PRIORITY_QUEUE (c\<lparr>pq_nodes := ?zs\<rparr>)"] exI [of _ "map item ?zs"])
        (auto simp: holds_ptrs_def)
  qed
qed

lemma ptrs_change:
  assumes "holds_ptrs alg q xs"
  shows "\<exists>xs'. holds_ptrs alg (change_priority q 0 p) xs' \<and> mset xs' = mset xs"
proof (cases q)
  case (CIRCULAR_QUEUE c)
  then show ?thesis using assms by auto
next
  case (PRIORITY_QUEUE c)
  let ?ns = "pq_nodes c"
  have xs: "alg \<noteq> RR" "xs = map item ?ns" using assms PRIORITY_QUEUE by (auto simp: holds_ptrs_def)
  show ?thesis
  proof (cases "?ns = []")
    case True
    then show ?thesis using xs PRIORITY_QUEUE by (auto simp: holds_ptrs_def pq_change_priority_def pq_size_def)
  next
    case False
    let ?us = "?ns[0 := (?ns ! 0)\<lparr>priority := wrap32 (- p)\<rparr>]"
    have "mset (pq_nodes (pq_change_priority c 0 p)) = mset ?us"
      using False mset_sift_up [of 0 ?us] mset_pq_heapify [of 0 ?us]
      by (simp add: pq_change_priority_def pq_size_def Let_def)
    then have "mset (map item (pq_nodes (pq_change_priority c 0 p))) = mset (map item ?us)" by simp
    also have "map item ?us = map item ?ns" using False by (cases ?ns) auto
    finally show ?thesis using xs PRIORITY_QUEUE by (auto simp: holds_ptrs_def)
  qed
qed

section \<open>The state, whatever its times\<close>

definition safe_state :: "sched \<Rightarrow> bool" where
  "safe_state s \<longleftrightarrow> (\<exists>xs. holds_ptrs (selected_algorithm s) (rdy_queue s) xs \<and> set xs \<subseteq> {0<..<pcb_brk s} \<and>
     length xs < pcb_brk s) \<and> dom (pcb_heap s) = {0<..<pcb_brk s} \<and>
     (\<forall>p c. pcb_heap s p = Some c \<longrightarrow> runtime (PDATA c) \<noteq> 0) \<and> current_pcb s < pcb_brk s \<and>
     pcb_brk s + length (msgs_pcb s) \<le> queue_limit"

text \<open>What others see of a step: PCBs keep their pid, messages are only taken out, and who runs.\<close>

definition keeps :: "sched \<Rightarrow> sched \<Rightarrow> bool" where
  "keeps s s' \<longleftrightarrow> clk s' = clk s \<and> selected_algorithm s' = selected_algorithm s \<and>
     pcb_brk s' + length (msgs_pcb s') \<le> pcb_brk s + length (msgs_pcb s) \<and>
     (\<forall>p c. pcb_heap s p = Some c \<longrightarrow> (\<exists>c'. pcb_heap s' p = Some c' \<and> pid c' = pid c))"

definition switches :: "sched \<Rightarrow> sched \<Rightarrow> bool" where
  "switches s s' \<longleftrightarrow>
     current_pcb s' = current_pcb s \<and> kills s' = kills s \<or>
     current_pcb s = NULL \<and> current_pcb s' \<noteq> NULL \<and>
       (\<exists>c. pcb_heap s' (current_pcb s') = Some c \<and> kills s' = kills s @ [(pid c, SIGCONT)]) \<or>
     current_pcb s \<noteq> NULL \<and> current_pcb s' = NULL \<and>
       (\<exists>c. pcb_heap s (current_pcb s) = Some c \<and> kills s' = kills s @ [(pid c, SIGSTOP)])"

definition goes_on :: "sched option \<Rightarrow> sched \<Rightarrow> bool" where
  "goes_on r s \<longleftrightarrow> (\<exists>s'. r = Some s' \<and> safe_state s' \<and> keeps s s' \<and> switches s s')"

lemma keeps_refl [simp]: "keeps s s"
  by (simp add: keeps_def)

lemma keeps_trans:
  assumes "keeps s t" "keeps t u"
  shows "keeps s u"
proof -
  have "\<exists>c'. pcb_heap u p = Some c' \<and> pid c' = pid c" if c: "pcb_heap s p = Some c" for p c
  proof -
    obtain c1 where c1: "pcb_heap t p = Some c1" "pid c1 = pid c" using assms(1) c unfolding keeps_def by blast
    obtain c2 where "pcb_heap u p = Some c2" "pid c2 = pid c1" using assms(2) c1(1) unfolding keeps_def by blast
    then show ?thesis using c1(2) by simp
  qed
  then show ?thesis using assms by (auto simp: keeps_def)
qed

lemma goes_on_refl [simp]: "goes_on (Some s) s = safe_state s"
  by (simp add: goes_on_def switches_def)

lemma safeI:
  "holds_ptrs (selected_algorithm s) (rdy_queue s) xs \<Longrightarrow> set xs \<subseteq> {0<..<pcb_brk s} \<Longrightarrow> length xs < pcb_brk s \<Longrightarrow>
   dom (pcb_heap s) = {0<..<pcb_brk s} \<Longrightarrow> \<forall>p c. pcb_heap s p = Some c \<longrightarrow> runtime (PDATA c) \<noteq> 0 \<Longrightarrow>
   current_pcb s < pcb_brk s \<Longrightarrow> pcb_brk s + length (msgs_pcb s) \<le> queue_limit \<Longrightarrow> safe_state s"
  by (auto simp: safe_state_def)

lemma safe_queued:
  assumes "safe_state s"
  obtains xs where "holds_ptrs (selected_algorithm s) (rdy_queue s) xs" "set xs \<subseteq> {0<..<pcb_brk s}"
    "length xs < pcb_brk s"
  using assms by (auto simp: safe_state_def)

lemma safe_get:
  assumes "safe_state s" "0 < p" "p < pcb_brk s"
  obtains c where "pcb_heap s p = Some c" "get_pcb s p = Some c" "runtime (PDATA c) \<noteq> 0"
proof -
  have "p \<in> dom (pcb_heap s)" using assms by (simp add: safe_state_def)
  then obtain c where "pcb_heap s p = Some c" by blast
  then show thesis using assms that by (auto simp: safe_state_def get_pcb_def)
qed

lemma safe_put:
  assumes safe: "safe_state s" and p: "pcb_heap s p = Some old" "PDATA c = PDATA old" "pid c = pid old"
  shows "safe_state (put_pcb s p c)" "keeps s (put_pcb s p c)"
proof -
  have "dom ((pcb_heap s)(p \<mapsto> c)) = dom (pcb_heap s)" using p(1) by auto
  moreover have "runtime (PDATA c) \<noteq> 0" using safe p(1,2) by (auto simp: safe_state_def)
  ultimately show "safe_state (put_pcb s p c)" using safe by (simp add: safe_state_def put_pcb_def)
  show "keeps s (put_pcb s p c)" using p(1,3) by (simp add: keeps_def put_pcb_def)
qed

lemma log_event_runs: "runtime (PDATA c) \<noteq> 0 \<Longrightarrow> state c \<noteq> None \<Longrightarrow> \<exists>f. log_event now c fs = Some f"
  by (cases "state c = Some ''finished''") (auto simp: log_event_def double_div_def Let_def)

text \<open>Updates of what memory safety does not depend on.\<close>

lemma safe_unseen [simp]:
  "safe_state (s\<lparr>files := f\<rparr>) = safe_state s" "safe_state (s\<lparr>kills := ks\<rparr>) = safe_state s"
  "safe_state (s\<lparr>log_start_time := t\<rparr>) = safe_state s" "safe_state (s\<lparr>last_remain_time := t\<rparr>) = safe_state s"
  "safe_state (s\<lparr>last_process_end_time := t\<rparr>) = safe_state s" "safe_state (s\<lparr>idle_time := t\<rparr>) = safe_state s"
  "safe_state (s\<lparr>execution_log := l\<rparr>) = safe_state s" "safe_state (s\<lparr>msgs_str := ms\<rparr>) = safe_state s"
  "safe_state (s\<lparr>no_more_processes := b\<rparr>) = safe_state s" "safe_state (s\<lparr>clk := t\<rparr>) = safe_state s"
  by (simp_all add: safe_state_def)

lemma safe_current: "safe_state s \<Longrightarrow> p < pcb_brk s \<Longrightarrow> safe_state (s\<lparr>current_pcb := p\<rparr>)"
  by (simp add: safe_state_def)

lemma safe_queue:
  "safe_state s \<Longrightarrow> holds_ptrs (selected_algorithm s) q ys \<Longrightarrow> set ys \<subseteq> {0<..<pcb_brk s} \<Longrightarrow>
   length ys < pcb_brk s \<Longrightarrow> safe_state (s\<lparr>rdy_queue := q\<rparr>)"
  by (auto simp: safe_state_def)

lemma safe_start: "safe_state (run_scheduler name q n now)"
  by (auto simp: safe_state_def run_scheduler_def Let_def ptrs_init intro!: exI [of _ "[]"])

section \<open>The functions, from any such state\<close>

lemma admit_safe:
  assumes safe: "safe_state s" and m: "runtime (PDATA m) \<noteq> 0" and b: "pcb_brk s + length (msgs_pcb s) < queue_limit"
  shows "\<exists>s'. admit m s = Some s' \<and> safe_state s' \<and> clk s' = clk s \<and> selected_algorithm s' = selected_algorithm s \<and>
    current_pcb s' = current_pcb s \<and> kills s' = kills s \<and> msgs_pcb s' = msgs_pcb s \<and> pcb_brk s' = Suc (pcb_brk s) \<and>
    (\<forall>p c. pcb_heap s p = Some c \<longrightarrow> pcb_heap s' p = Some c)"
proof -
  let ?b = "pcb_brk s" and ?H = "pcb_heap s"
  obtain xs where xs: "holds_ptrs (selected_algorithm s) (rdy_queue s) xs" "set xs \<subseteq> {0<..<?b}" "length xs < ?b"
    by (rule safe_queued [OF safe])
  have D: "dom ?H = {0<..<?b}" "0 < ?b" using safe by (simp_all add: safe_state_def)
  have "length xs < queue_limit" using xs(3) b by simp
  from ptrs_enqueue [OF xs(1) this, of ?b "queue_priority (selected_algorithm s) m"] obtain q ys where
    q: "enqueue (rdy_queue s) ?b (queue_priority (selected_algorithm s) m) = Some q"
    "holds_ptrs (selected_algorithm s) q ys" "mset ys = add_mset ?b (mset xs)" by blast
  have "set ys = insert ?b (set xs)" using mset_eq_setD [of ys "?b # xs"] q(3) by simp
  then have "set ys \<subseteq> {0<..<Suc ?b}" using xs(2) D(2) by auto
  moreover have "length ys = Suc (length xs)" using mset_eq_length [of ys "?b # xs"] q(3) by simp
  moreover have "dom (?H(?b \<mapsto> m)) = {0<..<Suc ?b}" using D by auto
  moreover have "current_pcb s < Suc ?b" "\<forall>p c. (?H(?b \<mapsto> m)) p = Some c \<longrightarrow> runtime (PDATA c) \<noteq> 0"
    using safe m by (auto simp: safe_state_def)
  ultimately have "safe_state (s\<lparr>pcb_heap := ?H(?b \<mapsto> m), pcb_brk := Suc ?b, rdy_queue := q\<rparr>)"
    using b q(2) xs(3) by (intro safeI [of _ ys]) (simp_all del: dom_fun_upd fun_upd_apply)
  moreover have "?H ?b = None" using D by auto
  ultimately show ?thesis using q(1) by (auto simp: admit_def Let_def)
qed

text \<open>The receiving loop works on its own copy of the messages.\<close>

lemma receive_all_msgs: "receive_all ms s = Some s' \<Longrightarrow> receive_all ms (s\<lparr>msgs_pcb := z\<rparr>) = Some s'"
proof (induct ms arbitrary: s)
  case Nil
  then show ?case by simp
next
  case (Cons m ms)
  have "admit m (s\<lparr>msgs_pcb := z\<rparr>) = map_option (\<lambda>t. t\<lparr>msgs_pcb := z\<rparr>) (admit m s)"
    by (auto simp: admit_def Let_def map_option_bind split: option.splits bind_splits)
  then show ?case using Cons by (auto simp: bind_eq_Some_conv split: if_splits)
qed

lemma receive_safe:
  "safe_state s \<Longrightarrow> length ms \<le> length (msgs_pcb s) \<Longrightarrow>
   \<exists>s'. receive_all ms s = Some s' \<and> safe_state s' \<and> clk s' = clk s \<and> selected_algorithm s' = selected_algorithm s \<and>
     current_pcb s' = current_pcb s \<and> kills s' = kills s \<and>
     pcb_brk s' + length (msgs_pcb s') \<le> pcb_brk s + length ms \<and>
     (\<forall>p c. pcb_heap s p = Some c \<longrightarrow> pcb_heap s' p = Some c)"
proof (induct ms arbitrary: s)
  case Nil
  then have "safe_state (s\<lparr>msgs_pcb := []\<rparr>)" by (auto simp: safe_state_def)
  then show ?case by simp
next
  case (Cons m ms)
  show ?case
  proof (cases "valid_pcb m")
    case False
    have "safe_state (s\<lparr>msgs_pcb := ms\<rparr>)" using Cons.prems by (auto simp: safe_state_def)
    then show ?thesis using False by simp
  next
    case True
    have m: "runtime (PDATA m) \<noteq> 0" using True by (simp add: valid_pcb_def)
    let ?u = "s\<lparr>msgs_pcb := ms\<rparr>"
    have u: "safe_state ?u" "pcb_brk ?u + length (msgs_pcb ?u) < queue_limit"
      using Cons.prems by (auto simp: safe_state_def)
    from admit_safe [OF u(1) m u(2)] obtain t where t: "admit m ?u = Some t" "safe_state t" "clk t = clk s"
      "selected_algorithm t = selected_algorithm s" "current_pcb t = current_pcb s" "kills t = kills s"
      "msgs_pcb t = ms" "pcb_brk t = Suc (pcb_brk s)" "\<forall>p c. pcb_heap s p = Some c \<longrightarrow> pcb_heap t p = Some c"
      by auto
    from Cons.hyps [OF t(2)] t(7) obtain s' where s': "receive_all ms t = Some s'" "safe_state s'" "clk s' = clk t"
      "selected_algorithm s' = selected_algorithm t" "current_pcb s' = current_pcb t" "kills s' = kills t"
      "pcb_brk s' + length (msgs_pcb s') \<le> pcb_brk t + length ms"
      "\<forall>p c. pcb_heap t p = Some c \<longrightarrow> pcb_heap s' p = Some c" by auto
    have "admit m s = Some (t\<lparr>msgs_pcb := msgs_pcb s\<rparr>)"
      using t(1) by (auto simp: admit_def Let_def bind_eq_Some_conv)
    moreover have "receive_all ms (t\<lparr>msgs_pcb := z\<rparr>) = Some s'" for z
      using receive_all_msgs [OF s'(1)] .
    ultimately show ?thesis using True s' t by auto
  qed
qed

lemma check_for_new_safe:
  assumes "safe_state s"
  shows "goes_on (check_for_new_processes s) s"
proof -
  obtain s' where s': "receive_all (msgs_pcb s) s = Some s'" "safe_state s'" "clk s' = clk s"
    "selected_algorithm s' = selected_algorithm s" "current_pcb s' = current_pcb s" "kills s' = kills s"
    "pcb_brk s' + length (msgs_pcb s') \<le> pcb_brk s + length (msgs_pcb s)"
    "\<forall>p c. pcb_heap s p = Some c \<longrightarrow> pcb_heap s' p = Some c"
    using receive_safe [OF assms, of "msgs_pcb s"] by auto
  then show ?thesis by (auto simp: goes_on_def check_for_new_processes_def keeps_def switches_def)
qed

lemma schedule_next_safe:
  assumes safe: "safe_state s" and null: "current_pcb s = NULL"
  shows "goes_on (schedule_next_process s) s"
proof -
  let ?alg = "selected_algorithm s"
  obtain xs where xs: "holds_ptrs ?alg (rdy_queue s) xs" "set xs \<subseteq> {0<..<pcb_brk s}" "length xs < pcb_brk s"
    by (rule safe_queued [OF safe])
  show ?thesis
  proof (cases "xs = []")
    case True
    then show ?thesis using ptrs_empty [OF xs(1)] safe by (simp add: schedule_next_process_def)
  next
    case False
    let ?p = "hd xs"
    have p: "0 < ?p" "?p < pcb_brk s" using False xs(2) by (cases xs; auto)+
    obtain c where c: "pcb_heap s ?p = Some c" "runtime (PDATA c) \<noteq> 0" by (rule safe_get [OF safe p])
    obtain q ys where q: "dequeue (rdy_queue s) 1 = Some (Some ?p, q)" "holds_ptrs ?alg q ys"
      "set ys \<subseteq> set xs" "length ys \<le> length xs" using ptrs_dequeue [OF xs(1), of 1] False by auto
    define q' where "q' = (if ?alg = HPF then q else rdy_queue s)"
    define c' where "c' = dispatched (clk s) c"
    have "safe_state (s\<lparr>rdy_queue := q\<rparr>)" using q xs by (intro safe_queue [OF safe q(2)]) auto
    then have "safe_state (s\<lparr>rdy_queue := q'\<rparr>)" using safe by (simp add: q'_def)
    then have "safe_state (s\<lparr>rdy_queue := q', current_pcb := ?p\<rparr>)" using safe_current [of "s\<lparr>rdy_queue := q'\<rparr>"] p by simp
    then have "safe_state (put_pcb (s\<lparr>rdy_queue := q', current_pcb := ?p\<rparr>) ?p c')"
      by (rule safe_put(1)) (use c in \<open>simp_all add: c'_def\<close>)
    moreover obtain f where f: "log_event (clk s) c' (files s) = Some f"
      using log_event_runs [of c'] c(2) by (auto simp: c'_def)
    let ?s' = "s\<lparr>current_pcb := ?p, rdy_queue := q', pcb_heap := (pcb_heap s)(?p \<mapsto> c'),
      kills := kills s @ [(pid c, SIGCONT)], last_remain_time := remaining_time c, log_start_time := clk s, files := f\<rparr>"
    have "put_pcb (s\<lparr>rdy_queue := q', current_pcb := ?p\<rparr>) ?p c' =
        s\<lparr>current_pcb := ?p, rdy_queue := q', pcb_heap := (pcb_heap s)(?p \<mapsto> c')\<rparr>" by (simp add: put_pcb_def)
    ultimately have "safe_state (s\<lparr>current_pcb := ?p, rdy_queue := q', pcb_heap := (pcb_heap s)(?p \<mapsto> c')\<rparr>)" by simp
    then have "safe_state ?s'" by (simp add: safe_state_def)
    moreover have "schedule_next_process s = Some ?s'"
    proof -
      have ne: "\<not> is_empty (rdy_queue s)" "front (rdy_queue s) = Some (Some ?p)"
        using ptrs_empty [OF xs(1)] ptrs_front [OF xs(1)] False by simp_all
      note run = schedule_next_process_def ne q(1) c get_pcb_def put_pcb_def kill_pcb_def log_pcb_def
        ptr_of_def Let_def dispatched_def [symmetric] c'_def [symmetric] f q'_def
      have d: "remaining_time c' = remaining_time c" "pid c' = pid c" by (simp_all add: c'_def)
      show ?thesis using p(1) by (cases "?alg = HPF") (simp_all add: run d)
    qed
    moreover have "keeps s ?s'" "switches s ?s'" using c null p by (auto simp: keeps_def switches_def c'_def)
    ultimately show ?thesis by (auto simp: goes_on_def)
  qed
qed

lemma dispatch_safe:
  assumes "safe_state s"
  shows "goes_on (dispatch s) s"
proof (cases "current_pcb s = NULL")
  case True
  let ?i = "if clk s > last_process_end_time s \<and> \<not> is_empty (rdy_queue s) then
      log_execution (Idle (last_process_end_time s) (clk s))
        (s\<lparr>idle_time := wrap32 (idle_time s + wrap32 (clk s - last_process_end_time s))\<rparr>) else s"
  have "safe_state ?i" "current_pcb ?i = NULL" using assms True by (simp_all add: log_execution_def)
  from schedule_next_safe [OF this] have "goes_on (schedule_next_process ?i) s"
    using True by (auto simp: goes_on_def keeps_def switches_def log_execution_def split: if_splits)
  then show ?thesis using True by (simp add: dispatch_def)
next
  case False
  then show ?thesis using assms by (simp add: dispatch_def)
qed

lemma expiration_safe:
  assumes safe: "safe_state s" and cur: "current_pcb s \<noteq> NULL"
  shows "goes_on (handle_quantum_expiration s) s"
proof -
  let ?p = "current_pcb s" and ?alg = "selected_algorithm s"
  obtain xs where xs: "holds_ptrs ?alg (rdy_queue s) xs" "set xs \<subseteq> {0<..<pcb_brk s}" "length xs < pcb_brk s"
    by (rule safe_queued [OF safe])
  have p: "0 < ?p" "?p < pcb_brk s" using cur safe by (simp_all add: safe_state_def)
  obtain c where c: "pcb_heap s ?p = Some c" "get_pcb s ?p = Some c" "runtime (PDATA c) \<noteq> 0" by (rule safe_get [OF safe p])
  define c' where "c' = c\<lparr>state := Some ''stopped''\<rparr>"
  obtain f where f: "log_event (clk s) c' (files s) = Some f" using log_event_runs [of c'] c(3) by (auto simp: c'_def)
  obtain r q ys where q: "dequeue (rdy_queue s) 0 = Some (r, q)" "holds_ptrs ?alg q ys"
    "set ys \<subseteq> set xs" "length ys \<le> length xs" using ptrs_dequeue [OF xs(1), of 0] by blast
  define q' where "q' = (if ?alg = RR then q else rdy_queue s)"
  let ?l = "execution_log s @ [Runs (proc_id (PDATA c)) (runtime (PDATA c)) (log_start_time s) (clk s) (remaining_time c)]"
  let ?s' = "s\<lparr>pcb_heap := (pcb_heap s)(?p \<mapsto> c'), current_pcb := NULL, rdy_queue := q', execution_log := ?l,
    last_process_end_time := clk s, kills := kills s @ [(pid c, SIGSTOP)], files := f, log_start_time := 0\<rparr>"
  have "safe_state (put_pcb s ?p c')" by (rule safe_put(1) [OF safe c(1)]) (simp_all add: c'_def)
  then have "safe_state (s\<lparr>pcb_heap := (pcb_heap s)(?p \<mapsto> c'), current_pcb := NULL\<rparr>)"
    using safe_current [of "put_pcb s ?p c'" NULL] p by (simp add: put_pcb_def)
  from safe_queue [OF this, of q ys] this have
    "safe_state (s\<lparr>pcb_heap := (pcb_heap s)(?p \<mapsto> c'), current_pcb := NULL, rdy_queue := q'\<rparr>)"
    using q(2-4) xs(2,3) by (auto simp: q'_def)
  then have "safe_state ?s'" by (simp add: safe_state_def)
  moreover have "handle_quantum_expiration s = Some ?s'"
    using cur c(2) f q(1) by (simp add: handle_quantum_expiration_def Let_def log_execution_def kill_pcb_def put_pcb_def
        log_pcb_def c'_def [symmetric] q'_def)
  moreover have "keeps s ?s'" "switches s ?s'" using c(1) cur by (auto simp: keeps_def switches_def c'_def)
  ultimately show ?thesis by (auto simp: goes_on_def)
qed

lemma current_safe:
  assumes safe: "safe_state s"
  shows "goes_on (handle_current_running_process s) s"
proof (cases "selected_algorithm s")
  case HPF
  then show ?thesis using safe schedule_next_safe by (auto simp: handle_current_running_process_def)
next
  case RR
  show ?thesis
  proof (cases "current_pcb s = NULL")
    case True
    then show ?thesis using RR safe by (simp add: handle_current_running_process_def)
  next
    case False
    let ?p = "current_pcb s" and ?r = "wrap32 (last_remain_time s - quantum s)"
    have p: "0 < ?p" "?p < pcb_brk s" using False safe by (simp_all add: safe_state_def)
    obtain c where c: "pcb_heap s ?p = Some c" "get_pcb s ?p = Some c" by (rule safe_get [OF safe p])
    let ?t = "put_pcb s ?p (c\<lparr>remaining_time := ?r\<rparr>)"
    have t: "safe_state ?t" "keeps s ?t" "current_pcb ?t = ?p" "kills ?t = kills s"
      using safe_put [OF safe c(1), of "c\<lparr>remaining_time := ?r\<rparr>"] by (simp_all add: put_pcb_def)
    have "goes_on (handle_quantum_expiration ?t) s"
    proof -
      obtain s' where s': "handle_quantum_expiration ?t = Some s'" "safe_state s'" "keeps ?t s'" "switches ?t s'"
        using expiration_safe [OF t(1)] t(3) False by (auto simp: goes_on_def)
      moreover have "switches s s'" using s'(4) c(1) False by (auto simp: switches_def put_pcb_def)
      ultimately show ?thesis using keeps_trans [OF t(2)] by (auto simp: goes_on_def)
    qed
    then show ?thesis using RR False c(2) safe by (simp add: handle_current_running_process_def Let_def)
  qed
next
  case SRTN
  obtain xs where xs: "holds_ptrs SRTN (rdy_queue s) xs" "set xs \<subseteq> {0<..<pcb_brk s}"
    using safe_queued [OF safe] SRTN by metis
  show ?thesis
  proof (cases "xs = []")
    case True
    then show ?thesis using SRTN safe ptrs_front [OF xs(1)] by (simp add: handle_current_running_process_def ptr_of_def)
  next
    case False
    have n: "0 < hd xs" "hd xs < pcb_brk s" using False xs(2) by (cases xs; auto)+
    obtain d where "get_pcb s (hd xs) = Some d" by (rule safe_get [OF safe n])
    moreover have "\<exists>c. get_pcb s (current_pcb s) = Some c" if "current_pcb s \<noteq> NULL"
    proof -
      have "0 < current_pcb s" "current_pcb s < pcb_brk s" using that safe by (simp_all add: safe_state_def)
      then obtain c where "get_pcb s (current_pcb s) = Some c" by (rule safe_get [OF safe])
      then show ?thesis by blast
    qed
    ultimately show ?thesis using SRTN safe ptrs_front [OF xs(1)] False n expiration_safe [OF safe]
      by (auto simp: handle_current_running_process_def ptr_of_def)
  qed
qed

lemma no_more_safe: "safe_state s \<Longrightarrow> goes_on (Some (check_no_more_processes s)) s"
  by (auto simp: goes_on_def check_no_more_processes_def Let_def keeps_def switches_def split: list.splits)

text \<open>The handlers, with a process running.\<close>

lemma tick_safe:
  assumes safe: "safe_state s" and cur: "current_pcb s \<noteq> NULL"
  shows "\<exists>s'. handle_process_tick s = Some s' \<and> safe_state s' \<and> keeps s s' \<and> current_pcb s' = current_pcb s \<and> kills s' = kills s"
proof -
  let ?p = "current_pcb s" and ?alg = "selected_algorithm s"
  have p: "0 < ?p" "?p < pcb_brk s" using cur safe by (simp_all add: safe_state_def)
  obtain c where c: "pcb_heap s ?p = Some c" "get_pcb s ?p = Some c" by (rule safe_get [OF safe p])
  let ?c = "c\<lparr>remaining_time := wrap32 (remaining_time c - 1)\<rparr>"
  note put = safe_put [OF safe c(1), of ?c]
  obtain xs where xs: "holds_ptrs ?alg (rdy_queue s) xs" "set xs \<subseteq> {0<..<pcb_brk s}" "length xs < pcb_brk s"
    by (rule safe_queued [OF safe])
  obtain ys where ys: "holds_ptrs ?alg (change_priority (rdy_queue s) 0 (remaining_time ?c)) ys" "mset ys = mset xs"
    using ptrs_change [OF xs(1)] by blast
  then have "set ys = set xs" "length ys = length xs" by (auto dest: mset_eq_setD mset_eq_length)
  then have "safe_state ((put_pcb s ?p ?c)\<lparr>rdy_queue := change_priority (rdy_queue s) 0 (remaining_time ?c)\<rparr>)"
    using put(1) ys(1) xs(2,3) by (intro safe_queue [of _ _ ys]) (simp_all add: put_pcb_def)
  moreover have "handle_process_tick s = Some (if ?alg = SRTN
      then (put_pcb s ?p ?c)\<lparr>rdy_queue := change_priority (rdy_queue s) 0 (remaining_time ?c)\<rparr> else put_pcb s ?p ?c)"
    using c(2) by (simp add: handle_process_tick_def Let_def put_pcb_def)
  ultimately show ?thesis using put by (auto simp: put_pcb_def keeps_def)
qed

lemma termination_safe:
  assumes safe: "safe_state s" and cur: "current_pcb s \<noteq> NULL"
  shows "\<exists>s'. handle_process_termination s = Some s' \<and> safe_state s' \<and> keeps s s' \<and> current_pcb s' = NULL \<and> kills s' = kills s"
proof -
  let ?p = "current_pcb s" and ?alg = "selected_algorithm s"
  obtain xs where xs: "holds_ptrs ?alg (rdy_queue s) xs" "set xs \<subseteq> {0<..<pcb_brk s}" "length xs < pcb_brk s"
    by (rule safe_queued [OF safe])
  have p: "0 < ?p" "?p < pcb_brk s" using cur safe by (simp_all add: safe_state_def)
  obtain c where c: "pcb_heap s ?p = Some c" "get_pcb s ?p = Some c" "runtime (PDATA c) \<noteq> 0" by (rule safe_get [OF safe p])
  define c' where "c' = c\<lparr>remaining_time := wrap32 (remaining_time c - 1), state := Some ''finished''\<rparr>"
  obtain f where f: "log_event (clk s) c' (files s) = Some f" using log_event_runs [of c'] c(3) by (auto simp: c'_def)
  obtain r q ys where q: "(if ?alg \<noteq> HPF then dequeue (rdy_queue s) 1 else Some (None, rdy_queue s)) = Some (r, q)"
    "holds_ptrs ?alg q ys" "set ys \<subseteq> {0<..<pcb_brk s}" "length ys < pcb_brk s"
    using ptrs_dequeue [OF xs(1), of 1] xs by (cases "?alg = HPF") fastforce+
  have front: "\<exists>y np. front q = Some y \<and> (\<not> is_empty q \<longrightarrow>
      (\<forall>s'. pcb_heap s' = pcb_heap s \<longrightarrow> get_pcb s' (ptr_of y) = Some np))"
  proof (cases ys)
    case Nil
    then show ?thesis using ptrs_empty [OF q(2)] ptrs_front [OF q(2)] by simp
  next
    case (Cons z zs)
    then have z: "0 < z" "z < pcb_brk s" using q(3) by auto
    obtain np where "pcb_heap s z = Some np" by (rule safe_get [OF safe z])
    then show ?thesis using ptrs_front [OF q(2)] Cons z(1) by (auto simp: get_pcb_def ptr_of_def)
  qed
  then obtain y np where y: "front q = Some y"
    "\<And>s'. \<not> is_empty q \<Longrightarrow> pcb_heap s' = pcb_heap s \<Longrightarrow> get_pcb s' (ptr_of y) = Some np" by blast
  let ?s' = "s\<lparr>pcb_heap := (pcb_heap s)(?p \<mapsto> c'), current_pcb := NULL, rdy_queue := q, execution_log := execution_log s @
      [Finishes (proc_id (PDATA c)) (runtime (PDATA c)) (log_start_time s) (clk s)],
    last_process_end_time := clk s, files := f, last_remain_time := 0, log_start_time := 0\<rparr>"
  have "safe_state (put_pcb s ?p c')" by (rule safe_put(1) [OF safe c(1)]) (simp_all add: c'_def)
  then have "safe_state (s\<lparr>pcb_heap := (pcb_heap s)(?p \<mapsto> c'), current_pcb := NULL\<rparr>)"
    using safe_current [of "put_pcb s ?p c'" NULL] p by (simp add: put_pcb_def)
  from safe_queue [OF this, of q ys] have
    "safe_state (s\<lparr>pcb_heap := (pcb_heap s)(?p \<mapsto> c'), current_pcb := NULL, rdy_queue := q\<rparr>)"
    using q(2-4) by simp
  then have "safe_state ?s'" by (simp add: safe_state_def)
  moreover have "handle_process_termination s = Some ?s'"
  proof -
    have g: "get_pcb s' ?p = Some c" if "pcb_heap s' = pcb_heap s" for s'
      using that c(1) cur by (simp add: get_pcb_def)
    note run = handle_process_termination_def g y c'_def [symmetric] f log_execution_def put_pcb_def log_pcb_def Let_def
    show ?thesis using q(1) by (cases "?alg = HPF"; cases "is_empty q") (simp_all add: run)
  qed
  moreover have "keeps s ?s'" using c(1) by (auto simp: keeps_def c'_def)
  ultimately show ?thesis by auto
qed

section \<open>Runs\<close>

lemma any_exec_safe:
  assumes run: "any_exec e (At ph s) = Some d" and safe: "safe_state s"
  shows "if (e = Sigusr1 \<or> e = Sigusr2) \<and> current_pcb s = NULL then d = Crashed else holds safe_state d"
proof -
  have out: "holds safe_state (outcome ph' r)" if "goes_on r s" for ph' r
    using that by (auto simp: goes_on_def outcome_def)
  show ?thesis
  proof (cases e)
    case Loop
    then show ?thesis
      using run safe out check_for_new_safe [OF safe] dispatch_safe [OF safe] current_safe [OF safe] no_more_safe [OF safe]
      by (cases ph) (auto simp: goes_on_def split: if_splits)
  next
    case Sigusr2
    then show ?thesis using run tick_safe [OF safe]
      by (auto simp: handle_process_tick_def get_pcb_def outcome_def split: if_splits option.splits)
  next
    case Sigusr1
    then show ?thesis using run termination_safe [OF safe]
      by (auto simp: handle_process_termination_def get_pcb_def outcome_def split: if_splits option.splits)
  next
    case (Send_pcb m)
    then show ?thesis using run safe by (auto simp: safe_state_def split: if_splits)
  qed (use run safe in \<open>auto split: if_splits\<close>)
qed

lemma any_run_safe: "any_run es c = Some (At ph s) \<Longrightarrow> holds safe_state c \<Longrightarrow> safe_state s"
proof (induct es arbitrary: c)
  case (Cons e es)
  then obtain d where d: "any_exec e c = Some d" "any_run es d = Some (At ph s)" by (auto simp: bind_eq_Some_conv)
  obtain ph1 s1 where c: "c = At ph1 s1" "safe_state s1" using Cons.prems(2) by (cases c) auto
  have "d \<noteq> Crashed"
  proof
    assume "d = Crashed"
    then show False using d(2) by (cases es) (auto simp: bind_eq_Some_conv)
  qed
  then have "holds safe_state d" using any_exec_safe [OF d(1) [unfolded c(1)] c(2)] by (auto split: if_splits)
  then show ?case using Cons.hyps d(2) by blast
qed simp

lemma any_exec_exec: "exec e c = Some d \<Longrightarrow> any_exec e c = Some d"
  by (induct e c rule: any_exec.induct) (auto split: if_splits)

lemma any_run_exec: "exec_all es c = Some d \<Longrightarrow> any_run es c = Some d"
  by (induct es arbitrary: c) (auto simp: bind_eq_Some_conv dest: any_exec_exec)

lemma exec_all_orderly: "exec_all es c = Some d \<Longrightarrow> orderly es c"
proof (induct es arbitrary: c)
  case (Cons e es)
  then obtain c1 where c1: "exec e c = Some c1" "exec_all es c1 = Some d" by (auto simp: bind_eq_Some_conv)
  have "in_order e c" using c1(1) by (cases e; cases c) (auto simp: in_order_def split: if_splits)
  then show ?case using Cons.hyps [OF c1(2)] any_exec_exec [OF c1(1)] by simp
qed simp

lemma demo_run:
  assumes "phase_of (demo_at k) = Some ph"
  shows "any_run (take k demo_events) demo_start = Some (At ph (demo_state k))" "orderly (take k demo_events) demo_start"
proof -
  have "exec_all (take k demo_events) demo_start = Some (At ph (demo_state k))"
    using assms demo_at_state [OF assms] by (auto simp: demo_at_def split: option.splits)
  then show "any_run (take k demo_events) demo_start = Some (At ph (demo_state k))"
    "orderly (take k demo_events) demo_start" using any_run_exec exec_all_orderly by blast+
qed

section \<open>Properties\<close>

text \<open>
  C1: exactly which undefined operations (a NULL or dangling PCB pointer, an unset state string, a
  division by 0) the scheduler can reach. After any run, in which any messages have arrived, valid or
  not, and the handlers of SIGUSR1 and SIGUSR2 have run at any moments between the functions and any
  number of times, the next step is undefined if and only if it is one of these handlers and no process
  is running: it then reads \<open>current_pcb\<close> through NULL.
\<close>

theorem scheduler_never_crashes:
  assumes "any_run es (started name q n now) = Some (At ph s)"
  shows "any_exec e (At ph s) = Some Crashed \<longleftrightarrow>
    (e = Sigusr1 \<or> e = Sigusr2) \<and> ph \<noteq> Done \<and> current_pcb s = NULL"
proof -
  have safe: "safe_state s" using any_run_safe [OF assms] safe_start by simp
  have "any_exec e (At ph s) = Some Crashed \<Longrightarrow> (e = Sigusr1 \<or> e = Sigusr2) \<and> ph \<noteq> Done \<and> current_pcb s = NULL"
    using any_exec_safe [OF _ safe, of e ph Crashed] by (cases "ph = Done") (auto split: if_splits)
  then show ?thesis
    by (auto simp: handle_process_tick_def handle_process_termination_def get_pcb_def outcome_def)
qed

theorem scheduler_never_crashes_witness:
  "any_exec Sigusr2 (At Running (demo_state 14)) \<noteq> Some Crashed \<and>
   any_exec Sigusr2 (At Dispatch (demo_state 18)) = Some Crashed"
proof -
  have v: "phase_of (demo_at 18) = Some Dispatch" "current_pcb (demo_state 18) = 0" "current_pcb (demo_state 14) = 1"
    by code_simp+
  note run = demo_run(1) [unfolded demo_start_def]
  show ?thesis
    using scheduler_never_crashes [OF run [OF demo_phases(3)]] scheduler_never_crashes [OF run [OF v(1)]] v by (simp del: any_exec.simps)
qed

text \<open>
  C10: \<open>schedule_next_process\<close>, called with nothing running and some process unfinished, starts one
  whose queueing priority (the file's priority under HPF, the remaining time under SRTN) is the least
  of all unfinished processes, sends it SIGCONT and records the clock and its remaining time. This
  holds after every orderly run, in which, under SRTN, no signal was handled while another process than
  the running one was the front of the queue; \<open>srtn_signal_race\<close> shows that the code does worse otherwise.
\<close>

theorem schedules_least_priority:
  assumes "any_run es (started name q n now) = Some (At ph s)" "orderly es (started name q n now)"
    "slice_ok name q" "in_int q" "current_pcb s = NULL"
    "pcb_heap s p = Some pcb" "state pcb \<noteq> Some ''finished''"
  shows "\<exists>s' c. schedule_next_process s = Some s' \<and> current_pcb s' \<noteq> NULL \<and>
    pcb_heap s (current_pcb s') = Some c \<and>
    queue_priority (selected_algorithm s) c \<le> queue_priority (selected_algorithm s) pcb \<and>
    kills s' = kills s @ [(pid c, SIGCONT)] \<and> log_start_time s' = clk s \<and>
    last_remain_time s' = remaining_time c"
proof -
  obtain xs where core: "sched_core s xs" using inv_core [OF reachable_sched_inv [OF orderly_reachable [OF assms(1,2)] assms(3,4)]] by blast
  have "pcbs_ok (pcb_heap s) (pcb_brk s)" using core by (simp add: sched_core_def)
  note nn = pcbs_ok_get(2) [OF this]
  have p: "p \<in> fst ` set xs"
    using unfinished_live [OF core assms(6,7)] nn [OF assms(6)] assms(5) by auto
  then obtain x ys where xs: "xs = x # ys" by (cases xs) auto
  obtain c where c: "pcb_heap s (fst x) = Some c"
    "queue_priority (selected_algorithm s) c \<le> queue_priority (selected_algorithm s) pcb"
    using first_entry_min [OF core [unfolded xs] p [unfolded xs] assms(6)] by blast
  then show ?thesis using schedule_next_Cons [OF core [unfolded xs] assms(5)] nn [OF c(1)] by auto
qed

theorem schedules_least_priority_witness:
  "\<exists>s' c. schedule_next_process (demo_state 18) = Some s' \<and> pcb_heap (demo_state 18) (current_pcb s') = Some c \<and>
     kills s' = kills (demo_state 18) @ [(pid c, SIGCONT)]"
proof -
  have ph: "phase_of (demo_at 18) = Some Dispatch" "current_pcb (demo_state 18) = 0"
    "map_option state (pcb_heap (demo_state 18) 2) = Some None" by code_simp+
  then obtain pcb where "pcb_heap (demo_state 18) 2 = Some pcb" "state pcb \<noteq> Some ''finished''" by auto
  then show ?thesis
    using schedules_least_priority [OF demo_run [OF ph(1), unfolded demo_start_def], of 2 pcb] ph(2)
    by (auto simp: in_int_def)
qed

text \<open>
  C12: under SRTN, after \<open>handle_current_running_process\<close> either nothing runs or the running process has
  the least remaining time of all unfinished processes, provided that the run was orderly: every signal
  was handled while the running process was the front of the queue. In the run of \<open>srtn_signal_race\<close>, in
  which one was not, a process with four units left is started while another has two.
\<close>

theorem srtn_runs_shortest:
  assumes "any_run es (started name q n now) = Some (At ph s)" "orderly es (started name q n now)"
    "slice_ok name q" "in_int q" "selected_algorithm s = SRTN"
    "handle_current_running_process s = Some s'" "current_pcb s' \<noteq> NULL"
    "pcb_heap s' p = Some pcb" "state pcb \<noteq> Some ''finished''"
  shows "\<exists>c. pcb_heap s' (current_pcb s') = Some c \<and> remaining_time c \<le> remaining_time pcb"
proof -
  obtain xs where core: "sched_core s xs" using inv_core [OF reachable_sched_inv [OF orderly_reachable [OF assms(1,2)] assms(3,4)]] by blast
  have "current_pcb s \<noteq> NULL"
    using assms(5-7) by (auto simp: handle_current_running_process_def Let_def bind_eq_Some_conv split: if_splits)
  from handle_current_srtn [OF core assms(5) this assms(6)] assms(7) obtain x ys where
    s': "s' = s" and xs: "xs = x # ys" "fst x = current_pcb s" by (cases xs) auto
  have "p \<in> fst ` set (x # ys)"
    using unfinished_live [OF core _ assms(9), of p] assms(8) s' xs by force
  from first_entry_min [OF core [unfolded xs] this] assms(5,8) s' xs(2) show ?thesis
    by (simp add: queue_priority_def)
qed

text \<open>A run under SRTN: process 1, with three time units, is scheduled at time 1.\<close>

definition srtn_state :: sched where
  "srtn_state =
     (case exec_all [Send_pcb (demo_pcb 1 0 3 0), Clock, Loop, Loop, Loop] (started ''srtn'' 1 2 0) of
        Some (At ph s) \<Rightarrow> s | _ \<Rightarrow> run_scheduler ''srtn'' 1 2 0)"

lemma srtn_phase:
  "map_option phase_of (exec_all [Send_pcb (demo_pcb 1 0 3 0), Clock, Loop, Loop, Loop] (started ''srtn'' 1 2 0)) =
   Some (Some Running)"
  by code_simp

lemma srtn_run:
  "exec_all [Send_pcb (demo_pcb 1 0 3 0), Clock, Loop, Loop, Loop] (started ''srtn'' 1 2 0) = Some (At Running srtn_state)"
proof -
  obtain c where c: "exec_all [Send_pcb (demo_pcb 1 0 3 0), Clock, Loop, Loop, Loop] (started ''srtn'' 1 2 0) = Some c"
    "phase_of c = Some Running" using srtn_phase by auto
  then obtain s where "c = At Running s" by (cases c) auto
  then show ?thesis using c(1) by (simp add: srtn_state_def)
qed

theorem srtn_runs_shortest_witness:
  "\<exists>s' c. handle_current_running_process srtn_state = Some s' \<and> pcb_heap s' (current_pcb s') = Some c \<and>
     remaining_time c \<le> 3"
proof -
  have v: "selected_algorithm srtn_state = SRTN"
    "map_option (\<lambda>s'. (current_pcb s', map_option (\<lambda>c. (state c, remaining_time c)) (pcb_heap s' 1)))
       (handle_current_running_process srtn_state) = Some (1, Some (Some ''started'', 3))" by code_simp+
  then obtain s' pcb where s': "handle_current_running_process srtn_state = Some s'" "current_pcb s' \<noteq> NULL"
    "pcb_heap s' 1 = Some pcb" "state pcb \<noteq> Some ''finished''" "remaining_time pcb = 3" by auto
  from srtn_runs_shortest [OF any_run_exec [OF srtn_run] exec_all_orderly [OF srtn_run] _ _ v(1) s'(1-4)] s' show ?thesis
    by (auto simp: in_int_def)
qed

end
