(* ===== verification/System_Signals.thy ===== *)
theory System_Signals
  imports System_Properties Scheduler_Signals
begin

text \<open>
  The whole system with the interleavings that \<open>sys_step\<close> leaves out: a process sends its signal at
  every change of the clock it sees, whatever stands at the front of the ready queue, and a process
  that has just been forked may be continued before it stops itself, and then stops. Also then no
  part of the system reaches an undefined operation.
\<close>

section \<open>The machine\<close>

text \<open>
  Before its first signal a process may still have its \<open>raise(SIGSTOP)\<close> in front of it.
\<close>

inductive sys_any :: "kernel \<Rightarrow> sysconf \<Rightarrow> sysconf \<Rightarrow> bool" for k where
  as_before: "sys_step k x e \<Longrightarrow> sys_any k x e"
| signals: "procs y i = Some p \<Longrightarrow> ticks (clk (sch y)) p \<Longrightarrow>
    handle_signal (poll (clk (sch y)) p) (sch y) = Some s' \<Longrightarrow>
    sys_any k (Up y) (Up (y\<lparr>sch := s', procs := (procs y)(i \<mapsto> poll (clk (sch y)) p)\<rparr>))"
| signals_down: "procs y i = Some p \<Longrightarrow> ticks (clk (sch y)) p \<Longrightarrow>
    handle_signal (poll (clk (sch y)) p) (sch y) = None \<Longrightarrow> sys_any k (Up y) Down"
| stops_itself: "procs y i = Some p \<Longrightarrow> signals p = [] \<Longrightarrow>
    sys_any k (Up y) (Up (y\<lparr>procs := (procs y)(i \<mapsto> p\<lparr>stopped := True\<rparr>)\<rparr>))"

inductive sys_any_reachable :: "kernel \<Rightarrow> sysconf \<Rightarrow> sysconf \<Rightarrow> bool" for k c where
  start: "sys_any_reachable k c c"
| step: "sys_any_reachable k c d \<Longrightarrow> sys_any k d e \<Longrightarrow> sys_any_reachable k c e"

lemma reachable_any: "sys_reachable k c d \<Longrightarrow> sys_any_reachable k c d"
  by (induct rule: sys_reachable.induct) (auto intro: sys_any_reachable.intros as_before)

section \<open>The scheduler's part\<close>

lemma any_run_snoc: "any_run es c = Some d \<Longrightarrow> any_exec e d = Some e' \<Longrightarrow> any_run (es @ [e]) c = Some e'"
  by (simp add: any_run_append)

text \<open>Nothing runs when the loop has been left.\<close>

definition idle_end :: "config \<Rightarrow> bool" where
  "idle_end c = (case c of Crashed \<Rightarrow> True | At ph s \<Rightarrow> ph = Done \<longrightarrow> current_pcb s = NULL)"

lemma idle_end_exec: "any_exec e c = Some d \<Longrightarrow> idle_end c \<Longrightarrow> idle_end d"
  by (cases e; cases c)
    (auto simp: idle_end_def outcome_def loop_guard_def split: phase.splits if_splits option.splits)

lemma idle_end_run: "any_run es c = Some d \<Longrightarrow> idle_end c \<Longrightarrow> idle_end d"
  by (induct es arbitrary: c) (auto simp: bind_eq_Some_conv dest: idle_end_exec)

lemma loop_safe:
  assumes "exec Loop (At ph s) = Some (At ph' s')" "safe_state s"
  shows "keeps s s' \<and> switches s s'"
  using assms check_for_new_safe [OF assms(2)] dispatch_safe [OF assms(2)] current_safe [OF assms(2)]
    no_more_safe [OF assms(2)]
  by (cases ph) (auto simp: goes_on_def outcome_def switches_def split: if_splits option.splits)

lemma run_msgs:
  "any_run es c = Some (At ph s) \<Longrightarrow> int (pcb_brk s + length (msgs_pcb s) + length ms) < 1073741824 \<Longrightarrow>
   any_run (es @ map Send_pcb ms @ map Send_str strs) c = Some (At ph (s\<lparr>msgs_pcb := msgs_pcb s @ ms, msgs_str := msgs_str s @ strs\<rparr>))"
proof (induct ms arbitrary: es s)
  case Nil
  then show ?case
  proof (induct strs arbitrary: es s)
    case (Cons x xs)
    have "any_run (es @ [Send_str x]) c = Some (At ph (s\<lparr>msgs_str := msgs_str s @ [x]\<rparr>))"
      using Cons.prems(1) by (rule any_run_snoc) simp
    from Cons.hyps [OF this] Cons.prems(2) show ?case by simp
  qed simp
next
  case (Cons m ms)
  have "any_run (es @ [Send_pcb m]) c = Some (At ph (s\<lparr>msgs_pcb := msgs_pcb s @ [m]\<rparr>))"
    using Cons.prems(1) by (rule any_run_snoc) (use Cons.prems(2) in simp)
  from Cons.hyps [OF this] Cons.prems(2) show ?case by simp
qed

section \<open>The invariant\<close>

text \<open>Which process may run: one that has time left and is not stopped is the scheduler's current one.\<close>

definition one_runs :: "sched \<Rightarrow> (int \<rightharpoonup> process) \<Rightarrow> bool" where
  "one_runs s P \<longleftrightarrow> (\<forall>i p. P i = Some p \<longrightarrow> \<not> stopped p \<longrightarrow> 0 < left p \<longrightarrow>
     current_pcb s \<noteq> NULL \<and> (\<exists>x. pcb_heap s (current_pcb s) = Some x \<and> pid x = i))"

definition sys_safe :: "kernel \<Rightarrow> gconfig \<Rightarrow> config \<Rightarrow> system \<Rightarrow> bool" where
  "sys_safe k gs st y \<longleftrightarrow> gen_reachable k gs (Gen (gen_phase y) (gen y)) \<and>
     (\<exists>es. any_run es st = Some (At (sch_phase y) (sch y))) \<and>
     pcb_brk (sch y) + length (msgs_pcb (sch y)) \<le> Suc (length (pcb_sent (gen y))) \<and> one_runs (sch y) (procs y)"

lemma one_runs_spawn: "one_runs s P \<Longrightarrow> one_runs s (spawn ms P)"
proof (induct ms arbitrary: P)
  case (Cons m ms)
  have "one_runs s (P(pid m \<mapsto> run_process (runtime (PDATA m))))"
    using Cons.prems by (auto simp: one_runs_def run_process_def)
  then show ?case using Cons.hyps by simp
qed simp

lemma one_runs_frame: "one_runs s P \<Longrightarrow> keeps s s' \<Longrightarrow> current_pcb s' = current_pcb s \<Longrightarrow> one_runs s' P"
  by (fastforce simp: one_runs_def keeps_def)

lemma one_runs_switch:
  assumes "one_runs s P" "keeps s s'" "switches s s'"
  shows "one_runs s' (deliver t (drop (length (kills s)) (kills s')) P)"
  using assms(3) unfolding switches_def
proof (elim disjE conjE exE)
  assume "current_pcb s' = current_pcb s" "kills s' = kills s"
  then show ?thesis using one_runs_frame [OF assms(1,2)] by simp
next
  fix c
  assume "current_pcb s = NULL" "current_pcb s' \<noteq> NULL" "pcb_heap s' (current_pcb s') = Some c"
    "kills s' = kills s @ [(pid c, SIGCONT)]"
  then show ?thesis using assms(1) by (auto simp: one_runs_def split: if_splits)
next
  fix c
  assume "current_pcb s \<noteq> NULL" "current_pcb s' = NULL" "pcb_heap s (current_pcb s) = Some c"
    "kills s' = kills s @ [(pid c, SIGSTOP)]"
  then show ?thesis using assms(1) by (auto simp: one_runs_def split: if_splits)
qed

text \<open>A round of the process that runs.\<close>

lemma safe_signal:
  assumes safe: "safe_state s" and runs: "one_runs s P" and p: "P i = Some p" "ticks (clk s) p"
  shows "current_pcb s \<noteq> NULL \<and> (\<exists>s' e. handle_signal (poll (clk s) p) s = Some s' \<and> (e = Sigusr1 \<or> e = Sigusr2) \<and>
    (\<forall>ph. ph \<noteq> Done \<longrightarrow> any_exec e (At ph s) = Some (At ph s')) \<and> keeps s s' \<and>
    one_runs s' (P(i \<mapsto> poll (clk s) p)))"
proof -
  let ?p = "poll (clk s) p"
  have lp: "\<not> stopped p" "0 < left p" "clk s \<noteq> last_clk p" using p(2) by (simp_all add: ticks_def)
  then obtain x where cur: "current_pcb s \<noteq> NULL" and x: "pcb_heap s (current_pcb s) = Some x" "pid x = i"
    using runs p(1) by (auto simp: one_runs_def)
  have sig: "last (signals ?p) = (if left ?p \<le> 0 then SIGUSR1 else SIGUSR2)"
    using lp by (simp add: poll_def Let_def)
  show ?thesis
  proof (cases "left ?p \<le> 0")
    case True
    obtain s' where s': "handle_process_termination s = Some s'" "keeps s s'" "current_pcb s' = NULL"
      using termination_safe [OF safe cur] by blast
    have "one_runs s' (P(i \<mapsto> ?p))" using runs x True by (auto simp: one_runs_def)
    then show ?thesis using s' sig True cur
      by (intro conjI exI [of _ s'] exI [of _ Sigusr1]) (simp_all add: handle_signal_def outcome_def)
  next
    case False
    obtain s' where s': "handle_process_tick s = Some s'" "keeps s s'" "current_pcb s' = current_pcb s"
      using tick_safe [OF safe cur] by blast
    have "one_runs s (P(i \<mapsto> ?p))" using runs x cur by (auto simp: one_runs_def)
    then have "one_runs s' (P(i \<mapsto> ?p))" by (rule one_runs_frame [OF _ s'(2,3)])
    then show ?thesis using s' sig False cur
      by (intro conjI exI [of _ s'] exI [of _ Sigusr2]) (simp_all add: handle_signal_def outcome_def)
  qed
qed

lemma one_runs_less:
  assumes "one_runs s P" "\<And>i p. P' i = Some p \<Longrightarrow> \<not> stopped p \<Longrightarrow> 0 < left p \<Longrightarrow>
    \<exists>p0. P i = Some p0 \<and> \<not> stopped p0 \<and> 0 < left p0"
  shows "one_runs s P'"
  using assms unfolding one_runs_def by metis

abbreviation sstart :: "string \<Rightarrow> int \<Rightarrow> Process list \<Rightarrow> int \<Rightarrow> config" where
  "sstart algo q ps now \<equiv> started algo q (int (length ps)) now"

lemma safe_sched:
  assumes "sys_safe k gs (started algo q n now) y"
  shows "safe_state (sch y)" "current_pcb (sch y) \<noteq> NULL \<Longrightarrow> sch_phase y \<noteq> Done"
proof -
  obtain es where es: "any_run es (started algo q n now) = Some (At (sch_phase y) (sch y))"
    using assms by (auto simp: sys_safe_def)
  show "safe_state (sch y)" using any_run_safe [OF es] safe_start by simp
  show "current_pcb (sch y) \<noteq> NULL \<Longrightarrow> sch_phase y \<noteq> Done"
    using idle_end_run [OF es] by (simp add: idle_end_def)
qed

lemma sys_safe_signal:
  assumes ok: "sys_safe k gs (started algo q n now) y" and p: "procs y i = Some p" "ticks (clk (sch y)) p"
  shows "\<exists>s'. handle_signal (poll (clk (sch y)) p) (sch y) = Some s' \<and>
    sys_safe k gs (started algo q n now) (y\<lparr>sch := s', procs := (procs y)(i \<mapsto> poll (clk (sch y)) p)\<rparr>)"
proof -
  note safe = safe_sched [OF ok]
  have runs: "one_runs (sch y) (procs y)" using ok by (simp add: sys_safe_def)
  from safe_signal [OF safe(1) runs p] obtain s' e where
    s': "current_pcb (sch y) \<noteq> NULL" "handle_signal (poll (clk (sch y)) p) (sch y) = Some s'"
    "\<forall>ph. ph \<noteq> Done \<longrightarrow> any_exec e (At ph (sch y)) = Some (At ph s')" "keeps (sch y) s'"
    "one_runs s' ((procs y)(i \<mapsto> poll (clk (sch y)) p))" by blast
  obtain es where "any_run es (started algo q n now) = Some (At (sch_phase y) (sch y))"
    using ok by (auto simp: sys_safe_def)
  then have "any_run (es @ [e]) (started algo q n now) = Some (At (sch_phase y) s')"
    using any_run_snoc s'(3) safe(2) [OF s'(1)] by blast
  then show ?thesis using ok s'(2,4,5) by (auto simp: sys_safe_def keeps_def)
qed

lemma sys_safe_step:
  assumes fine: "system_fine k algo q ps c d" and step: "sys_step k (Up y) e"
    and ok: "sys_safe k (gen_starts ps c d now) (sstart algo q ps now) y"
  shows "\<exists>y'. e = Up y' \<and> sys_safe k (gen_starts ps c d now) (sstart algo q ps now) y'"
proof -
  have run: "run_ok k ps c d" and fl: "file_fine ps" using fine by (simp_all add: system_fine_def)
  note safe = safe_sched [OF ok]
  have g: "gen_reachable k (gen_starts ps c d now) (Gen (gen_phase y) (gen y))" and runs: "one_runs (sch y) (procs y)"
    and room: "pcb_brk (sch y) + length (msgs_pcb (sch y)) \<le> Suc (length (pcb_sent (gen y)))"
    using ok by (simp_all add: sys_safe_def)
  obtain es where es: "any_run es (sstart algo q ps now) = Some (At (sch_phase y) (sch y))"
    using ok by (auto simp: sys_safe_def)
  from step show ?thesis
  proof (induct "Up y" e rule: sys_step.induct)
    case (generator ph g')
    have g': "gen_reachable k (gen_starts ps c d now) (Gen ph g')"
      by (rule gen_reachable.step [OF g gen_exec_step [OF generator]])
    obtain new where new: "pcb_sent g' = pcb_sent (gen y) @ new" using go_grows [OF generator] by blast
    have "length (pcb_sent g') \<le> length ps" by (rule sent_bound [OF run_good [OF run g']])
    then have "pcb_brk (sch y) + length (msgs_pcb (sch y)) + length new < queue_limit"
      using room new fl by (simp add: file_fine_def)
    from run_msgs [OF es, of new "drop (length (str_sent (gen y))) (str_sent g')"] this
    have "\<exists>es'. any_run es' (sstart algo q ps now) = Some (At (sch_phase y) (receive_new (gen y) g' (sch y)))"
      by (auto simp: receive_new_def new)
    moreover have "one_runs (receive_new (gen y) g' (sch y)) (spawn new (procs y))"
      using one_runs_spawn [OF runs, of new] by (simp add: one_runs_def receive_new_def)
    ultimately show ?case using g' room new by (simp add: sys_safe_def receive_new_def)
  next
    case generator_down
    from run_good [OF run gen_reachable.step [OF g gen_exec_step [OF generator_down]]] show ?case by simp
  next
    case (scheduler ph s')
    have ks: "keeps (sch y) s'" "switches (sch y) s'" using loop_safe [OF scheduler safe(1)] by blast+
    have "any_run (es @ [Loop]) (sstart algo q ps now) = Some (At ph s')"
      by (rule any_run_snoc [OF es any_exec_exec [OF scheduler]])
    then show ?case using g room ks one_runs_switch [OF runs ks] by (auto simp: sys_safe_def keeps_def)
  next
    case scheduler_down
    from any_exec_safe [OF any_exec_exec [OF scheduler_down] safe(1)] show ?case by simp
  next
    case (signal i p s')
    then show ?case using sys_safe_signal [OF ok signal(1,2)] by auto
  next
    case (signal_down i p)
    then show ?case using sys_safe_signal [OF ok signal_down(1,2)] by auto
  next
    case (idle_round i p)
    have "one_runs (sch y) ((procs y)(i \<mapsto> poll (clk (sch y)) p))"
      by (rule one_runs_less [OF runs]) (use idle_round in \<open>auto simp: poll_def ticks_def split: if_splits\<close>)
    then show ?case using ok by (simp add: sys_safe_def)
  next
    case (reap i g')
    have "gen_step k (Gen (gen_phase y) (gen y)) (goutcome (gen_phase y) (handle_child_exit [i] (gen y)))"
      using reap(1) by (intro gen_step.child_exit) auto
    then have "gen_step k (Gen (gen_phase y) (gen y)) (Gen (gen_phase y) g')"
      by (simp only: reap(5) goutcome_def option.case)
    from gen_reachable.step [OF g this] have "gen_reachable k (gen_starts ps c d now) (Gen (gen_phase y) g')" .
    moreover have "one_runs (sch y) ((procs y)(i := None))"
      by (rule one_runs_less [OF runs]) (auto split: if_splits)
    moreover have "pcb_sent g' = pcb_sent (gen y)" using handle_child_exit_frame [OF reap(5)] by simp
    ultimately show ?case using ok by (simp add: sys_safe_def)
  next
    case (reap_down i)
    have "gen_step k (Gen (gen_phase y) (gen y)) (goutcome (gen_phase y) (handle_child_exit [i] (gen y)))"
      using reap_down(1) by (intro gen_step.child_exit) auto
    from run_good [OF run gen_reachable.step [OF g this [unfolded reap_down(2) goutcome_def option.case]]]
    show ?case by simp
  next
    case clock
    have "gen_reachable k (gen_starts ps c d now) (Gen (gen_phase y) ((gen y)\<lparr>gen_clk := gen_clk (gen y) + 1\<rparr>))"
      by (rule gen_reachable.step [OF g gen_step.clock [OF clock(2)]])
    moreover have "any_run (es @ [Clock]) (sstart algo q ps now) = Some (At (sch_phase y) ((sch y)\<lparr>clk := clk (sch y) + 1\<rparr>))"
      by (rule any_run_snoc [OF es]) (use clock(1) in simp)
    ultimately show ?case using room runs by (auto simp: sys_safe_def one_runs_def)
  qed
qed

lemma sys_any_ok:
  assumes fine: "system_fine k algo q ps c d"
  shows "sys_any_reachable k x e \<Longrightarrow> x = Up (start_system algo q ps c d now) \<Longrightarrow>
    \<exists>y. e = Up y \<and> sys_safe k (gen_starts ps c d now) (sstart algo q ps now) y"
proof (induct rule: sys_any_reachable.induct)
  case start
  have "any_run [] (sstart algo q ps now) = Some (At Guard (run_scheduler algo q (int (length ps)) now))" by simp
  then show ?case using start gen_reachable.start
    by (auto simp: sys_safe_def start_system_def one_runs_def run_scheduler_def Let_def intro!: exI [of _ "[]"])
next
  case (step u v)
  then obtain y where y: "u = Up y" "sys_safe k (gen_starts ps c d now) (sstart algo q ps now) y" by blast
  from step.hyps(3) [unfolded y(1)] show ?case
  proof (cases rule: sys_any.cases)
    case as_before
    then show ?thesis using sys_safe_step [OF fine _ y(2)] by blast
  next
    case (signals i p s')
    then show ?thesis using sys_safe_signal [OF y(2) signals(2,3)] by auto
  next
    case (signals_down i p)
    then show ?thesis using sys_safe_signal [OF y(2) signals_down(2,3)] by auto
  next
    case (stops_itself i p)
    have "one_runs (sch y) ((procs y)(i \<mapsto> p\<lparr>stopped := True\<rparr>))"
      by (rule one_runs_less [of _ "procs y"]) (use y(2) in \<open>auto simp: sys_safe_def split: if_splits\<close>)
    then show ?thesis using y(2) stops_itself(1) by (simp add: sys_safe_def)
  qed
qed

section \<open>Properties\<close>

text \<open>
  C6: the generator, the scheduler, the processes and the clock together reach no undefined operation,
  in whatever order the kernel lets them run. Here a process sends its signal at every change of the
  clock it sees, under SRTN also when a newly arrived process stands at the front of the ready queue,
  and it may be continued before it has stopped itself, and then stop; a signal is handled between two
  steps of the scheduler. The scheduler's part is a run of its own model under the same signals,
  without the crash that C1 describes, because the system continues at most one process at a time:
  whichever has work left and is not stopped is the one the scheduler believes to run. The generator's
  part is a run of its own.
\<close>

theorem system_safe:
  assumes "system_fine k algo q ps c d" "sys_any_reachable k (Up (start_system algo q ps c d now)) e"
  shows "\<exists>y. e = Up y \<and> (\<exists>es. any_run es (started algo q (int (length ps)) now) = Some (At (sch_phase y) (sch y))) \<and>
    gen_reachable k (gen_starts ps c d now) (Gen (gen_phase y) (gen y)) \<and> one_runs (sch y) (procs y)"
  using sys_any_ok [OF assms refl] by (auto simp: sys_safe_def)

theorem system_safe_witness:
  "\<exists>es. any_run es (started ''hpf'' 1 1 0) = Some (At Done (sch (sys_state whole_events)))"
  using system_safe [OF one_fine, of 0 "Up (sys_state whole_events)"] whole_run
  by (auto simp: one_file_def dest: reachable_any)

end
