(* ===== verification/Scheduler_Spec.thy ===== *)
theory Scheduler_Spec
  imports Scheduler_Signals Scheduler_View
begin

text \<open>
  What the scheduler promises, as an abstract machine without queues, logs and messages: jobs arrive, the
  job that the policy ranks first is started when none runs, a running job works off its time and
  completes, and it is put aside at the end of its time slice (RR) or for a job with no more left (SRTN).
  Each step of the scheduler is the action of this machine that belongs to it.
\<close>

section \<open>The abstract machine\<close>

text \<open>A job is its pid, its entry of the input file, the time left and whether it has completed.\<close>

record spec =
  jobs :: "ptr \<rightharpoonup> int \<times> Process \<times> int \<times> bool"
  running :: "ptr option"
  budget :: int
  policy :: SchedulingAlgorithm
  slice :: int

definition rank :: "SchedulingAlgorithm \<Rightarrow> Process \<Rightarrow> int \<Rightarrow> int" where
  "rank alg d r = (case alg of SRTN \<Rightarrow> r | HPF \<Rightarrow> proc_priority d | RR \<Rightarrow> 0)"

definition is_first :: "spec \<Rightarrow> ptr \<Rightarrow> bool" where
  "is_first S p \<longleftrightarrow> (\<exists>i d r. jobs S p = Some (i, d, r, False) \<and>
     (\<forall>p' i' d' r'. jobs S p' = Some (i', d', r', False) \<longrightarrow> rank (policy S) d r \<le> rank (policy S) d' r'))"

datatype action = Arrive int Process | Start | Work | Complete | Slice_end | Preempt

inductive act :: "action \<Rightarrow> spec \<Rightarrow> spec \<Rightarrow> bool" where
  arrives: "jobs S p = None \<Longrightarrow> act (Arrive i d) S (S\<lparr>jobs := (jobs S)(p \<mapsto> (i, d, runtime d, False))\<rparr>)"
| starts: "running S = None \<Longrightarrow> is_first S p \<Longrightarrow> jobs S p = Some (i, d, r, False) \<Longrightarrow>
    act Start S (S\<lparr>running := Some p, budget := r\<rparr>)"
| works: "running S = Some p \<Longrightarrow> jobs S p = Some (i, d, r, False) \<Longrightarrow> 0 < r \<Longrightarrow>
    act Work S (S\<lparr>jobs := (jobs S)(p \<mapsto> (i, d, r - 1, False))\<rparr>)"
| completes: "running S = Some p \<Longrightarrow> jobs S p = Some (i, d, r, False) \<Longrightarrow> 0 < r \<Longrightarrow>
    act Complete S (S\<lparr>jobs := (jobs S)(p \<mapsto> (i, d, r - 1, True)), running := None, budget := 0\<rparr>)"
| slice_ends: "policy S = RR \<Longrightarrow> running S = Some p \<Longrightarrow> jobs S p = Some (i, d, r, False) \<Longrightarrow>
    r \<le> budget S - slice S \<Longrightarrow>
    act Slice_end S (S\<lparr>jobs := (jobs S)(p \<mapsto> (i, d, budget S - slice S, False)), running := None, budget := 0\<rparr>)"
| preempted: "policy S = SRTN \<Longrightarrow> running S = Some p \<Longrightarrow> p' \<noteq> p \<Longrightarrow> is_first S p' \<Longrightarrow>
    act Preempt S (S\<lparr>running := None, budget := 0\<rparr>)"

definition spec_step :: "spec \<Rightarrow> spec \<Rightarrow> bool" where
  "spec_step S S' \<longleftrightarrow> (\<exists>a. act a S S')"

text \<open>
  What the machine does at an event of the scheduler: the PCBs read arrive, one after the other; a
  dispatch starts a job whenever none runs and one is left to do, the check of the running process ends
  a slice that is used up (RR) and puts a job aside exactly when it is not a first one, or another is as
  short and stands in front (SRTN); a signal is a unit of work, or the last one; nothing else does anything.
\<close>

primrec arrive_all :: "PCB list \<Rightarrow> spec \<Rightarrow> spec \<Rightarrow> bool" where
  "arrive_all [] S S' \<longleftrightarrow> S' = S"
| "arrive_all (m # ms) S S' \<longleftrightarrow> (\<exists>T. act (Arrive (pid m) (PDATA m)) S T \<and> arrive_all ms T S')"

definition can_start :: "spec \<Rightarrow> bool" where
  "can_start S \<longleftrightarrow> running S = None \<and> (\<exists>p i d r. jobs S p = Some (i, d, r, False))"

definition used_up :: "spec \<Rightarrow> bool" where
  "used_up S \<longleftrightarrow> (\<exists>p i d r. running S = Some p \<and> jobs S p = Some (i, d, r, False) \<and> r \<le> budget S - slice S)"

definition start_if :: "spec \<Rightarrow> spec \<Rightarrow> bool" where
  "start_if S S' \<longleftrightarrow> (if can_start S then act Start S S' else S' = S)"

definition check_running :: "spec \<Rightarrow> spec \<Rightarrow> bool" where
  "check_running S S' \<longleftrightarrow>
     (case policy S of
        HPF \<Rightarrow> start_if S S'
      | RR \<Rightarrow> if used_up S then act Slice_end S S' else S' = S
      | SRTN \<Rightarrow> act Preempt S S' \<or> S' = S \<and> (\<forall>p. running S = Some p \<longrightarrow> is_first S p))"

fun spec_does :: "PCB list \<Rightarrow> event \<Rightarrow> phase \<Rightarrow> spec \<Rightarrow> spec \<Rightarrow> bool" where
  "spec_does ms Sigusr2 ph S S' = act Work S S'"
| "spec_does ms Sigusr1 ph S S' = act Complete S S'"
| "spec_does ms Loop Receive S S' = arrive_all ms S S'"
| "spec_does ms Loop Dispatch S S' = start_if S S'"
| "spec_does ms Loop Running S S' = check_running S S'"
| "spec_does ms e ph S S' \<longleftrightarrow> S' = S"

abbreviation spec_run :: "spec \<Rightarrow> spec \<Rightarrow> bool" where
  "spec_run \<equiv> rtranclp spec_step"

definition abstract :: "sched \<Rightarrow> spec" where
  "abstract s = \<lparr>jobs = pview s, running = (if current_pcb s = NULL then None else Some (current_pcb s)),
     budget = (if current_pcb s = NULL then 0 else last_remain_time s),
     policy = selected_algorithm s, slice = quantum s\<rparr>"

lemma abstract_simps [simp]:
  "jobs (abstract s) = pview s" "policy (abstract s) = selected_algorithm s" "slice (abstract s) = quantum s"
  "running (abstract s) = (if current_pcb s = NULL then None else Some (current_pcb s))"
  "budget (abstract s) = (if current_pcb s = NULL then 0 else last_remain_time s)"
  by (simp_all add: abstract_def)

lemma abstract_eqI:
  "pview s' = jobs S \<Longrightarrow> selected_algorithm s' = policy S \<Longrightarrow> quantum s' = slice S \<Longrightarrow>
   running S = (if current_pcb s' = NULL then None else Some (current_pcb s')) \<Longrightarrow>
   budget S = (if current_pcb s' = NULL then 0 else last_remain_time s') \<Longrightarrow> abstract s' = S"
  by (simp add: abstract_def)

text \<open>What the abstract machine does not see.\<close>

lemma abstract_frame:
  "pcb_heap s' = pcb_heap s \<Longrightarrow> current_pcb s' = current_pcb s \<Longrightarrow> last_remain_time s' = last_remain_time s \<Longrightarrow>
   selected_algorithm s' = selected_algorithm s \<Longrightarrow> quantum s' = quantum s \<Longrightarrow> abstract s' = abstract s"
  by (simp add: abstract_def pview_def fun_eq_iff)

lemma abstract_unseen [simp]:
  "abstract (s\<lparr>msgs_pcb := ms\<rparr>) = abstract s" "abstract (s\<lparr>msgs_str := strs\<rparr>) = abstract s"
  "abstract (s\<lparr>clk := t\<rparr>) = abstract s" "abstract (s\<lparr>no_more_processes := b\<rparr>) = abstract s"
  "abstract (s\<lparr>idle_time := t\<rparr>) = abstract s" "abstract (log_execution e s) = abstract s"
  by (rule abstract_frame; simp add: log_execution_def)+

section \<open>The simulation\<close>

lemma view_first:
  assumes core: "sched_core s (x # xs)" and all: "current_pcb s = NULL \<or> current_pcb s \<in> fst ` set (x # xs)"
  shows "is_first (abstract s) (fst x)"
proof -
  let ?alg = "selected_algorithm s"
  have ok: "pcbs_ok (pcb_heap s) (pcb_brk s)" using core by (simp add: sched_core_def)
  obtain c where c: "pcb_heap s (fst x) = Some c"
    using core by (auto simp: sched_core_def entries_ok_def)
  then have v: "pview s (fst x) = Some (pid c, PDATA c, remaining_time c, False)"
    using queued_unfinished [OF core _ c] by (simp add: pview_def brief_def)
  have "rank ?alg (PDATA c) (remaining_time c) \<le> rank ?alg d' r'" if w: "pview s p' = Some (i', d', r', False)"
    for p' i' d' r'
  proof -
    obtain c' where c': "pcb_heap s p' = Some c'" "brief c' = (i', d', r', False)" using w by (auto simp: pview_def)
    then have "state c' \<noteq> Some ''finished''" by (simp add: brief_def)
    then have "p' \<in> fst ` set (x # xs)"
      using unfinished_live [OF core c'(1)] all pcbs_ok_get(2) [OF ok c'(1)] by auto
    from first_entry_min [OF core this c'(1)] c c'(2) show ?thesis
      by (simp add: rank_def queue_priority_def brief_def split: SchedulingAlgorithm.splits)
  qed
  with v show ?thesis by (auto simp: is_first_def)
qed

lemma can_start_queue:
  assumes core: "sched_core s xs" and null: "current_pcb s = NULL"
  shows "can_start (abstract s) \<longleftrightarrow> xs \<noteq> []"
proof
  assume "can_start (abstract s)"
  then obtain p c where c: "pcb_heap s p = Some c" "state c \<noteq> Some ''finished''"
    by (auto simp: can_start_def pview_def brief_def)
  have "pcbs_ok (pcb_heap s) (pcb_brk s)" using core by (simp add: sched_core_def)
  then have "p \<noteq> NULL" by (rule pcbs_ok_get(2)) (rule c(1))
  then show "xs \<noteq> []" using unfinished_live [OF core c] null by auto
next
  assume "xs \<noteq> []"
  then obtain x ys where x: "xs = x # ys" by (cases xs) auto
  then obtain c where c: "pcb_heap s (fst x) = Some c" using core by (auto simp: sched_core_def entries_ok_def)
  then have "state c \<noteq> Some ''finished''" using queued_unfinished [OF core _ c] x by simp
  then have "pview s (fst x) = Some (pid c, PDATA c, remaining_time c, False)" using c by (simp add: pview_def brief_def)
  then show "can_start (abstract s)" using null by (auto simp: can_start_def)
qed

lemma schedule_spec:
  assumes core: "sched_core s xs" and null: "current_pcb s = NULL" and run: "schedule_next_process s = Some s'"
  shows "start_if (abstract s) (abstract s')"
proof (cases xs)
  case Nil
  then have "s' = s" using schedule_next_Nil core run by auto
  then show ?thesis using can_start_queue [OF core null] Nil by (simp add: start_if_def)
next
  case (Cons x ys)
  obtain pcb q f where c: "pcb_heap s (fst x) = Some pcb" and s': "s' = s\<lparr>current_pcb := fst x,
      rdy_queue := q, pcb_heap := (pcb_heap s)(fst x \<mapsto> dispatched (clk s) pcb),
      kills := kills s @ [(pid pcb, SIGCONT)], last_remain_time := remaining_time pcb,
      log_start_time := clk s, files := f\<rparr>"
    using schedule_next_Cons [OF core [unfolded Cons] null] run by auto
  have "pcbs_ok (pcb_heap s) (pcb_brk s)" using core by (simp add: sched_core_def)
  then have nn: "fst x \<noteq> NULL" by (rule pcbs_ok_get(2)) (rule c)
  have v: "pview s (fst x) = Some (pid pcb, PDATA pcb, remaining_time pcb, False)"
    using queued_unfinished [OF core _ c] Cons c by (simp add: pview_def brief_def)
  have "act Start (abstract s) ((abstract s)\<lparr>running := Some (fst x), budget := remaining_time pcb\<rparr>)"
    by (rule starts [OF _ view_first]) (use null core Cons v in auto)
  moreover have "pview s' = pview s" using schedule_view [OF core null run] by blast
  then have "abstract s' = (abstract s)\<lparr>running := Some (fst x), budget := remaining_time pcb\<rparr>"
    by (intro abstract_eqI) (simp_all add: s' nn)
  ultimately show ?thesis using can_start_queue [OF core null] Cons by (simp add: start_if_def)
qed

text \<open>A process that is taken off the CPU.\<close>

lemma expire_view:
  assumes core: "sched_core t xs" and cur: "current_pcb t \<noteq> NULL" and alg: "selected_algorithm t \<noteq> HPF"
    and run: "handle_quantum_expiration t = Some s'" and c: "pcb_heap t (current_pcb t) = Some c"
  shows "pview s' = (pview t)(current_pcb t \<mapsto> (pid c, PDATA c, remaining_time c, False))"
    "current_pcb s' = NULL" "selected_algorithm s' = selected_algorithm t" "quantum s' = quantum t"
proof -
  obtain q f where s': "s' = t\<lparr>execution_log := execution_log t @
        [Runs (proc_id (PDATA c)) (runtime (PDATA c)) (log_start_time t) (clk t) (remaining_time c)],
      last_process_end_time := clk t, kills := kills t @ [(pid c, SIGSTOP)],
      pcb_heap := (pcb_heap t)(current_pcb t \<mapsto> c\<lparr>state := Some ''stopped''\<rparr>), files := f,
      current_pcb := NULL, rdy_queue := q, log_start_time := 0\<rparr>"
    using handle_quantum_expiration_run [OF core cur alg] run c by auto
  show "pview s' = (pview t)(current_pcb t \<mapsto> (pid c, PDATA c, remaining_time c, False))"
    by (auto simp: pview_def s' brief_def)
  show "current_pcb s' = NULL" "selected_algorithm s' = selected_algorithm t" "quantum s' = quantum t"
    by (simp_all add: s')
qed

lemma current_spec_RR:
  assumes core: "sched_core s xs" and RR: "selected_algorithm s = RR" and run: "handle_current_running_process s = Some s'"
  shows "check_running (abstract s) (abstract s')"
proof (cases "current_pcb s = NULL")
  case True
  then show ?thesis using run RR by (simp add: handle_current_running_process_def check_running_def used_up_def)
next
  case False
  let ?c = "current_pcb s" and ?r = "last_remain_time s - quantum s"
  obtain pcb where pcb: "get_pcb s ?c = Some pcb" "pcb_heap s ?c = Some pcb" "state pcb \<in> {Some ''started'', Some ''resumed''}"
    by (rule sched_core_current [OF core False])
  then have v: "pview s ?c = Some (pid pcb, PDATA pcb, remaining_time pcb, False)" by (auto simp: pview_def brief_def)
  note w = quantum_limit [OF core False RR]
  have u: "used_up (abstract s) \<longleftrightarrow> remaining_time pcb \<le> ?r" using False v by (simp add: used_up_def)
  show ?thesis
  proof (cases "remaining_time pcb \<le> ?r")
    case le: False
    then have "s' = s" using run RR False pcb(1) w by (simp add: handle_current_running_process_def Let_def)
    then show ?thesis using u le RR by (simp add: check_running_def)
  next
    case True
    let ?t = "put_pcb s ?c (pcb\<lparr>remaining_time := ?r\<rparr>)"
    have run': "handle_quantum_expiration ?t = Some s'"
      using run RR False pcb(1) w True by (simp add: handle_current_running_process_def Let_def)
    have "0 < quantum s" using core RR by (simp add: sched_core_def quantum_ok_def)
    then have t: "sched_core ?t xs" by (intro put_pcb_core [OF core RR False pcb(2) True]) simp
    have ts: "current_pcb ?t = ?c" "selected_algorithm ?t = RR" "quantum ?t = quantum s"
      "pcb_heap ?t ?c = Some (pcb\<lparr>remaining_time := ?r\<rparr>)" using RR by (simp_all add: put_pcb_def)
    have nb: "current_pcb ?t \<noteq> NULL" "selected_algorithm ?t \<noteq> HPF" using ts False by simp_all
    note e = expire_view [OF t nb run', unfolded ts(1), OF ts(4)]
    have "pview ?t = (pview s)(?c \<mapsto> brief (pcb\<lparr>remaining_time := ?r\<rparr>))"
      by (intro pview_upd) (simp add: put_pcb_def)
    then have "pview s' = (pview s)(?c \<mapsto> (pid pcb, PDATA pcb, ?r, False))" using e(1) by simp
    then have "abstract s' = (abstract s)\<lparr>jobs := (jobs (abstract s))(?c \<mapsto>
        (pid pcb, PDATA pcb, budget (abstract s) - slice (abstract s), False)), running := None, budget := 0\<rparr>"
      by (intro abstract_eqI) (use e(2-4) ts False RR in simp_all)
    moreover have "act Slice_end (abstract s) ((abstract s)\<lparr>jobs := (jobs (abstract s))(?c \<mapsto>
        (pid pcb, PDATA pcb, budget (abstract s) - slice (abstract s), False)), running := None, budget := 0\<rparr>)"
      by (rule slice_ends) (use RR v False True in auto)
    ultimately show ?thesis using u True RR by (simp add: check_running_def)
  qed
qed

lemma current_spec_SRTN:
  assumes core: "sched_core s xs" and SRTN: "selected_algorithm s = SRTN" and run: "handle_current_running_process s = Some s'"
  shows "check_running (abstract s) (abstract s')"
proof (cases "current_pcb s = NULL")
  case True
  then have "s' = s" using run SRTN
    by (auto simp: handle_current_running_process_def Let_def bind_eq_Some_conv split: if_splits)
  then show ?thesis using True SRTN by (simp add: check_running_def)
next
  case False
  let ?c = "current_pcb s"
  have cur: "?c \<in> fst ` set xs" "xs \<noteq> []"
    using core False SRTN by (auto simp: sched_core_def current_ok_def)
  then obtain x ys where xs: "xs = x # ys" by (cases xs) auto
  have first: "is_first (abstract s) (fst x)" using view_first [OF core [unfolded xs]] cur xs by simp
  from handle_current_srtn [OF core SRTN False run] show ?thesis
  proof
    assume "s' = s \<and> xs \<noteq> [] \<and> fst (hd xs) = ?c"
    then show ?thesis using first xs SRTN False by (simp add: check_running_def)
  next
    assume null: "current_pcb s' = NULL"
    have "queue_is SRTN (rdy_queue s) (x # ys)" using core SRTN xs by (simp add: sched_core_def)
    from queue_is_front [OF this] have fr: "front (rdy_queue s) = Some (Some (fst x))" by auto
    have x: "fst x \<noteq> ?c"
    proof
      assume "fst x = ?c"
      then have "s' = s" using run SRTN fr False
        by (auto simp: handle_current_running_process_def ptr_of_def Let_def bind_eq_Some_conv split: if_splits)
      then show False using null False by simp
    qed
    have "pcbs_ok (pcb_heap s) (pcb_brk s)" "\<exists>z. pcb_heap s (fst x) = Some z"
      using core xs by (auto simp: sched_core_def entries_ok_def)
    then have nn: "fst x \<noteq> NULL" using pcbs_ok_get(2) by blast
    have run': "handle_quantum_expiration s = Some s'" using run SRTN fr False x nn
      by (auto simp: handle_current_running_process_def ptr_of_def Let_def bind_eq_Some_conv split: if_splits)
    obtain pcb where pcb: "pcb_heap s ?c = Some pcb" "state pcb \<in> {Some ''started'', Some ''resumed''}"
      by (rule sched_core_current [OF core False])
    then have v: "pview s ?c = Some (pid pcb, PDATA pcb, remaining_time pcb, False)" by (auto simp: pview_def brief_def)
    have "selected_algorithm s \<noteq> HPF" using SRTN by simp
    note e = expire_view [OF core False this run' pcb(1)]
    have "pview s' = pview s" using e(1) v by (simp add: fun_upd_idem)
    then have "abstract s' = (abstract s)\<lparr>running := None, budget := 0\<rparr>"
      by (intro abstract_eqI) (use e(2-4) in simp_all)
    moreover have "act Preempt (abstract s) ((abstract s)\<lparr>running := None, budget := 0\<rparr>)"
      by (rule preempted [OF _ _ x first]) (use SRTN False in auto)
    ultimately show ?thesis using SRTN by (simp add: check_running_def)
  qed
qed

lemma signals_spec:
  assumes core: "sched_core s xs" and sig: "signal_ok s"
  shows "handle_process_tick s = Some s' \<Longrightarrow> act Work (abstract s) (abstract s')"
    "handle_process_termination s = Some s' \<Longrightarrow> act Complete (abstract s) (abstract s')"
proof -
  let ?c = "current_pcb s"
  obtain c where c: "pcb_heap s ?c = Some c" "0 < remaining_time c" "?c \<noteq> NULL"
    using sig by (auto simp: signal_ok_def)
  have "state c \<noteq> Some ''finished''" using core c(1,3) by (auto simp: sched_core_def finished_ok_def)
  then have v: "pview s ?c = Some (pid c, PDATA c, remaining_time c, False)"
    using c(1) by (simp add: pview_def brief_def)
  show "act Work (abstract s) (abstract s')" if run: "handle_process_tick s = Some s'"
  proof -
    have "quantum s' = quantum s" "last_remain_time s' = last_remain_time s"
      using run by (auto simp: handle_process_tick_def bind_eq_Some_conv Let_def put_pcb_def split: if_splits)
    with tick_view [OF core sig run c(1)] have "abstract s' = (abstract s)\<lparr>jobs := (jobs (abstract s))(?c \<mapsto>
        (pid c, PDATA c, remaining_time c - 1, False))\<rparr>"
      by (intro abstract_eqI) (simp_all add: outside_def)
    moreover have "act Work (abstract s) ((abstract s)\<lparr>jobs := (jobs (abstract s))(?c \<mapsto>
        (pid c, PDATA c, remaining_time c - 1, False))\<rparr>)"
      by (rule works) (use v c in auto)
    ultimately show ?thesis by simp
  qed
  show "act Complete (abstract s) (abstract s')" if run: "handle_process_termination s = Some s'"
  proof -
    have "quantum s' = quantum s" using handle_process_termination_run [OF core sig c(1)] run by auto
    with termination_view [OF core sig run c(1)] have "abstract s' = (abstract s)\<lparr>jobs := (jobs (abstract s))(?c \<mapsto>
        (pid c, PDATA c, remaining_time c - 1, True)), running := None, budget := 0\<rparr>"
      by (intro abstract_eqI) (simp_all add: outside_def)
    moreover have "act Complete (abstract s) ((abstract s)\<lparr>jobs := (jobs (abstract s))(?c \<mapsto>
        (pid c, PDATA c, remaining_time c - 1, True)), running := None, budget := 0\<rparr>)"
      by (rule completes) (use v c in auto)
    ultimately show ?thesis by simp
  qed
qed

lemma receive_spec:
  "receive_all ms s = Some s' \<Longrightarrow> sched_core s xs \<Longrightarrow> \<forall>m \<in> set ms. msg_ok m \<Longrightarrow>
   pcb_brk s + length ms \<le> queue_limit \<Longrightarrow> arrive_all (takeWhile valid_pcb ms) (abstract s) (abstract s')"
proof (induct ms arbitrary: s xs)
  case Nil
  then show ?case by auto
next
  case (Cons m ms)
  show ?case
  proof (cases "valid_pcb m")
    case False
    then show ?thesis using Cons.prems(1) by auto
  next
    case True
    have m: "msg_ok m" and b: "pcb_brk s < queue_limit" using Cons.prems(3,4) by auto
    obtain q ys where t: "admit m s = Some (s\<lparr>pcb_heap := (pcb_heap s)(pcb_brk s \<mapsto> m),
        pcb_brk := Suc (pcb_brk s), rdy_queue := q\<rparr>)" (is "_ = Some ?t")
      "sched_core (s\<lparr>pcb_heap := (pcb_heap s)(pcb_brk s \<mapsto> m), pcb_brk := Suc (pcb_brk s), rdy_queue := q\<rparr>) ys"
      using admit_core [OF Cons.prems(2) True m b] by blast
    have "receive_all ms ?t = Some s'" using Cons.prems(1) True t(1) by simp
    from Cons.hyps [OF this t(2)] have rest: "arrive_all (takeWhile valid_pcb ms) (abstract ?t) (abstract s')"
      using Cons.prems(3,4) by simp
    have "pcbs_ok (pcb_heap s) (pcb_brk s)" using Cons.prems(2) by (simp add: sched_core_def)
    then have "pcb_heap s (pcb_brk s) = None" by (auto simp: pcbs_ok_def)
    then have "jobs (abstract s) (pcb_brk s) = None" by (simp add: pview_def)
    note arrive = arrives [OF this, of "pid m" "PDATA m"]
    have "pview ?t = (pview s)(pcb_brk s \<mapsto> brief m)" by (rule pview_upd) simp
    then have "abstract ?t = (abstract s)\<lparr>jobs := (jobs (abstract s))(pcb_brk s \<mapsto> (pid m, PDATA m, runtime (PDATA m), False))\<rparr>"
      using m by (intro abstract_eqI) (simp_all add: brief_def msg_ok_def)
    then have "act (Arrive (pid m) (PDATA m)) (abstract s) (abstract ?t)" using arrive by (simp only:)
    then show ?thesis using rest True by auto
  qed
qed

lemma dispatch_spec:
  assumes core: "sched_core s xs" and run: "dispatch s = Some s'"
  shows "start_if (abstract s) (abstract s')"
proof (cases "current_pcb s = NULL")
  case False
  then show ?thesis using run by (simp add: dispatch_def start_if_def can_start_def)
next
  case True
  let ?i = "if clk s > last_process_end_time s \<and> \<not> is_empty (rdy_queue s) then
      log_execution (Idle (last_process_end_time s) (clk s))
        (s\<lparr>idle_time := wrap32 (idle_time s + wrap32 (clk s - last_process_end_time s))\<rparr>) else s"
  have i: "sched_core ?i xs" "current_pcb ?i = NULL" "abstract ?i = abstract s"
    using core True by (auto simp: sched_core_def log_execution_def abstract_def pview_def fun_eq_iff)
  have "schedule_next_process ?i = Some s'" using run True by (simp add: dispatch_def)
  from schedule_spec [OF i(1,2) this] i(3) show ?thesis by simp
qed

lemma current_spec:
  assumes core: "sched_core s xs" and run: "handle_current_running_process s = Some s'"
  shows "check_running (abstract s) (abstract s')"
proof (cases "selected_algorithm s")
  case HPF
  then show ?thesis using run schedule_spec [OF core]
    by (auto simp: handle_current_running_process_def check_running_def start_if_def can_start_def split: if_splits)
qed (use current_spec_RR [OF core _ run] current_spec_SRTN [OF core _ run] in blast)+

lemma event_spec:
  assumes run: "exec e (At ph s) = Some (At ph' s')" and inv: "sched_inv s"
  shows "spec_does (takeWhile valid_pcb (msgs_pcb s)) e ph (abstract s) (abstract s')"
proof -
  obtain xs where core: "sched_core s xs" and ms: "\<forall>m \<in> set (msgs_pcb s). msg_ok m"
    "pcb_brk s + length (msgs_pcb s) \<le> queue_limit" using inv by (auto simp: sched_inv_def sched_rep_def)
  show ?thesis
  proof (cases e)
    case Loop
    show ?thesis
    proof (cases ph)
      case Receive
      then have "receive_all (msgs_pcb s) s = Some s'"
        using run Loop by (auto simp: outcome_def check_for_new_processes_def split: option.splits)
      from receive_spec [OF this core ms] show ?thesis using Loop Receive by simp
    next
      case Dispatch
      then show ?thesis using run Loop dispatch_spec [OF core] by (auto simp: outcome_def split: option.splits)
    next
      case Running
      then show ?thesis using run Loop current_spec [OF core] by (auto simp: outcome_def split: option.splits)
    qed (use run Loop in \<open>auto simp: check_no_more_processes_def Let_def split: if_splits list.splits\<close>)
  next
    case Sigusr2
    then show ?thesis using run signals_spec(1) [OF core] by (auto simp: outcome_def split: if_splits option.splits)
  next
    case Sigusr1
    then show ?thesis using run signals_spec(2) [OF core] by (auto simp: outcome_def split: if_splits option.splits)
  qed (use run in \<open>auto split: if_splits\<close>)
qed

lemma act_step: "act a S S' \<Longrightarrow> spec_step S S'"
  by (auto simp: spec_step_def)

lemma act_run: "act a S S' \<Longrightarrow> spec_run S S'"
  using act_step by blast

lemma arrive_all_run: "arrive_all ms S S' \<Longrightarrow> spec_run S S'"
  by (induct ms arbitrary: S) (auto intro: converse_rtranclp_into_rtranclp act_step)

lemma does_run: "spec_does ms e ph S S' \<Longrightarrow> spec_run S S'"
  by (induct ms e ph S S' rule: spec_does.induct)
    (auto simp: start_if_def check_running_def intro: act_run arrive_all_run split: if_splits SchedulingAlgorithm.splits)

lemma step_event: "sched_step c d \<Longrightarrow> \<exists>e. exec e c = Some d"
proof (induct rule: sched_step.induct)
  case (sigusr2 s ph)
  then show ?case by (intro exI [of _ Sigusr2]) simp
next
  case (sigusr1 s ph)
  then show ?case by (intro exI [of _ Sigusr1]) simp
next
  case (clock s ph)
  then show ?case by (intro exI [of _ Clock]) simp
next
  case (send_pcb m s ph)
  then show ?case by (intro exI [of _ "Send_pcb m"]) simp
next
  case (send_str ph s str)
  show ?case by (intro exI [of _ "Send_str str"]) simp
qed (rule exI [of _ Loop], simp)+

lemma step_spec:
  assumes "sched_step (At ph s) (At ph' s')" "sched_inv s"
  shows "spec_run (abstract s) (abstract s')"
  using step_event [OF assms(1)] event_spec [OF _ assms(2)] does_run by blast

section \<open>Consequences\<close>

definition completed :: "spec \<Rightarrow> ptr \<Rightarrow> bool" where
  "completed S p \<longleftrightarrow> (\<exists>i d r. jobs S p = Some (i, d, r, True))"

text \<open>A completed job stays so, and without preemption a running job runs until it has completed.\<close>

lemma completed_step: "spec_step S S' \<Longrightarrow> completed S p \<Longrightarrow> completed S' p"
  unfolding spec_step_def by (elim exE act.cases) (auto simp: completed_def)

lemma policy_step: "spec_step S S' \<Longrightarrow> policy S' = policy S"
  unfolding spec_step_def by (elim exE act.cases) auto

definition held :: "ptr \<Rightarrow> spec \<Rightarrow> bool" where
  "held p S \<longleftrightarrow> policy S = HPF \<and> (running S = Some p \<or> completed S p)"

lemma held_step: "spec_step S S' \<Longrightarrow> held p S \<Longrightarrow> held p S'"
  unfolding spec_step_def by (elim exE act.cases) (auto simp: held_def completed_def)

text \<open>Simulations, lifted from steps to runs once.\<close>

locale simulation =
  fixes step :: "'c \<Rightarrow> 'c \<Rightarrow> bool" and astep :: "'a \<Rightarrow> 'a \<Rightarrow> bool" and match :: "'c \<Rightarrow> 'a \<Rightarrow> bool"
  assumes simulates: "step c d \<Longrightarrow> match c a \<Longrightarrow> \<exists>b. match d b \<and> rtranclp astep a b"
begin

lemma runs: "rtranclp step c d \<Longrightarrow> match c a \<Longrightarrow> \<exists>b. match d b \<and> rtranclp astep a b"
proof (induct rule: rtranclp_induct)
  case base
  then show ?case by blast
next
  case (step d e)
  then show ?case using simulates by (meson rtranclp_trans)
qed

lemma runs_keep:
  assumes "rtranclp step c d" "match c a" "P a" "\<And>a b. astep a b \<Longrightarrow> P a \<Longrightarrow> P b"
  shows "\<exists>b. match d b \<and> P b"
proof -
  obtain b where b: "match d b" "rtranclp astep a b" using runs [OF assms(1,2)] by blast
  from b(2) have "P b" by (induct rule: rtranclp_induct) (use assms(3,4) in auto)
  with b(1) show ?thesis by blast
qed

end

definition implements :: "config \<Rightarrow> spec \<Rightarrow> bool" where
  "implements c S = holds (\<lambda>s. sched_inv s \<and> S = abstract s) c"

lemma implements_At [simp]: "implements (At ph s) S \<longleftrightarrow> sched_inv s \<and> S = abstract s"
  by (simp add: implements_def)

lemma implementsE:
  assumes "implements c S"
  obtains ph s where "c = At ph s" "sched_inv s" "S = abstract s"
  using assms by (cases c) (auto simp: implements_def)

interpretation refine: simulation sched_step spec_step implements
proof
  fix c d S
  assume step: "sched_step c d" and "implements c S"
  from this(2) obtain ph s where c: "c = At ph s" "sched_inv s" "S = abstract s" by (rule implementsE)
  then have "holds sched_inv d" using inv.step [OF step] by simp
  then obtain ph' s' where d: "d = At ph' s'" "sched_inv s'" by (cases d) auto
  then show "\<exists>S'. implements d S' \<and> spec_run S S'" using step_spec [OF step [unfolded c(1) d(1)] c(2)] c(3) by auto
qed

lemma reachable_run: "reachable c d \<Longrightarrow> rtranclp sched_step c d"
  by (induct rule: reachable.induct) auto

definition idle_spec :: "string \<Rightarrow> int \<Rightarrow> spec" where
  "idle_spec name q = \<lparr>jobs = Map.empty, running = None, budget = 0, policy = set_selected_algorithm name RR, slice = q\<rparr>"

lemma abstract_start: "abstract (run_scheduler name q n now) = idle_spec name q"
  by (simp add: abstract_def idle_spec_def run_scheduler_def Let_def pview_def fun_eq_iff)

lemma implements_start: "slice_ok name q \<Longrightarrow> in_int q \<Longrightarrow> implements (started name q n now) (idle_spec name q)"
  using sched_inv_start by (simp add: abstract_start)

section \<open>Properties\<close>

text \<open>
  C3: the scheduler refines the abstract machine, step by step. It starts as the idle machine of its
  algorithm and quantum, and after every orderly run (signals are handled while a process with time left
  runs and, under SRTN, is the front of the queue) the next event does to the jobs exactly what
  \<open>spec_does\<close> says: reading the messages lets the valid ones up to the first invalid one arrive, a dispatch
  starts a job of the least rank whenever none runs and one is left to do, the check of the running
  process ends a used-up slice (RR) or preempts (SRTN), the signals are units of work, and nothing else
  changes the jobs or the one that runs.
\<close>

theorem scheduler_refines:
  assumes "any_run es (started name q n now) = Some (At ph s)" "orderly (es @ [e]) (started name q n now)"
    "any_exec e (At ph s) = Some conf" "slice_ok name q" "in_int q"
  shows "abstract (run_scheduler name q n now) = idle_spec name q \<and>
    (\<exists>ph' s'. conf = At ph' s' \<and> spec_does (takeWhile valid_pcb (msgs_pcb s)) e ph (abstract s) (abstract s'))"
proof -
  have o: "orderly es (started name q n now)" "in_order e (At ph s)"
    using assms(2) by (simp_all add: orderly_append assms(1))
  have r: "reachable (started name q n now) (At ph s)" by (rule orderly_reachable [OF assms(1) o(1)])
  have inv: "sched_inv s" by (rule reachable_sched_inv [OF r assms(4,5)])
  have e: "exec e (At ph s) = Some conf" by (rule in_order_exec [OF o(2) assms(3)])
  have "holds sched_inv conf" using inv.step [OF exec_step [OF e]] inv by simp
  then obtain ph' s' where c: "conf = At ph' s'" by (cases conf) auto
  show ?thesis using abstract_start c event_spec [OF e [unfolded c] inv] by blast
qed

theorem scheduler_refines_witness:
  "\<exists>ph' s'. any_exec Loop (At Running (demo_state 14)) = Some (At ph' s') \<and>
     act Slice_end (abstract (demo_state 14)) (abstract s')"
proof -
  have o: "orderly (take 14 demo_events @ [Loop]) (started ''rr'' 1 2 0)"
    using demo_run [OF demo_phases(3)] by (simp add: orderly_append demo_start_def in_order_def)
  have v: "selected_algorithm (demo_state 14) = RR" "current_pcb (demo_state 14) = 1"
    "map_option (\<lambda>c. (state c = Some ''finished'', remaining_time c)) (pcb_heap (demo_state 14) 1) = Some (False, 1)"
    "last_remain_time (demo_state 14) - quantum (demo_state 14) = 1" by code_simp+
  then have u: "used_up (abstract (demo_state 14))" by (auto simp: used_up_def pview_def brief_def)
  obtain conf where c: "any_exec Loop (At Running (demo_state 14)) = Some conf" by simp
  from scheduler_refines [OF demo_run(1) [OF demo_phases(3), unfolded demo_start_def] o c] obtain ph' s' where
    "conf = At ph' s'" "check_running (abstract (demo_state 14)) (abstract s')" by (auto simp: in_int_def)
  then show ?thesis using c u v(1) by (auto simp: check_running_def)
qed

text \<open>
  C13: under HPF the running process is never put aside: however the run goes on, it stays the running
  one until it is finished, and is finished from then on. The run is one of \<open>sched_step\<close>, in which a signal
  is handled only while a process with time left runs.
\<close>

theorem hpf_runs_to_completion:
  assumes "reachable (started ''hpf'' q n now) (At ph s)" "in_int q" "current_pcb s = p" "p \<noteq> NULL"
    "reachable (At ph s) (At ph' s')"
  shows "current_pcb s' = p \<or> (\<exists>pcb. pcb_heap s' p = Some pcb \<and> state pcb = Some ''finished'')"
proof -
  have hpf: "slice_ok ''hpf'' q" by (simp add: set_selected_algorithm_def)
  have "policy (idle_spec ''hpf'' q) = HPF" by (simp add: idle_spec_def set_selected_algorithm_def)
  then have "policy (abstract s) = HPF"
    using refine.runs_keep [OF reachable_run [OF assms(1)] implements_start [OF hpf assms(2)],
        of "\<lambda>S. policy S = HPF"] policy_step by auto
  then have "implements (At ph s) (abstract s)" "held p (abstract s)"
    using assms(3,4) reachable_sched_inv [OF assms(1) hpf assms(2)] by (simp_all add: held_def)
  from refine.runs_keep [where P = "held p", OF reachable_run [OF assms(5)] this held_step] have "held p (abstract s')" by auto
  then show ?thesis by (auto simp: held_def completed_def pview_def brief_def split: if_splits)
qed

text \<open>Process 2, with the better priority, arrives while process 1 runs, and waits until it has finished.\<close>

definition hpf_events :: "event list" where
  "hpf_events = [Send_pcb (demo_pcb 1 0 2 5), Clock, Loop, Loop, Loop]"

definition hpf_later :: "event list" where
  "hpf_later = [Send_pcb (demo_pcb 2 1 1 0), Loop, Loop, Clock, Sigusr2, Loop, Loop, Loop, Loop, Loop, Clock, Sigusr1]"

definition state_of :: "config option \<Rightarrow> sched" where
  "state_of c = (case c of Some (At ph s) \<Rightarrow> s | _ \<Rightarrow> run_scheduler ''hpf'' 1 2 0)"

lemma state_of_phase:
  "Option.bind c phase_of = Some ph \<Longrightarrow> c = Some (At ph (state_of c))"
  by (cases c; cases "the c") (auto simp: state_of_def)

theorem hpf_runs_to_completion_witness:
  "\<exists>pcb. pcb_heap (state_of (exec_all (hpf_events @ hpf_later) (started ''hpf'' 1 2 0))) 1 = Some pcb \<and>
     state pcb = Some ''finished''"
proof -
  let ?a = "exec_all hpf_events (started ''hpf'' 1 2 0)"
  let ?b = "exec_all (hpf_events @ hpf_later) (started ''hpf'' 1 2 0)"
  have "Option.bind ?a phase_of = Some Running" "Option.bind ?b phase_of = Some Guard" by code_simp+
  then have a: "?a = Some (At Running (state_of ?a))" and b: "?b = Some (At Guard (state_of ?b))"
    by (auto intro: state_of_phase)
  have split: "exec_all (xs @ ys) c = Option.bind (exec_all xs c) (exec_all ys)" for xs ys c
    by (induct xs arbitrary: c) (auto split: option.splits bind_splits)
  have "exec_all hpf_later (At Running (state_of ?a)) = Option.bind ?a (exec_all hpf_later)" by (subst a) simp
  also have "\<dots> = Some (At Guard (state_of ?b))" by (subst b [symmetric]) (simp only: split)
  finally have "exec_all hpf_later (At Running (state_of ?a)) = Some (At Guard (state_of ?b))" .
  then have r: "reachable (At Running (state_of ?a)) (At Guard (state_of ?b))"
    by (rule exec_all_reachable) (rule reachable.start)
  have ra: "reachable (started ''hpf'' 1 2 0) (At Running (state_of ?a))"
    using exec_all_reachable [OF a reachable.start] .
  have "current_pcb (state_of ?a) = 1" "current_pcb (state_of ?b) = 0" by code_simp+
  with hpf_runs_to_completion [OF ra _ _ _ r, of 1] show ?thesis by (simp add: in_int_def)
qed

end
