(* ===== verification/Scheduler_Summary.thy ===== *)
theory Scheduler_Summary
  imports Scheduler_Properties Scheduler_View Log_Files
begin

text \<open>
  What a run of the scheduler leaves in its files: the entries of scheduler.log can be read back from
  its text, and scheduler.perf holds the means over the processes of the input file.
\<close>

section \<open>The invariant of the log\<close>

definition files_ok :: "int \<Rightarrow> sched \<Rightarrow> bool" where
  "files_ok n s \<longleftrightarrow> proc_count (files s) = n \<and> (\<forall>e \<in> set (scheduler_log (files s)). log_entry_ok e)"

lemma files_ok_frame: "files s' = files s \<Longrightarrow> files_ok n s' = files_ok n s"
  by (simp add: files_ok_def)

lemma files_ok_other [simp]:
  "files_ok n (s\<lparr>pcb_heap := h\<rparr>) = files_ok n s" "files_ok n (s\<lparr>rdy_queue := q\<rparr>) = files_ok n s"
  "files_ok n (s\<lparr>current_pcb := p\<rparr>) = files_ok n s" "files_ok n (s\<lparr>last_remain_time := r\<rparr>) = files_ok n s"
  "files_ok n (s\<lparr>log_start_time := r\<rparr>) = files_ok n s" "files_ok n (s\<lparr>last_process_end_time := r\<rparr>) = files_ok n s"
  "files_ok n (s\<lparr>idle_time := r\<rparr>) = files_ok n s" "files_ok n (s\<lparr>execution_log := es\<rparr>) = files_ok n s"
  "files_ok n (s\<lparr>kills := ks\<rparr>) = files_ok n s" "files_ok n (put_pcb s p pcb) = files_ok n s"
  "files_ok n (log_execution e s) = files_ok n s" "files_ok n (kill_pcb i sig s) = files_ok n s"
  by (simp_all add: files_ok_def put_pcb_def log_execution_def kill_pcb_def)

lemma log_files_ok:
  assumes "log_pcb pcb s = Some s'" "state pcb \<in> Some ` {''started'', ''resumed'', ''stopped'', ''finished''}"
    "files_ok n s"
  shows "files_ok n s'"
proof -
  obtain f where f: "log_event (clk s) pcb (files s) = Some f" "s' = s\<lparr>files := f\<rparr>"
    using assms(1) by (auto simp: log_pcb_def bind_eq_Some_conv)
  then have "proc_count f = proc_count (files s)" by (auto simp: log_event_def Let_def bind_eq_Some_conv split: if_splits)
  then show ?thesis using log_event_entries [OF f(1) assms(2)] assms(3) f(2) by (simp add: files_ok_def)
qed

lemma receive_files: "receive_all ms s = Some s' \<Longrightarrow> files s' = files s"
proof (induct ms arbitrary: s)
  case Nil
  then show ?case by auto
next
  case (Cons m ms)
  have "admit m s = Some t \<Longrightarrow> files t = files s" for t by (auto simp: admit_def Let_def bind_eq_Some_conv)
  with Cons show ?case by (auto simp: bind_eq_Some_conv split: if_splits)
qed

lemma schedule_files: "schedule_next_process s = Some s' \<Longrightarrow> files_ok n s \<Longrightarrow> files_ok n s'"
  by (auto simp: schedule_next_process_def Let_def bind_eq_Some_conv split: if_splits)
    (erule log_files_ok; simp)+

lemma expiration_files: "handle_quantum_expiration s = Some s' \<Longrightarrow> files_ok n s \<Longrightarrow> files_ok n s'"
  by (auto simp: handle_quantum_expiration_def Let_def bind_eq_Some_conv split: if_splits)
    (erule log_files_ok; simp)+

lemma termination_files: "handle_process_termination s = Some s' \<Longrightarrow> files_ok n s \<Longrightarrow> files_ok n s'"
  by (auto simp: handle_process_termination_def Let_def bind_eq_Some_conv split: if_splits)
    (erule log_files_ok; simp)+

lemma tick_files: "handle_process_tick s = Some s' \<Longrightarrow> files s' = files s"
  by (auto simp: handle_process_tick_def Let_def bind_eq_Some_conv put_pcb_def)

lemma dispatch_files: "dispatch s = Some s' \<Longrightarrow> files_ok n s \<Longrightarrow> files_ok n s'"
  by (auto simp: dispatch_def split: if_splits elim!: schedule_files)

lemma current_files: "handle_current_running_process s = Some s' \<Longrightarrow> files_ok n s \<Longrightarrow> files_ok n s'"
  by (auto simp: handle_current_running_process_def Let_def bind_eq_Some_conv
      split: SchedulingAlgorithm.splits if_splits elim!: schedule_files expiration_files)

interpretation logs: loop_invariant "\<lambda>s. sched_inv s \<and> files_ok n s"
proof unfold_locales
  fix s assume i: "sched_inv s \<and> files_ok n s"
  then have inv: "sched_inv s" and f: "files_ok n s" by auto
  show "\<exists>s'. check_for_new_processes s = Some s' \<and> sched_inv s' \<and> files_ok n s'"
    using check_for_new_inv [OF inv] f receive_files files_ok_frame by (metis check_for_new_processes_def)
  show "\<exists>s'. dispatch s = Some s' \<and> sched_inv s' \<and> files_ok n s'"
    using dispatch_inv [OF inv] f dispatch_files by blast
  show "\<exists>s'. handle_current_running_process s = Some s' \<and> sched_inv s' \<and> files_ok n s'"
    using handle_current_inv [OF inv] f current_files by blast
  show "signal_ok s \<Longrightarrow> \<exists>s'. handle_process_tick s = Some s' \<and> sched_inv s' \<and> files_ok n s'"
    using handle_process_tick_inv [OF inv] f tick_files files_ok_frame by metis
  show "signal_ok s \<Longrightarrow> \<exists>s'. handle_process_termination s = Some s' \<and> sched_inv s' \<and> files_ok n s'"
    using handle_process_termination_inv [OF inv] f termination_files by blast
  show "sched_inv (check_no_more_processes s) \<and> files_ok n (check_no_more_processes s)"
    using check_no_more_inv [OF inv] f
    by (auto simp: check_no_more_processes_def files_ok_def Let_def split: list.splits)
  show "clk s < 2147483647 \<Longrightarrow> sched_inv (s\<lparr>clk := clk s + 1\<rparr>) \<and> files_ok n (s\<lparr>clk := clk s + 1\<rparr>)"
    using inv.clock [OF inv] f by (simp add: files_ok_def)
  fix m
  show "msg_ok m \<Longrightarrow> pcb_brk s + length (msgs_pcb s) < queue_limit \<Longrightarrow>
    sched_inv (s\<lparr>msgs_pcb := msgs_pcb s @ [m]\<rparr>) \<and> files_ok n (s\<lparr>msgs_pcb := msgs_pcb s @ [m]\<rparr>)"
    using inv.pcb_msg [OF inv] f by (simp add: files_ok_def)
  fix str
  show "sched_inv (s\<lparr>msgs_str := msgs_str s @ [str]\<rparr>) \<and> files_ok n (s\<lparr>msgs_str := msgs_str s @ [str]\<rparr>)"
    using inv.str_msg [OF inv] f by (simp add: files_ok_def)
qed

lemma reachable_files:
  assumes "reachable (started name q n now) (At ph s)" "slice_ok name q" "in_int q"
  shows "files_ok n s"
proof -
  have "files_ok n (run_scheduler name q n now)"
    by (simp add: files_ok_def run_scheduler_def init_scheduler_log_def Let_def)
  then show ?thesis using logs.reachable [OF assms(1)] sched_inv_start [OF assms(2,3)] by simp
qed

section \<open>Properties\<close>

text \<open>
  C35: no information is lost in the logs of the scheduler: two runs, under any algorithms, whose
  execution_log.txt and scheduler.log have the same text have made the same entries in the same order.
\<close>

theorem logs_unambiguous:
  assumes "reachable (started name q n now) (At ph s)" "slice_ok name q" "in_int q"
    "reachable (started name' q' n' now') (At ph' s')" "slice_ok name' q'" "in_int q'"
  shows "(execution_log_text (execution_log s) = execution_log_text (execution_log s') \<longleftrightarrow>
      execution_log s = execution_log s') \<and>
    (scheduler_log_text (files s) = scheduler_log_text (files s') \<longleftrightarrow>
      scheduler_log (files s) = scheduler_log (files s'))"
  using reachable_files [OF assms(1-3)] reachable_files [OF assms(4-6)] log_texts_inj(1)
    log_texts_inj(3) [of "files s" "files s'"] by (simp add: files_ok_def)

theorem logs_unambiguous_witness:
  "scheduler_log_text (files (demo_state 31)) \<noteq> scheduler_log_text (files (demo_state 14))"
proof -
  have "length (scheduler_log (files (demo_state 31))) \<noteq> length (scheduler_log (files (demo_state 14)))" by code_simp
  then have "scheduler_log (files (demo_state 31)) \<noteq> scheduler_log (files (demo_state 14))" by metis
  with logs_unambiguous [of "''rr''" 1 2 0 Done "demo_state 31" "''rr''" 1 2 0 Running "demo_state 14"]
    demo_reachable_At [OF demo_phases(1)] demo_reachable_At [OF demo_phases(3)] show ?thesis
    by (simp add: demo_start_def in_int_def)
qed

text \<open>
  C11: what the user reads at the end. After a run with at least one process in the input file and a
  clock that is not 0, the scheduler exits with code 0 and scheduler.perf holds the share of the time in
  which the CPU was not idle, the mean weighted turnaround and the mean waiting time of the processes
  logged as finished, over the number of processes in the file, each rounded to two decimals; only the
  deviation depends on what \<open>malloc\<close> left in \<open>WTAs\<close>.
\<close>

theorem summary_reports:
  assumes "reachable (started name q n now) (At ph s)" "slice_ok name q" "in_int q"
    "0 < n" "clk s \<noteq> 0" "n \<le> int (length WTAs)" "creatable ''scheduler.perf''"
  shows "\<exists>std. scheduler_finish creatable WTAs s = Some (0, Some (
    ''CPU utilization = '' @ round_number ((1 - of_int (idle_time s) / of_int (clk s)) * 100) @ ''%'' @ [newline] @
    ''Avg WTA = '' @ round_number (sum_list (map weighted (fin_entries (files s))) / of_int n) @ [newline] @
    ''Avg Waiting = '' @ round_number (of_int (wrap32 (sum_list (map waited (fin_entries (files s))))) / of_int n) @ [newline] @
    ''Std WTA = '' @ std @ [newline]))"
proof -
  have n: "proc_count (files s) = n" using reachable_files [OF assms(1-3)] by (simp add: files_ok_def)
  have "\<not> length WTAs < nat (proc_count (files s))" "proc_count (files s) \<noteq> 0" using n assms(4,6) by linarith+
  then obtain r where r: "scheduler_perf_out WTAs (files s) (idle_time s) (clk s) = Some r"
    using assms(5) by (auto simp: scheduler_perf_out_def double_div_def)
  have "log_ok (files s)" using reachable_accounts [OF assms(1-3)] by (simp add: accounts_ok_def)
  then have "perf_wait r = round_number (of_int (wrap32 (sum_list (map waited (fin_entries (files s))))) / of_int n)"
    "perf_wta r = round_number (sum_list (map weighted (fin_entries (files s))) / of_int n)"
    "perf_cpu r = round_number ((1 - of_int (idle_time s) / of_int (clk s)) * 100)"
    using r n by (auto simp: scheduler_perf_out_def double_div_def Let_def log_ok_def bind_eq_Some_conv split: if_splits)
  then show ?thesis using r assms(7) by (simp add: scheduler_finish_def perf_text_def)
qed

theorem summary_reports_witness:
  "\<exists>text. scheduler_finish (\<lambda>_. True) [0, 0] (demo_state 31) = Some (0, Some text)"
proof -
  have v: "clk (demo_state 31) = 4" by code_simp
  show ?thesis using summary_reports [of "''rr''" 1 2 0 Done "demo_state 31" "[0, 0]" "\<lambda>_. True"] v
    demo_reachable_At [OF demo_phases(1)] by (auto simp: demo_start_def in_int_def)
qed

end
