(* ===== verification/Spec2Isabelle.thy ===== *)
theory Spec2Isabelle
  imports Program_End System_Liveness System_Signals Scheduler_Spec Scheduler_Summary
begin

text \<open>
  A verification library for the OS scheduler simulator (src/src): a process generator reads processes
  from a file, gives each a block of a simulated memory, forks it when it arrives and sends its PCB to
  the scheduler, which runs the processes one at a time under round robin (RR), highest priority first
  (HPF) or shortest remaining time next (SRTN), stopping and continuing them with signals, while a
  clock process counts seconds in shared memory.

  The parts of the program and their theories:

  \<^item> Prelude: C's int (\<open>wrap32\<close>), pointers, \<open>None\<close> as undefined behaviour, shared lemmas.
  \<^item> Dnode_Heap: the heap of doubly linked nodes that DS/linked_list.c, DS/circular_queue.c and
    buddy_memory.c work on, with \<open>malloc\<close>, \<open>free\<close> and the chain predicate \<open>seg\<close>.
  \<^item> Circular_Queue, Priority_Queue: DS/circular_queue.c, the ring of the RR scheduler, and
    DS/priority_queue.c, the binary heap of HPF and SRTN.
  \<^item> Queue_Interface, IQueue: what the scheduler relies on of a ready queue, as the locales
    \<open>ready_queue\<close>, \<open>rotating_queue\<close> and \<open>priority_ready_queue\<close>, interpreted by both queues and by
    the dispatching operations of DS/IQueue.c.
  \<^item> Linked_List: DS/linked_list.c, the list of the processes that wait for memory.
  \<^item> Hash_Map: DS/hash_map.c, open addressing with quadratic probing on 64 bit words.
  \<^item> Memory_Interface: what the memory manager relies on, the locales \<open>bounded_map\<close> (interpreted by the
    hash map) and \<open>allocator\<close> (interpreted by the buddy allocator).
  \<^item> Buddy_Memory: buddy_memory.c, the buddy allocator on its list of \<open>Block\<close> structs.
  \<^item> Memory_Manager: memory_manager.c and \<open>log_memory_event\<close>, which process holds which block.
  \<^item> Text_Format, File_Handlers: the input file, both logs, the summary and \<open>round_number\<close> of
    file_handlers.c, and the files test_generator.c writes.
  \<^item> Scheduler: scheduler.c, one definition per function over the record \<open>sched\<close> of its globals.
  \<^item> Log_Files, Scheduler_Summary: the text of the three logs and of scheduler.perf, the scheduler's start
    and end with the files it creates, that the logs can be read back, and what the summary says.
  \<^item> Scheduler_Invariant, Scheduler_Loop, Scheduler_Accounts, Scheduler_Properties: the invariant of
    the scheduler's state, \<open>scheduler_loop\<close> as the step relation \<open>sched_step\<close> with the locale
    \<open>loop_invariant\<close>, the accounting of times, and the properties with a run they are evaluated on.
  \<^item> Scheduler_Signals: the same loop with the handlers of SIGUSR1 and SIGUSR2 run between any two
    functions, \<open>any_exec\<close>, in which undefined operations can then be reached, and \<open>orderly\<close>, the runs in
    which the choices of HPF and SRTN are right.
  \<^item> Scheduler_View, Scheduler_Spec: the part of the scheduler's state that others see, an abstract machine
    of jobs, policies and time slices, and \<open>spec_does\<close>, the action of that machine which each event of
    the scheduler is; the locale \<open>simulation\<close> lifts it to whole runs.
  \<^item> Process_Run: process.c and clk.c, a forked process and the shared clock.
  \<^item> Process_Generator, Generator_Properties: process_generator.c, its state \<open>generator\<close>, the step
    relation \<open>gen_step\<close> for \<open>create_processes\<close> and the SIGCHLD handler, and the properties.
  \<^item> System, System_Properties: the generator, the scheduler, the processes it runs and the clock as one
    machine \<open>sys_step\<close>, in which the messages and signals of each part are what the others receive, its
    invariant \<open>sys_ok\<close>, and what it says of whole runs; \<open>main_program\<close> is \<open>main\<close> up to its loop, with the
    calls that can fail in the record \<open>environment\<close>.
  \<^item> System_Signals: the whole system where a process signals at every change of the clock it sees and
    may be continued before it has stopped itself, \<open>sys_any\<close>, which is free of undefined operations too.
  \<^item> System_Liveness: that the system can always go on to the end of the scheduler once the generator has
    sent its last message; the measure is the time the processes have left, \<open>work\<close>.
  \<^item> Program_End: \<open>finish_main\<close>, the end of \<open>main\<close>, in which the interrupt handlers run: what they
    release, and what is left to the operating system.

  How the state corresponds. Structs are records with the source's fields. Pointers are natural
  numbers with \<open>NULL\<close> as 0; the three doubly linked structures, the \<open>Block\<close>s and the PCBs live in
  explicit heaps, because other parts of the program hold pointers to them. Where the code owns an
  object through one pointer only (a node of the priority queue's array, a bucket of the hash map, a
  \<open>ProcessMemory\<close>, a \<open>Process\<close> of the input file, which is never written) the value stands for it.
  A C int is an integer in range, and every operation that could leave it goes through \<open>wrap32\<close>;
  the hash map's index arithmetic is on \<open>64 word\<close>. \<open>None\<close> as the result of a definition is undefined
  behaviour or a loop that does not end, so that a theorem that a function returns \<open>Some\<close> is a proof
  of memory safety and termination; the failures the code reports itself (NULL, -1, an exit code) are
  values of the result. What the kernel answers is a parameter (the record \<open>kernel\<close>) with its documented
  behaviour as the hypothesis \<open>kernel_ok\<close>: a fork that succeeds returns the positive id of a new process.

  What is shown. For each data structure: the predicate that relates the heap to the list or map it
  stands for (\<open>cq_rep\<close>, \<open>pq_rep\<close>, \<open>ll_rep\<close>, \<open>hm_ok\<close> with \<open>lookup\<close>, \<open>buddy_ok\<close>), that every operation
  returns and keeps it, and what each does to the list or map. For the memory manager and the
  generator: \<open>mm_ok\<close> and \<open>gen_inv\<close>, from which the living processes own disjoint blocks of the size they
  asked for, every process of the file is sent once, and the messages meet what the scheduler's
  invariant relies on. For the scheduler: \<open>sched_inv\<close>, from which no step is undefined, and the weaker
  \<open>safe_state\<close>, which signals at any moment keep too and in which only a handler that runs while no
  process does is undefined; all processes finish; the schedules are those of the algorithm; the times
  logged add up. A number of theorems state defects of the code on concrete inputs or runs.

  Granularity. A function of the scheduler and one pass of a loop of the generator run as one step;
  signals, messages, exits of children and ticks of the clock come between the steps in any order.
  The relations \<open>sched_step\<close> and \<open>sys_step\<close> handle a signal only when the running process has time left and,
  under SRTN, is the front of the ready queue (\<open>signal_ok\<close>), which the code does not check: a new arrival
  can come to the front between a preemption check and a signal. \<open>any_exec\<close> and \<open>sys_any\<close> have no such
  condition. Over them no undefined operation is reachable in the system (\<open>system_safe\<close>), at most one
  process runs, and the scheduler by itself is undefined in one case only (\<open>scheduler_never_crashes\<close>). What a
  property of the schedule needs beyond that is its hypothesis \<open>orderly\<close>, or a run of \<open>sched_step\<close> or
  \<open>sys_step\<close> as its text says; \<open>srtn_signal_race\<close> and \<open>sigchld_race\<close> show what can happen when a signal comes
  at a worse moment, as does \<open>interrupt_use_after_free\<close> for the SIGINT handler.
  A step reads the clock once, where a dispatch of the code reads it up to three times (scheduler.c
  lines 86 and 259, file_handlers.c line 128): a tick in between is not modelled. In \<open>sys_step\<close> a forked
  process has stopped itself before the scheduler continues it; \<open>early_continue_lost\<close> shows what happens
  otherwise, and \<open>sys_any\<close> allows it. The end of \<open>main\<close> is one step, in which no child exits. No process
  id is used twice in a run (\<open>kernel_ok\<close>), although the kernel promises this only of processes that exist
  at the same time. The lines of the input file that are read back have tabs between their numbers,
  as test_generator.c writes them; \<open>scan_process\<close> accepts any blanks, as sscanf does.

  Bounds and fuel. No fuel is used: loops are recursive functions with a termination proof or
  \<open>partial_function (option)\<close> definitions whose results are proved to be \<open>Some\<close>. The numbers of queued
  processes stay below \<open>queue_limit\<close> (2 to the 30), at which the ints of the queues would overflow.

  Not modelled. The debugging output on the terminal and \<open>print_memo\<close>; flushing and closing files;
  \<open>malloc\<close> returning NULL, which the code hardly ever checks; the rounding of double arithmetic, which
  is taken exactly on the reals; the contents of the uninitialised array \<open>WTAs\<close> and of an unset quantum,
  which are arguments; statements of one function interleaved with signals, except where a theorem
  says so.
\<close>

end
